(* ===== verification/Go_Prelude.thy ===== *)
theory Go_Prelude
  imports Main "HOL-Library.Word" "HOL-Library.List_Lexorder" "HOL-Library.Char_ord"
begin

text \<open>
  What the components share about Go: the wrap-around of the signed 64-bit \<open>int\<close>, the
  outcome of a call that may panic, slicing of strings and slices with the bounds checks of the
  run time, the unbounded \<^verbatim>\<open>for\<close> loop, and the lemmas about them. A Go \<^verbatim>\<open>string\<close> is a
  sequence of bytes, which is what \<^typ>\<open>string\<close> is here (a \<^typ>\<open>char\<close> is one byte), so
  \<open>length\<close> is the byte length and \<open>\<le>\<close> the bytewise lexicographic order, as in Go.
\<close>

named_theorems go_defs \<open>definitions of the Go operations that proofs unfold together\<close>
named_theorems ot_simps \<open>rewrite rules of the operational-transformation library\<close>

section \<open>Outcomes\<close>

text \<open>A call returns a value or panics; \<open>'e + 'a\<close> in a value is an \<^verbatim>\<open>error\<close> result.\<close>

datatype 'a outcome = Ret 'a | Panic

fun bind_outcome :: "'a outcome \<Rightarrow> ('a \<Rightarrow> 'b outcome) \<Rightarrow> 'b outcome" where
  "bind_outcome (Ret x) f = f x"
| "bind_outcome Panic f = Panic"

lemma bind_outcome_assoc:
  "bind_outcome (bind_outcome x f) g = bind_outcome x (\<lambda>y. bind_outcome (f y) g)"
  by (cases x) auto

lemma bind_outcome_eq_Ret:
  "bind_outcome x f = Ret r \<longleftrightarrow> (\<exists>y. x = Ret y \<and> f y = Ret r)"
  by (cases x) auto

section \<open>The signed 64-bit integer\<close>

definition int64 :: "int \<Rightarrow> int" where
  "int64 x = (x + 2 ^ 63) mod 2 ^ 64 - 2 ^ 63"

definition int64_ok :: "int \<Rightarrow> bool" where
  "int64_ok x \<longleftrightarrow> - (2 ^ 63) \<le> x \<and> x < 2 ^ 63"

lemma int64_id: "- (2 ^ 63) \<le> x \<Longrightarrow> x < 2 ^ 63 \<Longrightarrow> int64 x = x"
  by (simp add: int64_def)

lemma int64_nonneg_id [simp]: "0 \<le> x \<Longrightarrow> x < 9223372036854775808 \<Longrightarrow> int64 x = x"
  by (simp add: int64_def)

lemma int64_range: "int64_ok (int64 x)"
proof -
  have "0 \<le> (x + 2 ^ 63) mod 2 ^ 64" and "(x + 2 ^ 63) mod 2 ^ 64 < 2 ^ 64"
    by (rule pos_mod_sign, simp) (rule pos_mod_bound, simp)
  then show ?thesis by (simp add: int64_def int64_ok_def)
qed

text \<open>The sum wraps as the hardware's addition on two's complement words does.\<close>

lemma int64_add_word: "int64 (sint a + sint b) = sint (a + b)" for a b :: "64 word"
proof -
  have "int64 x = signed_take_bit 63 x" for x
    by (simp add: int64_def signed_take_bit_eq_take_bit_shift take_bit_eq_mod)
  then show ?thesis
    by (simp add: signed_word_eqI sint_word_ariths)
qed

section \<open>Slicing\<close>

text \<open>\<^verbatim>\<open>s[lo:hi]\<close> panics unless \<open>0 \<le> lo \<le> hi \<le> len(s)\<close>.\<close>

definition slice :: "'a list \<Rightarrow> int \<Rightarrow> int \<Rightarrow> 'a list outcome" where
  "slice s lo hi =
     (if 0 \<le> lo \<and> lo \<le> hi \<and> hi \<le> int (length s)
      then Ret (drop (nat lo) (take (nat hi) s)) else Panic)"

text \<open>\<^verbatim>\<open>s[i]\<close> panics unless \<open>0 \<le> i < len(s)\<close>.\<close>

definition index :: "'a list \<Rightarrow> int \<Rightarrow> 'a outcome" where
  "index s i = (if 0 \<le> i \<and> i < int (length s) then Ret (s ! nat i) else Panic)"

lemma slice_Ret: "0 \<le> lo \<Longrightarrow> lo \<le> hi \<Longrightarrow> hi \<le> int (length s) \<Longrightarrow>
    slice s lo hi = Ret (take (nat (hi - lo)) (drop (nat lo) s))"
  by (simp add: slice_def drop_take nat_diff_distrib)

lemma slice_to: "0 \<le> n \<Longrightarrow> n \<le> int (length s) \<Longrightarrow> slice s 0 n = Ret (take (nat n) s)"
  by (simp add: slice_def)

lemma slice_from: "0 \<le> n \<Longrightarrow> n \<le> int (length s) \<Longrightarrow>
    slice s n (int (length s)) = Ret (drop (nat n) s)"
  by (simp add: slice_def)

lemma slice_length: "slice s lo hi = Ret r \<Longrightarrow> int (length r) = hi - lo"
  by (auto simp: slice_def split: if_splits)

lemma index_Ret: "i < length s \<Longrightarrow> index s (int i) = Ret (s ! i)"
  by (simp add: index_def)

section \<open>Loops\<close>

text \<open>
  One round of a \<^verbatim>\<open>for { ... }\<close> loop either goes on with a new state or leaves the loop.
  \<open>go_loop\<close> repeats it; \<open>None\<close> says that the loop does not end.
\<close>

datatype ('s, 'r) round = Continue 's | Break 'r

partial_function (option) go_loop ::
    "('s \<Rightarrow> ('s, 'r) round outcome) \<Rightarrow> 's \<Rightarrow> 'r outcome option" where
  [code]: "go_loop body s =
     (case body s of
        Panic \<Rightarrow> Some Panic
      | Ret r \<Rightarrow> (case r of Break x \<Rightarrow> Some (Ret x) | Continue s' \<Rightarrow> go_loop body s'))"

text \<open>
  Total correctness of a loop: an invariant that every round keeps while a measure falls, and
  that gives the postcondition where the loop is left.
\<close>

lemma go_loop_total:
  assumes body: "\<And>s. I s \<Longrightarrow>
      (\<exists>s'. body s = Ret (Continue s') \<and> I s' \<and> m s' < (m s :: nat)) \<or>
      (\<exists>x. body s = Ret (Break x) \<and> Q s x)"
    and step: "\<And>s s' x. I s \<Longrightarrow> body s = Ret (Continue s') \<Longrightarrow> Q s' x \<Longrightarrow> Q s x"
    and "I s"
  shows "\<exists>x. go_loop body s = Some (Ret x) \<and> Q s x"
  using \<open>I s\<close>
proof (induction "m s" arbitrary: s rule: less_induct)
  case less
  from body [OF less.prems] show ?case
  proof (elim disjE exE conjE)
    fix s' assume s': "body s = Ret (Continue s')" "I s'" "m s' < m s"
    from less.hyps [OF s'(3,2)] obtain x where
      "go_loop body s' = Some (Ret x)" "Q s' x" by blast
    with s' step [OF less.prems s'(1)] show ?thesis by (subst go_loop.simps) auto
  next
    fix x assume "body s = Ret (Break x)" "Q s x"
    then show ?thesis by (subst go_loop.simps) auto
  qed
qed

text \<open>A set of states in which every round stays and goes on: the loop never ends there.\<close>

lemma go_loop_diverges:
  assumes "\<And>s. I s \<Longrightarrow> \<exists>s'. body s = Ret (Continue s') \<and> I s'"
    and "I s"
  shows "go_loop body s = None"
proof (rule ccontr)
  assume "go_loop body s \<noteq> None"
  then obtain r where ret: "go_loop body s = Some r" by blast
  have "\<not> I s"
  proof (rule go_loop.raw_induct [where P = "\<lambda>b s r. b = body \<longrightarrow> \<not> I s", OF _ ret, THEN mp])
    fix go b s r
    assume IH: "\<And>b s r. go b s = Some r \<Longrightarrow> b = body \<longrightarrow> \<not> I s"
      and eq: "(case b s of Panic \<Rightarrow> Some Panic
        | Ret r \<Rightarrow> (case r of Continue s' \<Rightarrow> go b s' | Break x \<Rightarrow> Some (Ret x))) = Some r"
    show "b = body \<longrightarrow> \<not> I s"
      using IH eq assms(1) [of s] by fastforce
  qed simp
  with \<open>I s\<close> show False by blast
qed

section \<open>Lists\<close>

lemma take_append_length [simp]: "n = length xs \<Longrightarrow> take n (xs @ ys) = xs"
  by simp

lemma drop_append_length [simp]: "n = length xs \<Longrightarrow> drop n (xs @ ys) = ys"
  by simp

lemma list_all_drop: "list_all P xs \<Longrightarrow> list_all P (drop k xs)"
  by (auto simp: list_all_iff dest: in_set_dropD)

lemma list_all_nth: "list_all P xs \<Longrightarrow> i < length xs \<Longrightarrow> P (xs ! i)"
  by (simp add: list_all_length)

section \<open>Unsigned words\<close>

lemma unat_add1: "x < y \<Longrightarrow> unat (x + 1) = Suc (unat x)" for x y :: "'a::len word"
proof -
  assume "x < y"
  then have "unat x < unat y" by (simp add: word_less_nat_alt)
  moreover have "unat y < 2 ^ LENGTH('a)" by (rule unsigned_less)
  ultimately have "Suc (unat x) < 2 ^ LENGTH('a)" by (metis Suc_leI le_less_trans)
  then show ?thesis by (simp add: unat_word_ariths)
qed

lemma less_add1: "x < y \<Longrightarrow> x < x + 1" for x y :: "'a::len word"
  by (simp add: unat_add1 word_less_nat_alt)

lemma atLeastAtMost_add1: "lo \<le> hi \<Longrightarrow> hi < - 1 \<Longrightarrow> {lo..hi} = insert lo {lo + 1..hi}"
  for lo hi :: "'a::len word"
proof -
  assume le: "lo \<le> hi" and hi: "hi < - 1"
  then have "unat (lo + 1) = Suc (unat lo)" by (intro unat_add1 [of lo "- 1"]) simp
  with le show ?thesis
    by (auto simp: word_le_nat_alt word_less_nat_alt word_unat_eq_iff dest: antisym)
qed

lemma word_sub1: "1 \<le> i \<Longrightarrow> i \<noteq> 0 \<and> unat (i - 1) = unat i - 1 \<and> unat (i - 1) < unat i"
  for i :: "'a::len word"
proof -
  assume "1 \<le> i"
  then have "i \<noteq> 0" by (metis word_le_0_iff one_neq_zero)
  moreover from this have "0 < unat i" by (simp add: unat_gt_0)
  ultimately show ?thesis by (simp add: unat_minus_one)
qed

end
