(* ===== verification/Raft_Types.thy ===== *)
theory Raft_Types
  imports Go_Prelude
begin

text \<open>
  \<^verbatim>\<open>src/internal/raft/types.go\<close>, \<^verbatim>\<open>src/internal/raft/config.go\<close> and
  \<^verbatim>\<open>src/internal/raft/future.go\<close>: the data of the Raft implementation. Terms and log indices are
  \<^verbatim>\<open>uint64\<close>, here \<^typ>\<open>64 word\<close>, so their arithmetic wraps as the code's does. An interface is a
  record of its methods; the node's operations take it as an argument.
\<close>

type_synonym u64 = "64 word"

type_synonym bytes = string

text \<open>A Go \<^verbatim>\<open>error\<close>: \<open>None\<close> is \<^verbatim>\<open>nil\<close>.\<close>

datatype store_error = ErrLogNotFound | ErrEntryNotFound u64 | ErrStore string

type_synonym err = "store_error option"

section \<open>Roles, log entries and messages\<close>

datatype ServerState = Follower | Candidate | Leader

record LogEntry =
  Index :: u64
  Term :: u64
  Data :: bytes

record AppendEntriesRequest =
  ae_Term :: u64
  LeaderID :: string
  PrevLogIndex :: u64
  PrevLogTerm :: u64
  Entries :: "LogEntry list"
  LeaderCommit :: u64

record AppendEntriesResponse =
  aer_Term :: u64
  Success :: bool
  ConflictTerm :: u64
  ConflictIndex :: u64

record RequestVoteRequest =
  rv_Term :: u64
  CandidateID :: string
  LastLogIndex :: u64
  LastLogTerm :: u64

record RequestVoteResponse =
  rvr_Term :: u64
  VoteGranted :: bool

section \<open>Interfaces\<close>

text \<open>
  \<^verbatim>\<open>LogStore\<close>. \<open>GetLog\<close> returns a pointer and an error: \<open>Inr e\<close> is a pointer to \<open>e\<close> with a \<^verbatim>\<open>nil\<close>
  error, \<open>Inl (err, p)\<close> an error with the pointer \<open>p\<close> that comes along (\<open>None\<close>: \<^verbatim>\<open>nil\<close>), which the
  two stores choose differently and one caller reads. \<open>DeleteRange\<close> is \<open>None\<close> where the call does
  not return.
\<close>

record 'l LogStore =
  FirstIndex :: "'l \<Rightarrow> u64 \<times> err"
  LastIndex :: "'l \<Rightarrow> u64 \<times> err"
  GetLog :: "'l \<Rightarrow> u64 \<Rightarrow> store_error \<times> LogEntry option + LogEntry"
  StoreLogs :: "'l \<Rightarrow> LogEntry list \<Rightarrow> 'l \<times> err"
  DeleteRange :: "'l \<Rightarrow> u64 \<Rightarrow> u64 \<Rightarrow> ('l \<times> err) option"

text \<open>Both stores implement \<open>StoreLog(e)\<close> as \<open>StoreLogs\<close> of one entry.\<close>

definition StoreLog :: "'l LogStore \<Rightarrow> 'l \<Rightarrow> LogEntry \<Rightarrow> 'l \<times> err" where
  "StoreLog LS l e = StoreLogs LS l [e]"

text \<open>\<^verbatim>\<open>StableStore\<close>; \<open>GetUint64\<close> may panic on a short value.\<close>

record 's StableStore =
  Set :: "'s \<Rightarrow> bytes \<Rightarrow> bytes \<Rightarrow> 's \<times> err"
  Get :: "'s \<Rightarrow> bytes \<Rightarrow> bytes \<times> err"
  SetUint64 :: "'s \<Rightarrow> bytes \<Rightarrow> u64 \<Rightarrow> 's \<times> err"
  GetUint64 :: "'s \<Rightarrow> bytes \<Rightarrow> (u64 \<times> err) outcome"

definition KeyCurrentTerm :: bytes where
  "KeyCurrentTerm = ''CurrentTerm''"

definition KeyVotedFor :: bytes where
  "KeyVotedFor = ''VotedFor''"

section \<open>Configuration\<close>

record PeerConfig =
  ID :: string
  Address :: string

text \<open>
  \<^verbatim>\<open>Config\<close>: the flags say whether the three interface fields are set, durations are in
  nanoseconds.
\<close>

record Config =
  ServerID :: string
  Peers :: "PeerConfig list"
  HeartbeatInterval :: int
  ElectionTimeoutMin :: int
  ElectionTimeoutMax :: int
  has_LogStore :: bool
  has_StableStore :: bool
  has_FSM :: bool

definition Millisecond :: int where
  "Millisecond = 1000000"

definition DefaultConfig :: Config where
  "DefaultConfig =
     \<lparr>ServerID = [], Peers = [], HeartbeatInterval = 150 * Millisecond,
      ElectionTimeoutMin = 1000 * Millisecond, ElectionTimeoutMax = 2000 * Millisecond,
      has_LogStore = False, has_StableStore = False, has_FSM = False\<rparr>"

text \<open>The error names the field.\<close>

definition validate :: "Config \<Rightarrow> string option" where
  "validate c =
     (if ServerID c = [] then Some ''ServerID''
      else if length (Peers c) = 0 then Some ''Peers''
      else if \<not> has_LogStore c then Some ''LogStore''
      else if \<not> has_StableStore c then Some ''StableStore''
      else if \<not> has_FSM c then Some ''FSM''
      else if HeartbeatInterval c \<le> 0 then Some ''HeartbeatInterval''
      else if ElectionTimeoutMin c \<le> 0 \<or> ElectionTimeoutMax c \<le> ElectionTimeoutMin c
        then Some ''ElectionTimeout (invalid range)''
      else if \<not> list_ex (\<lambda>p. ID p = ServerID c) (Peers c)
        then Some ''ServerID not found in Peers list''
      else None)"

section \<open>Futures\<close>

datatype raft_error = ErrNotLeader | ErrShutdown | ErrTimeout | ErrLeaderLost | ErrStoreLog store_error

text \<open>
  \<^verbatim>\<open>ApplyFuture\<close>: \<open>fut_errCh\<close> is the buffered channel of capacity one, \<open>fut_responded\<close> and
  \<open>fut_read\<close> the two \<^verbatim>\<open>sync.Once\<close>, and the inner \<open>raft_error option\<close> the error, \<^verbatim>\<open>nil\<close> being
  \<open>None\<close>.
\<close>

record 'r ApplyFuture =
  fut_errCh :: "raft_error option option"
  fut_response :: "'r option"
  fut_responded :: bool
  fut_read :: bool
  fut_err :: "raft_error option"

definition newApplyFuture :: "'r ApplyFuture" where
  "newApplyFuture =
     \<lparr>fut_errCh = None, fut_response = None, fut_responded = False, fut_read = False, fut_err = None\<rparr>"

definition respond :: "'r ApplyFuture \<Rightarrow> raft_error option \<Rightarrow> 'r option \<Rightarrow> 'r ApplyFuture" where
  "respond f e r =
     (if fut_responded f then f
      else f\<lparr>fut_responded := True, fut_response := r, fut_errCh := Some e\<rparr>)"

text \<open>\<open>Error()\<close> blocks (\<open>None\<close>) until the channel holds a value, and reads it once.\<close>

definition future_Error :: "'r ApplyFuture \<Rightarrow> ('r ApplyFuture \<times> raft_error option) option" where
  "future_Error f =
     (if fut_read f then Some (f, fut_err f)
      else case fut_errCh f of
          None \<Rightarrow> None
        | Some e \<Rightarrow> Some (f\<lparr>fut_read := True, fut_err := e, fut_errCh := None\<rparr>, e))"

definition future_Response :: "'r ApplyFuture \<Rightarrow> 'r option" where
  "future_Response f = fut_response f"

lemma respond_respond [simp]: "respond (respond f e r) e' r' = respond f e r"
  by (simp add: respond_def)

lemma respond_responded [simp]: "fut_responded (respond f e r)"
  by (simp add: respond_def)

text \<open>
  A future is resolved at most once: whatever is responded later, \<open>Error()\<close> after the first
  \<open>respond\<close> returns without blocking with its error, every further call returns the same error, and
  \<open>Response()\<close> is its response.
\<close>

lemma future_resolved_once:
  "let f = fold (\<lambda>(e, r) g. respond g e r) later (respond newApplyFuture e0 r0) in
   future_Response f = r0 \<and>
   (\<exists>f'. future_Error f = Some (f', e0) \<and> future_Error f' = Some (f', e0) \<and> future_Response f' = r0)"
proof -
  have "fold (\<lambda>(e, r) g. respond g e r) later (respond newApplyFuture e0 r0) = respond newApplyFuture e0 r0"
    by (induction later) auto
  then show ?thesis
    by (simp add: newApplyFuture_def respond_def future_Error_def future_Response_def)
qed

end
