(* ===== verification/Election_Spec.thy ===== *)
theory Election_Spec
  imports Raft_Types
begin

text \<open>
  The abstract specification of leader election: what each node has as term, vote and role, the
  ballots ever cast and the winners ever declared with the quorum that elected them. Unlike the
  textbook protocol a node may forget its vote and vote again in the same term, as the code does when
  it accepts a request of a leader of its own term (rule \<open>forget\<close>). At most one winner per term is
  possible all the same: before a winner exists nobody forgets, and its voters never do.
\<close>

datatype phase = Idle | Running "string set"

record election =
  e_term :: "string \<Rightarrow> u64"
  e_vote :: "string \<Rightarrow> string"
  e_role :: "string \<Rightarrow> ServerState"
  e_phase :: "string \<Rightarrow> phase"
  ballots :: "(u64 \<times> string \<times> string) set"
  winners :: "(u64 \<times> string \<times> string set) set"

definition majority :: "string set \<Rightarrow> string set \<Rightarrow> bool" where
  "majority ids Q \<longleftrightarrow> Q \<subseteq> ids \<and> card ids < 2 * card Q"

lemma majorities_meet:
  assumes "finite ids" and "majority ids P" and "majority ids Q"
  shows "P \<inter> Q \<noteq> {}"
proof
  assume "P \<inter> Q = {}"
  then have "card P + card Q = card (P \<union> Q)"
    using assms by (auto simp: majority_def card_Un_disjoint finite_subset)
  also have "\<dots> \<le> card ids" using assms by (intro card_mono) (auto simp: majority_def)
  finally show False using assms by (simp add: majority_def)
qed

inductive estep :: "string set \<Rightarrow> election \<Rightarrow> election \<Rightarrow> bool" for ids where
  adopt: "e_term s i < t \<Longrightarrow>
    estep ids s (s\<lparr>e_term := (e_term s)(i := t), e_vote := (e_vote s)(i := []),
      e_role := (e_role s)(i := Follower), e_phase := (e_phase s)(i := Idle)\<rparr>)"
| forget: "(e_term s i, L, Q) \<in> winners s \<Longrightarrow> L \<noteq> i \<Longrightarrow> e_vote s i = i \<Longrightarrow>
    estep ids s (s\<lparr>e_vote := (e_vote s)(i := []), e_role := (e_role s)(i := Follower),
      e_phase := (e_phase s)(i := Idle)\<rparr>)"
| grant: "i \<in> ids \<Longrightarrow> i \<noteq> [] \<Longrightarrow> c \<noteq> [] \<Longrightarrow> c \<noteq> i \<Longrightarrow> e_vote s i = [] \<or> e_vote s i = c \<Longrightarrow>
    estep ids s (s\<lparr>e_vote := (e_vote s)(i := c), ballots := insert (e_term s i, i, c) (ballots s)\<rparr>)"
| stand: "i \<in> ids \<Longrightarrow> i \<noteq> [] \<Longrightarrow> e_role s i \<noteq> Leader \<Longrightarrow> e_term s i < t \<Longrightarrow>
    estep ids s (s\<lparr>e_term := (e_term s)(i := t), e_vote := (e_vote s)(i := i),
      e_phase := (e_phase s)(i := Running {}), ballots := insert (t, i, i) (ballots s)\<rparr>)"
| count: "e_phase s i = Running vs \<Longrightarrow> v \<in> ids \<Longrightarrow> v \<noteq> i \<Longrightarrow> (e_term s i, v, i) \<in> ballots s \<Longrightarrow>
    estep ids s (s\<lparr>e_phase := (e_phase s)(i := Running (insert v vs))\<rparr>)"
| win: "e_phase s i = Running vs \<Longrightarrow> majority ids (insert i vs) \<Longrightarrow>
    estep ids s (s\<lparr>e_role := (e_role s)(i := Leader), e_phase := (e_phase s)(i := Idle),
      winners := insert (e_term s i, i, insert i vs) (winners s)\<rparr>)"
| relax: "rl \<noteq> Leader \<Longrightarrow> estep ids s (s\<lparr>e_role := (e_role s)(i := rl)\<rparr>)"
| abandon: "estep ids s (s\<lparr>e_phase := (e_phase s)(i := Idle)\<rparr>)"

definition einit :: "election \<Rightarrow> bool" where
  "einit s \<longleftrightarrow> (\<forall>i. e_phase s i = Idle \<and> e_role s i \<noteq> Leader) \<and> ballots s = {} \<and> winners s = {}"

section \<open>The invariant\<close>

definition ballots_ok :: "string set \<Rightarrow> election \<Rightarrow> bool" where
  "ballots_ok ids s \<longleftrightarrow> (\<forall>t v c. (t, v, c) \<in> ballots s \<longrightarrow> t \<le> e_term s v \<and> c \<noteq> [] \<and> v \<in> ids)"

definition running_ok :: "string set \<Rightarrow> election \<Rightarrow> bool" where
  "running_ok ids s \<longleftrightarrow>
     (\<forall>i vs. e_phase s i = Running vs \<longrightarrow>
        e_vote s i = i \<and> e_role s i \<noteq> Leader \<and> (e_term s i, i, i) \<in> ballots s \<and>
        (\<forall>v \<in> vs. v \<noteq> i \<and> (e_term s i, v, i) \<in> ballots s) \<and> (\<forall>Q. (e_term s i, i, Q) \<notin> winners s))"

definition leader_ok :: "election \<Rightarrow> bool" where
  "leader_ok s \<longleftrightarrow>
     (\<forall>i. e_role s i = Leader \<longrightarrow> e_vote s i = i \<and> (\<exists>Q. (e_term s i, i, Q) \<in> winners s))"

definition winners_ok :: "string set \<Rightarrow> election \<Rightarrow> bool" where
  "winners_ok ids s \<longleftrightarrow>
     (\<forall>t L Q. (t, L, Q) \<in> winners s \<longrightarrow> majority ids Q \<and> L \<in> Q \<and>
        (\<forall>v \<in> Q. (t, v, L) \<in> ballots s \<and> (\<forall>c. (t, v, c) \<in> ballots s \<longrightarrow> c = L) \<and>
           (e_term s v = t \<longrightarrow> e_vote s v = L)))"

definition open_ok :: "election \<Rightarrow> bool" where
  "open_ok s \<longleftrightarrow>
     (\<forall>t v c. (\<forall>L Q. (t, L, Q) \<notin> winners s) \<longrightarrow> (t, v, c) \<in> ballots s \<longrightarrow>
        (\<forall>c'. (t, v, c') \<in> ballots s \<longrightarrow> c' = c) \<and> (e_term s v = t \<longrightarrow> e_vote s v = c))"

definition einv :: "string set \<Rightarrow> election \<Rightarrow> bool" where
  "einv ids s \<longleftrightarrow> ballots_ok ids s \<and> running_ok ids s \<and> leader_ok s \<and> winners_ok ids s \<and> open_ok s"

lemmas einv_defs = einv_def ballots_ok_def running_ok_def leader_ok_def winners_ok_def open_ok_def

lemma einv_init: "einit s \<Longrightarrow> einv ids s"
  by (simp add: einit_def einv_defs)

text \<open>Two winners of one term share a voter, whose only ballot of that term decides.\<close>

lemma winner_unique:
  assumes "finite ids" and "einv ids s" and "(t, L, Q) \<in> winners s" and "(t, L', Q') \<in> winners s"
  shows "L' = L"
proof -
  have "majority ids Q" "majority ids Q'" using assms(2-4) unfolding einv_def winners_ok_def by blast+
  then obtain v where "v \<in> Q" "v \<in> Q'" using majorities_meet [OF assms(1)] by blast
  then show ?thesis using assms(2-4) unfolding einv_def winners_ok_def by blast
qed

lemma ballots_ok_step: "estep ids s s' \<Longrightarrow> einv ids s \<Longrightarrow> ballots_ok ids s'"
  by (induction rule: estep.induct) (auto simp: einv_def ballots_ok_def dest: less_imp_le intro: order.trans)

lemma winner_term: "einv ids s \<Longrightarrow> (t, L, Q) \<in> winners s \<Longrightarrow> v \<in> Q \<Longrightarrow> t \<le> e_term s v"
  unfolding einv_def winners_ok_def ballots_ok_def by blast

lemma winner_term_self: "einv ids s \<Longrightarrow> (t, L, Q) \<in> winners s \<Longrightarrow> t \<le> e_term s L"
  by (rule winner_term) (auto simp: einv_def winners_ok_def)

lemma running_ok_step: "estep ids s s' \<Longrightarrow> einv ids s \<Longrightarrow> running_ok ids s'"
proof (induction rule: estep.induct)
  case (stand i s t)
  have "(t, i, Q) \<notin> winners s" for Q
    using winner_term_self [OF stand.prems, of t i Q] stand.hyps(4) by auto
  with stand show ?case by (auto simp: einv_def running_ok_def)
qed (auto simp: einv_def running_ok_def)

lemma leader_ok_step: "estep ids s s' \<Longrightarrow> einv ids s \<Longrightarrow> leader_ok s'"
proof (induction rule: estep.induct)
  case (grant i c s)
  then have "e_vote s i = i \<Longrightarrow> i = []" by auto
  with grant show ?case unfolding einv_def leader_ok_def by auto
next
  case (win s i vs)
  then show ?case by (auto simp: einv_def leader_ok_def running_ok_def)
qed (auto simp: einv_def leader_ok_def)

lemma winners_ok_step: "estep ids s s' \<Longrightarrow> finite ids \<Longrightarrow> einv ids s \<Longrightarrow> winners_ok ids s'"
proof (induction rule: estep.induct)
  case (adopt s i t)
  have "i \<notin> Q" if "(t, L, Q) \<in> winners s" for L Q
    using winner_term [OF adopt.prems(2) that, of i] adopt.hyps by auto
  with adopt.prems(2) show ?case by (auto simp: einv_def winners_ok_def)
next
  case (forget s i L Q)
  have "i \<notin> P" if "(e_term s i, M, P) \<in> winners s" for M P
  proof -
    have "M = L" using winner_unique [OF forget.prems(1,2) forget.hyps(1) that] by simp
    with that forget show ?thesis by (auto simp: einv_def winners_ok_def)
  qed
  with forget.prems(2) show ?case by (auto simp: einv_def winners_ok_def)
next
  case (grant i c s)
  have "c = L" if "(e_term s i, L, Q) \<in> winners s" "i \<in> Q" for L Q
  proof -
    have "e_vote s i = L" "L \<noteq> []"
      using that grant.prems(2) unfolding einv_def winners_ok_def ballots_ok_def by blast+
    with grant.hyps(5) show ?thesis by simp
  qed
  with grant.prems(2) show ?case by (auto simp: einv_def winners_ok_def)
next
  case (stand i s t)
  have "i \<notin> Q" if "(t, L, Q) \<in> winners s" for L Q
    using winner_term [OF stand.prems(2) that, of i] stand.hyps(4) by auto
  with stand.prems(2) show ?case by (auto simp: einv_def winners_ok_def)
next
  case (win s i vs)
  have run: "(e_term s i, i, i) \<in> ballots s" "\<forall>v \<in> vs. (e_term s i, v, i) \<in> ballots s"
    "\<forall>Q. (e_term s i, i, Q) \<notin> winners s"
    using win by (auto simp: einv_def running_ok_def)
  have no: "(e_term s i, L, Q) \<notin> winners s" for L Q
  proof
    assume w: "(e_term s i, L, Q) \<in> winners s"
    then have "majority ids Q" using win.prems(2) unfolding einv_def winners_ok_def by blast
    then obtain v where v: "v \<in> Q" "v \<in> insert i vs" using majorities_meet [OF win.prems(1) _ win.hyps(2)] by blast
    then have "(e_term s i, v, i) \<in> ballots s" using run(1,2) by auto
    then have "i = L" using v(1) w win.prems(2) unfolding einv_def winners_ok_def by blast
    with w run(3) show False by blast
  qed
  have "(e_term s i, v, i) \<in> ballots s \<and> (\<forall>c. (e_term s i, v, c) \<in> ballots s \<longrightarrow> c = i) \<and>
      (e_term s v = e_term s i \<longrightarrow> e_vote s v = i)" if "v \<in> insert i vs" for v
    using that run(1,2) no win.prems(2) unfolding einv_def open_ok_def by blast
  with win show ?case by (auto simp: einv_def winners_ok_def)
next
  case (count s i vs v)
  then show ?case by (simp add: einv_def winners_ok_def)
next
  case (relax rl s i)
  then show ?case by (simp add: einv_def winners_ok_def)
next
  case (abandon s i)
  then show ?case by (simp add: einv_def winners_ok_def)
qed

lemma open_ok_step: "estep ids s s' \<Longrightarrow> einv ids s \<Longrightarrow> open_ok s'"
proof (induction rule: estep.induct)
  case (adopt s i t)
  have "(t, i, c) \<notin> ballots s" for c
    using adopt unfolding einv_def ballots_ok_def by (meson not_le)
  with adopt.prems show ?case by (auto simp: einv_def open_ok_def)
next
  case (forget s i L Q)
  then show ?case by (auto simp: einv_def open_ok_def)
next
  case (grant i c s)
  have "c' = c" if "(e_term s i, i, c') \<in> ballots s" "\<forall>L Q. (e_term s i, L, Q) \<notin> winners s" for c'
  proof -
    have "e_vote s i = c'" "c' \<noteq> []"
      using that grant.prems unfolding einv_def open_ok_def ballots_ok_def by blast+
    with grant.hyps(5) show ?thesis by simp
  qed
  with grant.prems show ?case by (auto simp: einv_def open_ok_def)
next
  case (stand i s t)
  have "(t, i, c) \<notin> ballots s" for c
    using stand unfolding einv_def ballots_ok_def by (meson not_le)
  with stand.prems show ?case by (auto simp: einv_def open_ok_def)
qed (auto simp: einv_def open_ok_def)

lemma einv_step: "estep ids s s' \<Longrightarrow> finite ids \<Longrightarrow> einv ids s \<Longrightarrow> einv ids s'"
  using ballots_ok_step running_ok_step leader_ok_step winners_ok_step open_ok_step
  by (simp add: einv_def [of ids s'])

lemma einv_steps: "(estep ids)\<^sup>*\<^sup>* s s' \<Longrightarrow> finite ids \<Longrightarrow> einv ids s \<Longrightarrow> einv ids s'"
  by (induction rule: rtranclp_induct) (auto intro: einv_step)

text \<open>At most one leader per term.\<close>

lemma leader_unique:
  assumes "finite ids" and "einv ids s" and "e_role s i = Leader" and "e_role s j = Leader"
    and "e_term s i = e_term s j"
  shows "i = j"
  using assms winner_unique [OF assms(1,2)] unfolding einv_def leader_ok_def by metis

end
