(* ===== verification/Raft_Stores.thy ===== *)
theory Raft_Stores
  imports Raft_Types "HOL-Library.AList"
begin

text \<open>
  The storage of a Raft node: the big-endian integers of \<^verbatim>\<open>encoding/binary\<close>, the in-memory log and
  stable stores of \<^verbatim>\<open>src/internal/raft/inmem.go\<close>, and the contracts \<open>log_store\<close> and
  \<open>stable_store\<close> that the node relies on, interpreted on those stores.
\<close>

section \<open>Big-endian integers\<close>

fun be_encode :: "nat \<Rightarrow> nat \<Rightarrow> bytes" where
  "be_encode 0 n = []"
| "be_encode (Suc k) n = char_of (n div 256 ^ k) # be_encode k n"

definition be_decode :: "bytes \<Rightarrow> nat" where
  "be_decode b = foldl (\<lambda>a c. a * 256 + of_char c) 0 b"

text \<open>\<^verbatim>\<open>binary.BigEndian.PutUint64\<close> and \<^verbatim>\<open>Uint64\<close>, which panics on fewer than eight bytes.\<close>

definition PutUint64 :: "u64 \<Rightarrow> bytes" where
  "PutUint64 v = be_encode 8 (unat v)"

definition Uint64 :: "bytes \<Rightarrow> u64 outcome" where
  "Uint64 b = (if length b < 8 then Panic else Ret (of_nat (be_decode (take 8 b))))"

text \<open>For evaluation: the digits of an \<open>int\<close>, whose numerals are binary.\<close>

fun be_digits :: "nat \<Rightarrow> int \<Rightarrow> bytes" where
  "be_digits 0 n = []"
| "be_digits (Suc k) n = char_of (n div 256 ^ k) # be_digits k n"

lemma char_of_int: "char_of (int n) = (char_of n :: char)"
  by (simp add: char_of_def bit_of_nat_iff_bit)

lemma PutUint64_digits [code]: "PutUint64 v = be_digits 8 (uint v)"
proof -
  have "be_encode k (unat v) = be_digits k (uint v)" for k
  proof (induction k)
    case (Suc k)
    have "int (unat v div 256 ^ k) = uint v div 256 ^ k" by (simp add: of_nat_div)
    then show ?case using Suc char_of_int [of "unat v div 256 ^ k"] by simp
  qed simp
  then show ?thesis by (simp add: PutUint64_def)
qed

lemma length_be_encode [simp]: "length (be_encode k n) = k"
  by (induction k) auto

lemma foldl_be_decode:
  "foldl (\<lambda>a c. a * 256 + of_char c) a b = a * 256 ^ length b + be_decode b" for a :: nat
proof (induction b arbitrary: a)
  case (Cons c b)
  show ?case using Cons.IH [of "a * 256 + of_char c"] Cons.IH [of "of_char c"]
    by (simp add: be_decode_def algebra_simps)
qed (simp add: be_decode_def)

lemma be_decode_Cons: "be_decode (c # b) = of_char c * 256 ^ length b + be_decode b"
  using foldl_be_decode [of "of_char c" b] by (simp add: be_decode_def)

lemma be_decode_encode: "be_decode (be_encode k n) = n mod 256 ^ k"
proof (induction k)
  case (Suc k)
  have "n mod (256 ^ k * 256) = 256 ^ k * (n div 256 ^ k mod 256) + n mod 256 ^ k"
    by (rule mod_mult2_eq)
  then show ?case using Suc
    by (simp add: be_decode_Cons mult.commute)
qed (simp add: be_decode_def)

lemma length_PutUint64 [simp]: "length (PutUint64 v) = 8"
  by (simp add: PutUint64_def)

lemma PutUint64_nonempty [simp]: "PutUint64 v \<noteq> []"
  using length_PutUint64 [of v] by force

lemma Uint64_PutUint64: "Uint64 (PutUint64 v) = Ret v"
proof -
  have "unat v < 2 ^ 64" using unsigned_less [of v] by simp
  then show ?thesis by (simp add: Uint64_def PutUint64_def be_decode_encode)
qed

text \<open>The byte order is the numeric order: keys sorted as bytes are sorted as integers.\<close>

lemma be_decode_bound: "be_decode b < 256 ^ length b"
proof (induction b)
  case (Cons c b)
  have "of_char c < (256 :: nat)" by (rule nat_of_char_less_256)
  then have "Suc (of_char c) * 256 ^ length b \<le> (256 :: nat) * 256 ^ length b"
    by (intro mult_right_mono) (simp_all only: Suc_leI zero_le)
  moreover have "of_char c * 256 ^ length b + be_decode b < Suc (of_char c) * 256 ^ length b"
    using Cons by simp
  ultimately show ?case by (simp only: be_decode_Cons list.size power_Suc add_0_right add_Suc_right)
qed (simp add: be_decode_def)

lemma digit_less:
  fixes a b x y p :: nat
  assumes "x < p" and "y < p"
  shows "a * p + x < b * p + y \<longleftrightarrow> a < b \<or> a = b \<and> x < y"
proof -
  have "c * p + u < d * p + v" if "c < d" "u < p" for c d u v
  proof -
    have "Suc c * p \<le> d * p" using that(1) by (intro mult_right_mono) auto
    with that(2) show ?thesis by simp
  qed
  from this [of a b x y] this [of b a y x] assms show ?thesis
    by (cases a b rule: linorder_cases) auto
qed

lemma be_decode_less:
  "length b = length c \<Longrightarrow> be_decode b < be_decode c \<longleftrightarrow> b < c"
proof (induction b c rule: list_induct2)
  case (Cons x xs y ys)
  then show ?case
    using be_decode_bound [of xs] be_decode_bound [of ys]
    by (auto simp: be_decode_Cons digit_less less_char_def)
qed simp

lemma PutUint64_less: "PutUint64 v < PutUint64 w \<longleftrightarrow> v < w"
proof -
  have "unat v < 2 ^ 64" "unat w < 2 ^ 64" using unsigned_less [of v] unsigned_less [of w] by simp_all
  then show ?thesis
    using be_decode_less [of "PutUint64 v" "PutUint64 w"]
    by (simp add: PutUint64_def be_decode_encode word_less_nat_alt)
qed

section \<open>The in-memory log store\<close>

text \<open>The Go map is an association list with one entry per key.\<close>

record InmemLogStore =
  log_entries :: "(u64 \<times> LogEntry) list"
  lowIdx :: u64
  highIdx :: u64

definition NewInmemLogStore :: InmemLogStore where
  "NewInmemLogStore = \<lparr>log_entries = [], lowIdx = 0, highIdx = 0\<rparr>"

definition inmem_FirstIndex :: "InmemLogStore \<Rightarrow> u64 \<times> err" where
  "inmem_FirstIndex s = (lowIdx s, None)"

definition inmem_LastIndex :: "InmemLogStore \<Rightarrow> u64 \<times> err" where
  "inmem_LastIndex s = (highIdx s, None)"

definition inmem_GetLog :: "InmemLogStore \<Rightarrow> u64 \<Rightarrow> store_error \<times> LogEntry option + LogEntry" where
  "inmem_GetLog s i =
     (case map_of (log_entries s) i of
        None \<Rightarrow> Inl (ErrEntryNotFound i, None)
      | Some e \<Rightarrow> Inr e)"

definition inmem_store_one :: "InmemLogStore \<Rightarrow> LogEntry \<Rightarrow> InmemLogStore" where
  "inmem_store_one s e =
     s\<lparr>log_entries := AList.update (Index e) e (log_entries s),
       lowIdx := (if lowIdx s = 0 \<or> Index e < lowIdx s then Index e else lowIdx s),
       highIdx := (if Index e > highIdx s then Index e else highIdx s)\<rparr>"

definition inmem_StoreLogs :: "InmemLogStore \<Rightarrow> LogEntry list \<Rightarrow> InmemLogStore \<times> err" where
  "inmem_StoreLogs s es = (foldl inmem_store_one s es, None)"

text \<open>\<^verbatim>\<open>for i := min; i <= max; i++ { delete(s.entries, i) }\<close>: for the largest \<open>max\<close> the loop does not end.\<close>

definition delete_round :: "u64 \<Rightarrow> u64 \<times> (u64 \<times> LogEntry) list \<Rightarrow>
    (u64 \<times> (u64 \<times> LogEntry) list, (u64 \<times> LogEntry) list) round outcome" where
  "delete_round hi = (\<lambda>(i, es).
     if i \<le> hi then Ret (Continue (i + 1, AList.delete i es)) else Ret (Break es))"

definition low_high :: "u64 list \<Rightarrow> u64 \<times> u64" where
  "low_high = foldl (\<lambda>(lo, hi) i. (if lo = 0 \<or> i < lo then i else lo, if i > hi then i else hi)) (0, 0)"

definition inmem_DeleteRange :: "InmemLogStore \<Rightarrow> u64 \<Rightarrow> u64 \<Rightarrow> (InmemLogStore \<times> err) option" where
  "inmem_DeleteRange s lo hi =
     (case go_loop (delete_round hi) (lo, log_entries s) of
        Some (Ret es) \<Rightarrow>
          let (l, h) = low_high (map fst es)
          in Some (\<lparr>log_entries = es, lowIdx = l, highIdx = h\<rparr>, None)
      | Some Panic \<Rightarrow> None
      | None \<Rightarrow> None)"

definition InmemLog :: "InmemLogStore LogStore" where
  "InmemLog = \<lparr>FirstIndex = inmem_FirstIndex, LastIndex = inmem_LastIndex, GetLog = inmem_GetLog,
     StoreLogs = inmem_StoreLogs, DeleteRange = inmem_DeleteRange\<rparr>"

section \<open>The in-memory stable store\<close>

record InmemStableStore =
  stable_data :: "(bytes \<times> bytes) list"

definition NewInmemStableStore :: InmemStableStore where
  "NewInmemStableStore = \<lparr>stable_data = []\<rparr>"

definition inmem_Set :: "InmemStableStore \<Rightarrow> bytes \<Rightarrow> bytes \<Rightarrow> InmemStableStore \<times> err" where
  "inmem_Set s k v = (s\<lparr>stable_data := AList.update k v (stable_data s)\<rparr>, None)"

definition inmem_Get :: "InmemStableStore \<Rightarrow> bytes \<Rightarrow> bytes \<times> err" where
  "inmem_Get s k = (case map_of (stable_data s) k of None \<Rightarrow> ([], None) | Some v \<Rightarrow> (v, None))"

definition inmem_SetUint64 :: "InmemStableStore \<Rightarrow> bytes \<Rightarrow> u64 \<Rightarrow> InmemStableStore \<times> err" where
  "inmem_SetUint64 s k v = inmem_Set s k (PutUint64 v)"

definition inmem_GetUint64 :: "InmemStableStore \<Rightarrow> bytes \<Rightarrow> (u64 \<times> err) outcome" where
  "inmem_GetUint64 s k =
     (case inmem_Get s k of
        (v, Some e) \<Rightarrow> Ret (0, Some e)
      | (v, None) \<Rightarrow>
          if length v = 0 then Ret (0, None)
          else bind_outcome (Uint64 v) (\<lambda>x. Ret (x, None)))"

definition InmemStable :: "InmemStableStore StableStore" where
  "InmemStable = \<lparr>Set = inmem_Set, Get = inmem_Get, SetUint64 = inmem_SetUint64,
     GetUint64 = inmem_GetUint64\<rparr>"

section \<open>The contracts\<close>

text \<open>
  What a log store promises: it is a finite map from indices to entries, \<open>GetLog\<close> reads it,
  \<open>StoreLogs\<close> and \<open>DeleteRange\<close> update it, and \<open>LastIndex\<close> is its largest index, zero when it is
  empty. Indices start at one, and a range to delete ends below the largest \<^verbatim>\<open>uint64\<close>.
\<close>

definition store_all :: "(u64 \<rightharpoonup> LogEntry) \<Rightarrow> LogEntry list \<Rightarrow> (u64 \<rightharpoonup> LogEntry)" where
  "store_all = foldl (\<lambda>m e. m(Index e \<mapsto> e))"

definition max_key :: "(u64 \<rightharpoonup> LogEntry) \<Rightarrow> u64" where
  "max_key m = (if dom m = {} then 0 else Max (dom m))"

locale log_store =
  fixes LS :: "'l LogStore"
    and linv :: "'l \<Rightarrow> bool"
    and lmap :: "'l \<Rightarrow> u64 \<rightharpoonup> LogEntry"
  assumes get_Some: "linv l \<Longrightarrow> lmap l i = Some e \<Longrightarrow> GetLog LS l i = Inr e"
    and get_None: "linv l \<Longrightarrow> lmap l i = None \<Longrightarrow> \<exists>err. GetLog LS l i = Inl err"
    and last_index: "linv l \<Longrightarrow> LastIndex LS l = (max_key (lmap l), None)"
    and store: "linv l \<Longrightarrow> \<forall>e \<in> set es. Index e \<noteq> 0 \<Longrightarrow>
      \<exists>l'. StoreLogs LS l es = (l', None) \<and> linv l' \<and> lmap l' = store_all (lmap l) es"
    and delete: "linv l \<Longrightarrow> hi < - 1 \<Longrightarrow>
      \<exists>l'. DeleteRange LS l lo hi = Some (l', None) \<and> linv l' \<and> lmap l' = lmap l |` (- {lo..hi})"

text \<open>
  What a stable store promises, for keys that are not empty: reading a key gives what was written to it last, other keys are
  not touched, and integers come back as they were written.
\<close>

locale stable_store =
  fixes SS :: "'s StableStore"
    and sinv :: "'s \<Rightarrow> bool"
  assumes set_ok: "sinv s \<Longrightarrow> k \<noteq> [] \<Longrightarrow> \<exists>s'. Set SS s k v = (s', None) \<and> sinv s' \<and> Get SS s' k = (v, None) \<and>
      (\<forall>k'. k' \<noteq> k \<longrightarrow> Get SS s' k' = Get SS s k' \<and> GetUint64 SS s' k' = GetUint64 SS s k')"
    and set_uint64_ok: "sinv s \<Longrightarrow> k \<noteq> [] \<Longrightarrow> \<exists>s'. SetUint64 SS s k n = (s', None) \<and> sinv s' \<and>
      GetUint64 SS s' k = Ret (n, None) \<and>
      (\<forall>k'. k' \<noteq> k \<longrightarrow> Get SS s' k' = Get SS s k' \<and> GetUint64 SS s' k' = GetUint64 SS s k')"

section \<open>The in-memory stores keep the contracts\<close>

text \<open>The range of indices the store has cached.\<close>

definition low_high_ok :: "u64 set \<Rightarrow> u64 \<Rightarrow> u64 \<Rightarrow> bool" where
  "low_high_ok ks l h \<longleftrightarrow> (if ks = {} then l = 0 \<and> h = 0 else l = Min ks \<and> h = Max ks)"

definition inmem_linv :: "InmemLogStore \<Rightarrow> bool" where
  "inmem_linv s \<longleftrightarrow>
     distinct (map fst (log_entries s)) \<and> 0 \<notin> fst ` set (log_entries s) \<and>
     low_high_ok (fst ` set (log_entries s)) (lowIdx s) (highIdx s)"

definition inmem_lmap :: "InmemLogStore \<Rightarrow> u64 \<rightharpoonup> LogEntry" where
  "inmem_lmap s = map_of (log_entries s)"

lemma low_high_ok_insert:
  assumes "finite ks" and "0 \<notin> ks" and "k \<noteq> 0" and "low_high_ok ks l h"
  shows "low_high_ok (insert k ks) (if l = 0 \<or> k < l then k else l) (if k > h then k else h)"
proof (cases "ks = {}")
  case True
  with assms show ?thesis by (auto simp: low_high_ok_def word_neq_0_conv)
next
  case False
  then have "l \<in> ks" using assms Min_in [of ks] by (simp add: low_high_ok_def)
  then have "l \<noteq> 0" using assms(2) by auto
  moreover have "Min (insert k ks) = min k l" "Max (insert k ks) = max k h"
    using False assms by (simp_all add: low_high_ok_def)
  moreover have "l = Min ks" "h = Max ks" using False assms(4) by (simp_all add: low_high_ok_def)
  ultimately show ?thesis by (auto simp: low_high_ok_def min_def max_def)
qed

lemma low_high_snoc:
  "low_high (ks @ [k]) =
     (let (l, h) = low_high ks in (if l = 0 \<or> k < l then k else l, if k > h then k else h))"
  by (simp add: low_high_def Let_def split: prod.splits)

lemma low_high_correct:
  "0 \<notin> set ks \<Longrightarrow> low_high_ok (set ks) (fst (low_high ks)) (snd (low_high ks))"
proof (induction ks rule: rev_induct)
  case Nil
  then show ?case by (simp add: low_high_def low_high_ok_def)
next
  case (snoc k ks)
  then show ?case
    using low_high_ok_insert [of "set ks" k "fst (low_high ks)" "snd (low_high ks)"]
    by (simp add: low_high_snoc split_beta Let_def)
qed

lemma inmem_store_one_ok:
  assumes "inmem_linv s" and "Index e \<noteq> 0"
  shows "inmem_linv (inmem_store_one s e)"
    and "inmem_lmap (inmem_store_one s e) = (inmem_lmap s)(Index e \<mapsto> e)"
proof -
  have keys: "fst ` set (AList.update (Index e) e (log_entries s)) = insert (Index e) (fst ` set (log_entries s))"
    by (simp add: dom_map_of_conv_image_fst [symmetric] AList.update_conv')
  show "inmem_linv (inmem_store_one s e)"
    using assms low_high_ok_insert [of "fst ` set (log_entries s)" "Index e" "lowIdx s" "highIdx s"]
    by (auto simp: inmem_linv_def inmem_store_one_def keys distinct_update)
  show "inmem_lmap (inmem_store_one s e) = (inmem_lmap s)(Index e \<mapsto> e)"
    by (simp add: inmem_lmap_def inmem_store_one_def AList.update_conv')
qed

lemma inmem_store_all_ok:
  "inmem_linv s \<Longrightarrow> \<forall>e \<in> set es. Index e \<noteq> 0 \<Longrightarrow>
     inmem_linv (foldl inmem_store_one s es) \<and>
     inmem_lmap (foldl inmem_store_one s es) = store_all (inmem_lmap s) es"
  by (induction es arbitrary: s) (simp_all add: store_all_def inmem_store_one_ok)

text \<open>The deletion loop ends and removes exactly the range.\<close>

lemma delete_loop:
  assumes "hi < - 1"
  shows "\<exists>es'. go_loop (delete_round hi) (lo, es) = Some (Ret es') \<and>
    map_of es' = map_of es |` (- {lo..hi}) \<and> (distinct (map fst es) \<longrightarrow> distinct (map fst es')) \<and>
    fst ` set es' \<subseteq> fst ` set es"
proof (induction "Suc (unat hi) - unat lo" arbitrary: lo es)
  case 0
  then have lt: "\<not> lo \<le> hi" by (simp add: word_le_nat_alt)
  then have "go_loop (delete_round hi) (lo, es) = Some (Ret es)"
    by (subst go_loop.simps) (simp add: delete_round_def)
  with lt show ?case by (auto simp: Compl_eq)
next
  case (Suc k)
  then have le: "lo \<le> hi" by (simp add: word_le_nat_alt)
  then have "unat (lo + 1) = Suc (unat lo)" using assms by (intro unat_add1 [of lo "- 1"]) simp
  with Suc.hyps(2) have "k = Suc (unat hi) - unat (lo + 1)" by simp
  from Suc.hyps(1) [OF this, of "AList.delete lo es"] obtain es' where es':
    "go_loop (delete_round hi) (lo + 1, AList.delete lo es) = Some (Ret es')"
    "map_of es' = map_of (AList.delete lo es) |` (- {lo + 1..hi})"
    "distinct (map fst (AList.delete lo es)) \<longrightarrow> distinct (map fst es')"
    "fst ` set es' \<subseteq> fst ` set (AList.delete lo es)" by blast
  have "map_of es' = map_of es |` (- {lo..hi})"
  proof
    fix x
    have "x \<in> {lo..hi} \<longleftrightarrow> x = lo \<or> x \<in> {lo + 1..hi}"
      using atLeastAtMost_add1 [OF le assms] by blast
    then show "map_of es' x = (map_of es |` (- {lo..hi})) x"
      unfolding es'(2) restrict_map_def AList.delete_conv' by (cases "x = lo") simp_all
  qed
  moreover have "go_loop (delete_round hi) (lo, es) = Some (Ret es')"
    using le es'(1) by (subst go_loop.simps) (simp add: delete_round_def)
  moreover have "fst ` set (AList.delete lo es) \<subseteq> fst ` set es"
    by (auto simp: AList.delete_eq)
  ultimately show ?case using es'(3,4) distinct_delete [of es lo] order.trans [OF es'(4)]
    by (intro exI [of _ es'] conjI impI) simp_all
qed

interpretation inmem_log: log_store InmemLog inmem_linv inmem_lmap
proof
  fix l i e assume "inmem_linv l" "inmem_lmap l i = Some e"
  then show "GetLog InmemLog l i = Inr e"
    by (simp add: InmemLog_def inmem_GetLog_def inmem_lmap_def)
next
  fix l i assume "inmem_linv l" "inmem_lmap l i = None"
  then show "\<exists>err. GetLog InmemLog l i = Inl err"
    by (simp add: InmemLog_def inmem_GetLog_def inmem_lmap_def)
next
  fix l assume "inmem_linv l"
  then show "LastIndex InmemLog l = (max_key (inmem_lmap l), None)"
    by (simp add: InmemLog_def inmem_LastIndex_def inmem_lmap_def max_key_def inmem_linv_def
        low_high_ok_def dom_map_of_conv_image_fst)
next
  fix l and es :: "LogEntry list" assume "inmem_linv l" "\<forall>e \<in> set es. Index e \<noteq> 0"
  then show "\<exists>l'. StoreLogs InmemLog l es = (l', None) \<and> inmem_linv l' \<and>
      inmem_lmap l' = store_all (inmem_lmap l) es"
    using inmem_store_all_ok by (simp add: InmemLog_def inmem_StoreLogs_def)
next
  fix l and lo hi :: u64 assume inv: "inmem_linv l" and "hi < - 1"
  then obtain es where es: "go_loop (delete_round hi) (lo, log_entries l) = Some (Ret es)"
    "map_of es = map_of (log_entries l) |` (- {lo..hi})" "distinct (map fst es)"
    "fst ` set es \<subseteq> fst ` set (log_entries l)"
    using delete_loop [of hi lo "log_entries l"] by (auto simp: inmem_linv_def)
  then have "0 \<notin> set (map fst es)" using inv by (auto simp: inmem_linv_def)
  then show "\<exists>l'. DeleteRange InmemLog l lo hi = Some (l', None) \<and> inmem_linv l' \<and>
      inmem_lmap l' = inmem_lmap l |` (- {lo..hi})"
    using es low_high_correct [of "map fst es"]
    by (simp add: InmemLog_def inmem_DeleteRange_def inmem_linv_def inmem_lmap_def split_beta)
qed

interpretation inmem_stable: stable_store InmemStable "\<lambda>s. True"
  by unfold_locales
    (auto simp: InmemStable_def inmem_Set_def inmem_Get_def inmem_SetUint64_def inmem_GetUint64_def
      AList.update_conv' Uint64_PutUint64)

section \<open>Properties of the in-memory stores\<close>

text \<open>
  \<open>DeleteRange\<close> of the in-memory store returns exactly when its upper bound is below the
  largest \<^verbatim>\<open>uint64\<close>: its loop counts up to the bound and can never exceed the largest one.
\<close>

lemma inmem_DeleteRange_returns: "inmem_DeleteRange s lo hi = None \<longleftrightarrow> hi = - 1"
proof (cases "hi = - 1")
  case True
  have "go_loop (delete_round hi) (lo, log_entries s) = None"
    by (rule go_loop_diverges [where I = "\<lambda>_. True"]) (auto simp: True delete_round_def)
  with True show ?thesis by (simp add: inmem_DeleteRange_def)
next
  case False
  then have "hi < - 1" by (simp add: word_order.not_eq_extremum)
  from delete_loop [OF this, of lo "log_entries s"] False show ?thesis
    by (auto simp: inmem_DeleteRange_def split: prod.split)
qed

end
