(* ===== verification/Raft_Node.thy ===== *)
theory Raft_Node
  imports Raft_Stores
begin

text \<open>
  \<^verbatim>\<open>src/internal/raft/raft.go\<close> and \<^verbatim>\<open>src/internal/raft/election.go\<close>: the state of a Raft node and the
  operations on it, except replication (theory \<open>Raft_Replication\<close>) and the application of committed
  entries (theory \<open>Raft_Apply\<close>). Every definition is one critical section under the node's
  mutex, so that interleavings of the goroutines are sequences of these definitions. The stores are
  interface records, \<open>LS\<close> and \<open>SS\<close>. Peer states and futures are shared by pointers: they live in the
  heaps \<open>peer_heap\<close> and \<open>futures\<close> of the node and pointers are positions there.
\<close>

section \<open>State\<close>

text \<open>\<open>triggerCh\<close> is a channel of capacity one: whether it holds a token.\<close>

record peerState =
  ps_id :: string
  ps_addr :: string
  nextIndex :: u64
  matchIndex :: u64
  triggerCh :: bool

record applyRequest =
  req_data :: bytes
  req_future :: nat

record ('l, 's, 'f, 'r) RaftNode =
  config :: Config
  currentTerm :: u64
  votedFor :: string
  logStore :: 'l
  stableStore :: 's
  state :: ServerState
  commitIndex :: u64
  lastApplied :: u64
  peers :: "(string \<times> nat) list"
  peer_heap :: "peerState list"
  leaderID :: string
  leaderAddr :: string
  node_fsm :: 'f
  pendingFutures :: "(u64 \<times> nat) list"
  futures :: "'r ApplyFuture list"
  applyCh :: "applyRequest list"
  commitNotifyCh :: bool
  shutdownCh :: bool

section \<open>Persistent state\<close>

text \<open>Errors of the stable store are logged and otherwise ignored.\<close>

definition persistState ::
    "'s StableStore \<Rightarrow> ('l, 's, 'f, 'r) RaftNode \<Rightarrow> ('l, 's, 'f, 'r) RaftNode" where
  "persistState SS r =
     (let (s1, e1) = SetUint64 SS (stableStore r) KeyCurrentTerm (currentTerm r);
          (s2, e2) = Set SS s1 KeyVotedFor (votedFor r)
      in r\<lparr>stableStore := s2\<rparr>)"

definition restoreState :: "'s StableStore \<Rightarrow> ('l, 's, 'f, 'r) RaftNode \<Rightarrow>
    (store_error + ('l, 's, 'f, 'r) RaftNode) outcome" where
  "restoreState SS r =
     bind_outcome (GetUint64 SS (stableStore r) KeyCurrentTerm) (\<lambda>(t, e).
       case e of
         Some err \<Rightarrow> Ret (Inl err)
       | None \<Rightarrow>
           (case Get SS (stableStore r) KeyVotedFor of
              (v, Some err) \<Rightarrow> Ret (Inl err)
            | (v, None) \<Rightarrow> Ret (Inr (r\<lparr>currentTerm := t, votedFor := v\<rparr>))))"

datatype new_error = ErrConfigMissingField string | ErrRestore store_error

definition NewRaftNode :: "'s StableStore \<Rightarrow> Config \<Rightarrow> 'l \<Rightarrow> 's \<Rightarrow> 'f \<Rightarrow>
    (new_error + ('l, 's, 'f, 'r) RaftNode) outcome" where
  "NewRaftNode SS c l s f =
     (case validate c of
        Some field \<Rightarrow> Ret (Inl (ErrConfigMissingField field))
      | None \<Rightarrow>
          bind_outcome
            (restoreState SS
              \<lparr>config = c, currentTerm = 0, votedFor = [], logStore = l, stableStore = s,
               state = Follower, commitIndex = 0, lastApplied = 0, peers = [], peer_heap = [],
               leaderID = [], leaderAddr = [], node_fsm = f, pendingFutures = [], futures = [],
               applyCh = [], commitNotifyCh = False, shutdownCh = False\<rparr>)
            (\<lambda>x. case x of Inl err \<Rightarrow> Ret (Inl (ErrRestore err)) | Inr r \<Rightarrow> Ret (Inr r)))"

section \<open>State transitions\<close>

definition stepDown :: "'s StableStore \<Rightarrow> u64 \<Rightarrow> ('l, 's, 'f, 'r) RaftNode \<Rightarrow>
    ('l, 's, 'f, 'r) RaftNode" where
  "stepDown SS newTerm r =
     persistState SS
       (r\<lparr>currentTerm := newTerm, state := Follower, votedFor := [], leaderID := [], leaderAddr := []\<rparr>)"

definition lastLogInfo :: "'l LogStore \<Rightarrow> 'l \<Rightarrow> u64 \<times> u64" where
  "lastLogInfo LS l =
     (let (lastIdx, err) = LastIndex LS l in
      if err \<noteq> None \<or> lastIdx = 0 then (0, 0)
      else case GetLog LS l lastIdx of
          Inl _ \<Rightarrow> (0, 0)
        | Inr entry \<Rightarrow> (Index entry, Term entry))"

text \<open>\<open>rand.Int63n(n)\<close> panics unless \<open>n\<close> is positive; \<open>rnd n\<close> is the number it draws.\<close>

definition randomElectionTimeout :: "(int \<Rightarrow> int) \<Rightarrow> Config \<Rightarrow> int outcome" where
  "randomElectionTimeout rnd c =
     (let delta = int64 (ElectionTimeoutMax c - ElectionTimeoutMin c) in
      if delta \<le> 0 then Panic else Ret (int64 (ElectionTimeoutMin c + rnd delta)))"

text \<open>The loops that look up an address in the peer list and leave \<open>leaderAddr\<close> alone when there is none.\<close>

definition set_leaderAddr ::
    "string \<Rightarrow> ('l, 's, 'f, 'r) RaftNode \<Rightarrow> ('l, 's, 'f, 'r) RaftNode" where
  "set_leaderAddr i r =
     (case find (\<lambda>p. ID p = i) (Peers (config r)) of
        None \<Rightarrow> r
      | Some p \<Rightarrow> r\<lparr>leaderAddr := Address p\<rparr>)"

text \<open>What other components ask a node.\<close>

definition node_State :: "('l, 's, 'f, 'r) RaftNode \<Rightarrow> ServerState" where
  "node_State r = state r"

definition node_IsLeader :: "('l, 's, 'f, 'r) RaftNode \<Rightarrow> bool" where
  "node_IsLeader r \<longleftrightarrow> node_State r = Leader"

definition node_LeaderAddr :: "('l, 's, 'f, 'r) RaftNode \<Rightarrow> string" where
  "node_LeaderAddr r = leaderAddr r"

definition node_LeaderID :: "('l, 's, 'f, 'r) RaftNode \<Rightarrow> string" where
  "node_LeaderID r = leaderID r"

definition node_CurrentTerm :: "('l, 's, 'f, 'r) RaftNode \<Rightarrow> u64" where
  "node_CurrentTerm r = currentTerm r"

text \<open>\<open>runFollower\<close>: the election timer fires.\<close>

definition electionTimeout :: "('l, 's, 'f, 'r) RaftNode \<Rightarrow> ('l, 's, 'f, 'r) RaftNode" where
  "electionTimeout r = r\<lparr>state := Candidate\<rparr>"

section \<open>Elections\<close>

text \<open>The request goes to the addresses of all peers but the node itself.\<close>

definition startElection :: "'l LogStore \<Rightarrow> 's StableStore \<Rightarrow> ('l, 's, 'f, 'r) RaftNode \<Rightarrow>
    ('l, 's, 'f, 'r) RaftNode \<times> RequestVoteRequest \<times> string list" where
  "startElection LS SS r =
     (let r1 = persistState SS
                 (r\<lparr>currentTerm := currentTerm r + 1, votedFor := ServerID (config r)\<rparr>);
          (lastLogIndex, lastLogTerm) = lastLogInfo LS (logStore r1)
      in (r1,
          \<lparr>rv_Term = currentTerm r1, CandidateID = ServerID (config r1),
           LastLogIndex = lastLogIndex, LastLogTerm = lastLogTerm\<rparr>,
          map Address (filter (\<lambda>p. ID p \<noteq> ServerID (config r1)) (Peers (config r1)))))"

definition isLogUpToDate :: "u64 \<Rightarrow> u64 \<Rightarrow> u64 \<Rightarrow> u64 \<Rightarrow> bool" where
  "isLogUpToDate candidateLastTerm candidateLastIndex voterLastTerm voterLastIndex =
     (if candidateLastTerm > voterLastTerm then True
      else if candidateLastTerm = voterLastTerm \<and> candidateLastIndex \<ge> voterLastIndex then True
      else False)"

text \<open>The last component says whether to reset the election timer.\<close>

definition handleRequestVote :: "'l LogStore \<Rightarrow> 's StableStore \<Rightarrow> ('l, 's, 'f, 'r) RaftNode \<Rightarrow>
    RequestVoteRequest \<Rightarrow> ('l, 's, 'f, 'r) RaftNode \<times> RequestVoteResponse \<times> bool" where
  "handleRequestVote LS SS r req =
     (if rv_Term req < currentTerm r
      then (r, \<lparr>rvr_Term = currentTerm r, VoteGranted = False\<rparr>, False)
      else
        let r1 = (if rv_Term req > currentTerm r then stepDown SS (rv_Term req) r else r) in
        if votedFor r1 \<noteq> [] \<and> votedFor r1 \<noteq> CandidateID req
        then (r1, \<lparr>rvr_Term = currentTerm r1, VoteGranted = False\<rparr>, False)
        else
          let (myLastIndex, myLastTerm) = lastLogInfo LS (logStore r1) in
          if \<not> isLogUpToDate (LastLogTerm req) (LastLogIndex req) myLastTerm myLastIndex
          then (r1, \<lparr>rvr_Term = currentTerm r1, VoteGranted = False\<rparr>, False)
          else (persistState SS (r1\<lparr>votedFor := CandidateID req\<rparr>),
                \<lparr>rvr_Term = currentTerm r1, VoteGranted = True\<rparr>, True))"

text \<open>\<open>runCandidate\<close>: the quorum, the transition to leader, and what it does with a vote.\<close>

definition quorum :: "('l, 's, 'f, 'r) RaftNode \<Rightarrow> nat" where
  "quorum r = length (Peers (config r)) div 2 + 1"

definition becomeLeader :: "('l, 's, 'f, 'r) RaftNode \<Rightarrow> ('l, 's, 'f, 'r) RaftNode" where
  "becomeLeader r =
     set_leaderAddr (ServerID (config r)) (r\<lparr>state := Leader, leaderID := ServerID (config r)\<rparr>)"

text \<open>
  The value is the node, the count of votes and whether the candidate loop is left. The vote's
  term is checked in a critical section of its own; the count is a local variable.
\<close>

definition checkVoteTerm :: "'s StableStore \<Rightarrow> ('l, 's, 'f, 'r) RaftNode \<Rightarrow> RequestVoteResponse \<Rightarrow>
    ('l, 's, 'f, 'r) RaftNode \<times> bool" where
  "checkVoteTerm SS r vote =
     (if rvr_Term vote > currentTerm r then (stepDown SS (rvr_Term vote) r, True) else (r, False))"

definition countVote :: "('l, 's, 'f, 'r) RaftNode \<Rightarrow> nat \<Rightarrow> RequestVoteResponse \<Rightarrow>
    ('l, 's, 'f, 'r) RaftNode \<times> nat \<times> bool" where
  "countVote r votes vote =
     (if VoteGranted vote
      then if votes + 1 \<ge> quorum r then (becomeLeader r, votes + 1, True) else (r, votes + 1, False)
      else (r, votes, False))"

definition receiveVote :: "'s StableStore \<Rightarrow> ('l, 's, 'f, 'r) RaftNode \<Rightarrow> nat \<Rightarrow> RequestVoteResponse \<Rightarrow>
    ('l, 's, 'f, 'r) RaftNode \<times> nat \<times> bool" where
  "receiveVote SS r votes vote =
     (case checkVoteTerm SS r vote of
        (r1, True) \<Rightarrow> (r1, votes, True)
      | (r1, False) \<Rightarrow> countVote r1 votes vote)"

text \<open>The check before the candidate waits for any vote.\<close>

definition immediateMajority :: "('l, 's, 'f, 'r) RaftNode \<Rightarrow> ('l, 's, 'f, 'r) RaftNode \<times> bool" where
  "immediateMajority r = (if 1 \<ge> quorum r then (becomeLeader r, True) else (r, False))"

section \<open>Leadership\<close>

text \<open>\<open>triggerReplication\<close> of \<^verbatim>\<open>replication.go\<close>: a token for every peer that has none.\<close>

definition triggerReplication :: "('l, 's, 'f, 'r) RaftNode \<Rightarrow> ('l, 's, 'f, 'r) RaftNode" where
  "triggerReplication r =
     r\<lparr>peer_heap := foldl (\<lambda>h p. h[p := (h ! p)\<lparr>triggerCh := True\<rparr>]) (peer_heap r) (map snd (peers r))\<rparr>"

text \<open>\<open>runLeader\<close>: fresh peer states replace the old map; the old objects stay reachable from the replicators.\<close>

definition newPeerState :: "u64 \<Rightarrow> PeerConfig \<Rightarrow> peerState" where
  "newPeerState lastIdx p =
     \<lparr>ps_id = ID p, ps_addr = Address p, nextIndex = lastIdx + 1, matchIndex = 0, triggerCh = False\<rparr>"

definition addPeer :: "u64 \<Rightarrow> ('l, 's, 'f, 'r) RaftNode \<Rightarrow> PeerConfig \<Rightarrow> ('l, 's, 'f, 'r) RaftNode" where
  "addPeer lastIdx r p =
     (if ID p = ServerID (config r) then r
      else r\<lparr>peers := AList.update (ID p) (length (peer_heap r)) (peers r),
             peer_heap := peer_heap r @ [newPeerState lastIdx p]\<rparr>)"

definition initLeader :: "'l LogStore \<Rightarrow> ('l, 's, 'f, 'r) RaftNode \<Rightarrow> ('l, 's, 'f, 'r) RaftNode" where
  "initLeader LS r = foldl (addPeer (fst (LastIndex LS (logStore r)))) (r\<lparr>peers := []\<rparr>) (Peers (config r))"

definition appendNoOp :: "'l LogStore \<Rightarrow> ('l, 's, 'f, 'r) RaftNode \<Rightarrow> ('l, 's, 'f, 'r) RaftNode" where
  "appendNoOp LS r =
     (let lastIdx = fst (LastIndex LS (logStore r));
          entry = \<lparr>Index = lastIdx + 1, Term = currentTerm r, Data = []\<rparr>
      in case StoreLog LS (logStore r) entry of
          (l, Some err) \<Rightarrow> r\<lparr>logStore := l\<rparr>
        | (l, None) \<Rightarrow> triggerReplication (r\<lparr>logStore := l\<rparr>))"

section \<open>The persistent state is what the node believes\<close>

text \<open>The stable store holds the node's term and vote.\<close>

definition persisted :: "'s StableStore \<Rightarrow> ('l, 's, 'f, 'r) RaftNode \<Rightarrow> bool" where
  "persisted SS r \<longleftrightarrow>
     GetUint64 SS (stableStore r) KeyCurrentTerm = Ret (currentTerm r, None) \<and>
     Get SS (stableStore r) KeyVotedFor = (votedFor r, None)"

lemma keys_nonempty [simp]: "KeyCurrentTerm \<noteq> []" "KeyVotedFor \<noteq> []"
  by (simp_all add: KeyCurrentTerm_def KeyVotedFor_def)

lemma keys_distinct [simp]: "KeyCurrentTerm \<noteq> KeyVotedFor" "KeyVotedFor \<noteq> KeyCurrentTerm"
  by (simp_all add: KeyCurrentTerm_def KeyVotedFor_def)

lemma persistState_fields [simp]:
  "config (persistState SS r) = config r" "currentTerm (persistState SS r) = currentTerm r"
  "votedFor (persistState SS r) = votedFor r" "logStore (persistState SS r) = logStore r"
  "state (persistState SS r) = state r" "commitIndex (persistState SS r) = commitIndex r"
  "lastApplied (persistState SS r) = lastApplied r" "peers (persistState SS r) = peers r"
  "peer_heap (persistState SS r) = peer_heap r" "leaderID (persistState SS r) = leaderID r"
  "leaderAddr (persistState SS r) = leaderAddr r" "node_fsm (persistState SS r) = node_fsm r"
  "pendingFutures (persistState SS r) = pendingFutures r" "futures (persistState SS r) = futures r"
  "applyCh (persistState SS r) = applyCh r" "commitNotifyCh (persistState SS r) = commitNotifyCh r"
  "shutdownCh (persistState SS r) = shutdownCh r"
  by (simp_all add: persistState_def split_beta Let_def)

lemma stepDown_fields [simp]:
  "config (stepDown SS t r) = config r" "currentTerm (stepDown SS t r) = t"
  "votedFor (stepDown SS t r) = []" "logStore (stepDown SS t r) = logStore r"
  "state (stepDown SS t r) = Follower" "commitIndex (stepDown SS t r) = commitIndex r"
  "lastApplied (stepDown SS t r) = lastApplied r" "peers (stepDown SS t r) = peers r"
  "peer_heap (stepDown SS t r) = peer_heap r" "leaderID (stepDown SS t r) = []"
  "leaderAddr (stepDown SS t r) = []" "node_fsm (stepDown SS t r) = node_fsm r"
  "pendingFutures (stepDown SS t r) = pendingFutures r" "futures (stepDown SS t r) = futures r"
  "applyCh (stepDown SS t r) = applyCh r" "commitNotifyCh (stepDown SS t r) = commitNotifyCh r"
  "shutdownCh (stepDown SS t r) = shutdownCh r"
  by (simp_all add: stepDown_def)

lemma set_leaderAddr_fields [simp]:
  "config (set_leaderAddr i r) = config r" "currentTerm (set_leaderAddr i r) = currentTerm r"
  "votedFor (set_leaderAddr i r) = votedFor r" "logStore (set_leaderAddr i r) = logStore r"
  "stableStore (set_leaderAddr i r) = stableStore r" "state (set_leaderAddr i r) = state r"
  "commitIndex (set_leaderAddr i r) = commitIndex r" "lastApplied (set_leaderAddr i r) = lastApplied r"
  "peers (set_leaderAddr i r) = peers r" "peer_heap (set_leaderAddr i r) = peer_heap r"
  "leaderID (set_leaderAddr i r) = leaderID r" "node_fsm (set_leaderAddr i r) = node_fsm r"
  "pendingFutures (set_leaderAddr i r) = pendingFutures r" "futures (set_leaderAddr i r) = futures r"
  "applyCh (set_leaderAddr i r) = applyCh r" "commitNotifyCh (set_leaderAddr i r) = commitNotifyCh r"
  "shutdownCh (set_leaderAddr i r) = shutdownCh r"
  by (simp_all add: set_leaderAddr_def split: option.split)

lemma becomeLeader_fields [simp]:
  "config (becomeLeader r) = config r" "currentTerm (becomeLeader r) = currentTerm r"
  "votedFor (becomeLeader r) = votedFor r" "logStore (becomeLeader r) = logStore r"
  "stableStore (becomeLeader r) = stableStore r" "state (becomeLeader r) = Leader"
  "commitIndex (becomeLeader r) = commitIndex r" "lastApplied (becomeLeader r) = lastApplied r"
  "leaderID (becomeLeader r) = ServerID (config r)" "node_fsm (becomeLeader r) = node_fsm r"
  "pendingFutures (becomeLeader r) = pendingFutures r" "futures (becomeLeader r) = futures r"
  "applyCh (becomeLeader r) = applyCh r" "commitNotifyCh (becomeLeader r) = commitNotifyCh r"
  by (simp_all add: becomeLeader_def)

lemma triggerReplication_fields [simp]:
  "config (triggerReplication r) = config r" "currentTerm (triggerReplication r) = currentTerm r"
  "votedFor (triggerReplication r) = votedFor r" "logStore (triggerReplication r) = logStore r"
  "stableStore (triggerReplication r) = stableStore r" "state (triggerReplication r) = state r"
  "commitIndex (triggerReplication r) = commitIndex r" "lastApplied (triggerReplication r) = lastApplied r"
  "peers (triggerReplication r) = peers r" "pendingFutures (triggerReplication r) = pendingFutures r"
  "futures (triggerReplication r) = futures r" "applyCh (triggerReplication r) = applyCh r"
  "node_fsm (triggerReplication r) = node_fsm r" "leaderID (triggerReplication r) = leaderID r"
  by (simp_all add: triggerReplication_def)

lemma initLeader_fields [simp]:
  "config (initLeader LS r) = config r" "currentTerm (initLeader LS r) = currentTerm r"
  "votedFor (initLeader LS r) = votedFor r" "logStore (initLeader LS r) = logStore r"
  "stableStore (initLeader LS r) = stableStore r" "state (initLeader LS r) = state r"
  "commitIndex (initLeader LS r) = commitIndex r" "lastApplied (initLeader LS r) = lastApplied r"
  "leaderID (initLeader LS r) = leaderID r" "node_fsm (initLeader LS r) = node_fsm r"
  "pendingFutures (initLeader LS r) = pendingFutures r" "futures (initLeader LS r) = futures r"
proof -
  have "config (foldl (addPeer i) r ps) = config r \<and> currentTerm (foldl (addPeer i) r ps) = currentTerm r \<and>
      votedFor (foldl (addPeer i) r ps) = votedFor r \<and> logStore (foldl (addPeer i) r ps) = logStore r \<and>
      stableStore (foldl (addPeer i) r ps) = stableStore r \<and> state (foldl (addPeer i) r ps) = state r \<and>
      commitIndex (foldl (addPeer i) r ps) = commitIndex r \<and> lastApplied (foldl (addPeer i) r ps) = lastApplied r \<and>
      leaderID (foldl (addPeer i) r ps) = leaderID r \<and> node_fsm (foldl (addPeer i) r ps) = node_fsm r \<and>
      pendingFutures (foldl (addPeer i) r ps) = pendingFutures r \<and> futures (foldl (addPeer i) r ps) = futures r"
    for i ps and r :: "('a, 'b, 'c, 'd) RaftNode"
    by (induction ps arbitrary: r) (simp_all add: addPeer_def)
  then show "config (initLeader LS r) = config r" "currentTerm (initLeader LS r) = currentTerm r"
    "votedFor (initLeader LS r) = votedFor r" "logStore (initLeader LS r) = logStore r"
    "stableStore (initLeader LS r) = stableStore r" "state (initLeader LS r) = state r"
    "commitIndex (initLeader LS r) = commitIndex r" "lastApplied (initLeader LS r) = lastApplied r"
    "leaderID (initLeader LS r) = leaderID r" "node_fsm (initLeader LS r) = node_fsm r"
    "pendingFutures (initLeader LS r) = pendingFutures r" "futures (initLeader LS r) = futures r"
    by (simp_all add: initLeader_def)
qed

lemma persisted_cong:
  "stableStore r' = stableStore r \<Longrightarrow> currentTerm r' = currentTerm r \<Longrightarrow> votedFor r' = votedFor r \<Longrightarrow>
     persisted SS r \<Longrightarrow> persisted SS r'"
  by (simp add: persisted_def)

text \<open>The comparison of logs is the lexicographic order on term and index, a total preorder.\<close>

lemma isLogUpToDate_iff:
  "isLogUpToDate ct ci vt vi \<longleftrightarrow> vt < ct \<or> vt = ct \<and> vi \<le> ci"
  by (auto simp: isLogUpToDate_def)

lemma handleRequestVote_granted:
  "VoteGranted (fst (snd (handleRequestVote LS SS r req))) \<longleftrightarrow>
     currentTerm r \<le> rv_Term req \<and>
     (currentTerm r < rv_Term req \<or> votedFor r = [] \<or> votedFor r = CandidateID req) \<and>
     (let (i, t) = lastLogInfo LS (logStore r)
      in t < LastLogTerm req \<or> t = LastLogTerm req \<and> i \<le> LastLogIndex req)"
  by (auto simp: handleRequestVote_def Let_def isLogUpToDate_iff split: prod.splits)

lemma handleRequestVote_term:
  "rvr_Term (fst (snd (handleRequestVote LS SS r req))) = max (currentTerm r) (rv_Term req)"
  "currentTerm (fst (handleRequestVote LS SS r req)) = max (currentTerm r) (rv_Term req)"
  by (auto simp: handleRequestVote_def Let_def max_def split: prod.splits)

lemma handleRequestVote_log [simp]: "logStore (fst (handleRequestVote LS SS r req)) = logStore r"
  by (auto simp: handleRequestVote_def Let_def split: prod.splits)

lemma handleRequestVote_votedFor:
  "votedFor (fst (handleRequestVote LS SS r req)) =
     (if VoteGranted (fst (snd (handleRequestVote LS SS r req))) then CandidateID req
      else if currentTerm r < rv_Term req then [] else votedFor r)"
  by (auto simp: handleRequestVote_def Let_def split: prod.splits)

context stable_store
begin

lemma persistState_ok:
  assumes "sinv (stableStore r)"
  shows "persisted SS (persistState SS r)" and "sinv (stableStore (persistState SS r))"
proof -
  obtain s1 where s1: "SetUint64 SS (stableStore r) KeyCurrentTerm (currentTerm r) = (s1, None)" "sinv s1"
    "GetUint64 SS s1 KeyCurrentTerm = Ret (currentTerm r, None)"
    using set_uint64_ok [OF assms keys_nonempty(1)] by blast
  obtain s2 where s2: "Set SS s1 KeyVotedFor (votedFor r) = (s2, None)" "sinv s2"
    "Get SS s2 KeyVotedFor = (votedFor r, None)"
    "GetUint64 SS s2 KeyCurrentTerm = GetUint64 SS s1 KeyCurrentTerm"
    using set_ok [OF s1(2) keys_nonempty(2)] keys_distinct by metis
  show "persisted SS (persistState SS r)" "sinv (stableStore (persistState SS r))"
    using s1 s2 by (simp_all add: persisted_def persistState_def)
qed

lemma stepDown_ok:
  assumes "sinv (stableStore r)"
  shows "persisted SS (stepDown SS t r)" and "sinv (stableStore (stepDown SS t r))"
  using assms by (simp_all add: stepDown_def persistState_ok)

lemma startElection_ok:
  assumes "sinv (stableStore r)"
  shows "persisted SS (fst (startElection LS SS r))" and "sinv (stableStore (fst (startElection LS SS r)))"
  using assms by (simp_all add: startElection_def persistState_ok split_beta)

lemma handleRequestVote_ok:
  assumes "sinv (stableStore r)" and "persisted SS r"
  shows "persisted SS (fst (handleRequestVote LS SS r req))"
    and "sinv (stableStore (fst (handleRequestVote LS SS r req)))"
  using assms by (simp_all add: handleRequestVote_def Let_def stepDown_ok persistState_ok split_beta)

lemma receiveVote_ok:
  assumes "sinv (stableStore r)" and "persisted SS r"
  shows "persisted SS (fst (receiveVote SS r n vote))" and "sinv (stableStore (fst (receiveVote SS r n vote)))"
  using assms by (auto simp: receiveVote_def checkVoteTerm_def countVote_def stepDown_ok
      intro: persisted_cong [rotated 3, OF assms(2)])

text \<open>A node that starts on the stores of another one has its term and its vote.\<close>

lemma NewRaftNode_restores:
  assumes "persisted SS r" and "validate c = None"
  shows "\<exists>r'. NewRaftNode SS c l (stableStore r) f = Ret (Inr r')"
    and "NewRaftNode SS c l (stableStore r) f = Ret (Inr r') \<Longrightarrow> persisted SS r' \<and>
      currentTerm r' = currentTerm r \<and> votedFor r' = votedFor r \<and> state r' = Follower \<and>
      logStore r' = l \<and> stableStore r' = stableStore r \<and> config r' = c"
  using assms by (auto simp: NewRaftNode_def restoreState_def persisted_def)

lemma vote_survives_restart:
  assumes inv: "sinv (stableStore r)" "persisted SS r"
    and vote: "handleRequestVote LS SS r req = (r1, resp, b)" "VoteGranted resp" "CandidateID req \<noteq> []"
    and restart: "validate c = None" "NewRaftNode SS c (logStore r1) (stableStore r1) f = Ret (Inr r2)"
    and other: "rv_Term req2 \<le> rv_Term req" "CandidateID req2 \<noteq> CandidateID req"
  shows "\<not> VoteGranted (fst (snd (handleRequestVote LS SS r2 req2)))"
proof -
  have "persisted SS r1" using handleRequestVote_ok(1) [OF inv, of LS req] vote(1) by simp
  from NewRaftNode_restores(2) [OF this restart]
  have "currentTerm r2 = currentTerm r1" "votedFor r2 = votedFor r1" by auto
  moreover have "votedFor r1 = CandidateID req" "rv_Term req \<le> currentTerm r1"
    using handleRequestVote_votedFor [of LS SS r req] handleRequestVote_term(2) [of LS SS r req] vote
    by simp_all
  ultimately show ?thesis
    using vote(3) other by (simp add: handleRequestVote_granted) auto
qed

end

section \<open>Election timeouts\<close>

text \<open>
  Every configuration that \<open>validate\<close> accepts gives election timeouts: the random draw never
  panics and the timeout lies from \<open>ElectionTimeoutMin\<close> on and below \<open>ElectionTimeoutMax\<close>.
\<close>

lemma validated_timeouts:
  assumes "validate c = None" and "ElectionTimeoutMax c < 2 ^ 63"
    and "\<And>n. 0 < n \<Longrightarrow> 0 \<le> rnd n \<and> rnd n < n"
  shows "\<exists>t. randomElectionTimeout rnd c = Ret t \<and> ElectionTimeoutMin c \<le> t \<and> t < ElectionTimeoutMax c"
proof -
  let ?d = "ElectionTimeoutMax c - ElectionTimeoutMin c"
  have "0 < ElectionTimeoutMin c" "0 < ?d" using assms(1) by (auto simp: validate_def split: if_splits)
  moreover from this have "int64 ?d = ?d" "int64 (ElectionTimeoutMin c + rnd ?d) = ElectionTimeoutMin c + rnd ?d"
    using assms(2) assms(3) [of ?d] by (simp_all add: int64_id)
  ultimately show ?thesis using assms(3) [of ?d] by (auto simp: randomElectionTimeout_def Let_def)
qed

end
