(* ===== verification/Raft_Log.thy ===== *)
theory Raft_Log
  imports Raft_Node
begin

text \<open>
  The abstract log: the list of entries that a log store holds, entry \<open>k\<close> of the list (from zero)
  under index \<open>k + 1\<close>. The lemmas in the context of \<open>log_store\<close> say what the store's operations do
  to the list, so that the node's operations can be read as operations on lists.
\<close>

definition log_map :: "LogEntry list \<Rightarrow> u64 \<rightharpoonup> LogEntry" where
  "log_map xs i = (if i \<noteq> 0 \<and> unat i \<le> length xs then Some (xs ! (unat i - 1)) else None)"

text \<open>The entries carry their positions, which stay below the largest \<^verbatim>\<open>uint64\<close>.\<close>

definition log_ok :: "LogEntry list \<Rightarrow> bool" where
  "log_ok xs \<longleftrightarrow> length xs < 2 ^ 64 - 1 \<and> (\<forall>k < length xs. unat (Index (xs ! k)) = Suc k)"

definition repr :: "('l \<Rightarrow> bool) \<Rightarrow> ('l \<Rightarrow> u64 \<rightharpoonup> LogEntry) \<Rightarrow> 'l \<Rightarrow> LogEntry list \<Rightarrow> bool" where
  "repr linv lmap l xs \<longleftrightarrow> linv l \<and> lmap l = log_map xs \<and> log_ok xs"

text \<open>The index of the last entry.\<close>

definition last_of :: "LogEntry list \<Rightarrow> u64" where
  "last_of xs = of_nat (length xs)"

lemma unat_of_nat_less: "n < 2 ^ 64 \<Longrightarrow> unat (of_nat n :: u64) = n"
  by (simp add: unsigned_of_nat take_bit_eq_mod)

lemma unat_last_of [simp]: "log_ok xs \<Longrightarrow> unat (last_of xs) = length xs"
  by (simp add: last_of_def log_ok_def unat_of_nat_less)

lemma unat_pos: "i \<noteq> 0 \<longleftrightarrow> 0 < unat i" for i :: u64
  by (simp add: word_neq_0_conv unat_gt_0)

lemma log_ok_Nil [simp]: "log_ok []"
  by (simp add: log_ok_def)

lemma log_ok_take: "log_ok xs \<Longrightarrow> log_ok (take n xs)"
  by (auto simp: log_ok_def)

lemma log_ok_append_iff:
  "log_ok (xs @ es) \<longleftrightarrow> log_ok xs \<and> length xs + length es < 2 ^ 64 - 1 \<and>
     (\<forall>k < length es. unat (Index (es ! k)) = Suc (length xs + k))"
proof -
  have "(\<forall>k < length (xs @ es). unat (Index ((xs @ es) ! k)) = Suc k) \<longleftrightarrow>
      (\<forall>k < length xs. unat (Index (xs ! k)) = Suc k) \<and>
      (\<forall>k < length es. unat (Index (es ! k)) = Suc (length xs + k))"
    by (auto simp: nth_append all_conj_distrib)
  then show ?thesis by (auto simp: log_ok_def)
qed

text \<open>The positions one by one.\<close>

fun numbered :: "nat \<Rightarrow> LogEntry list \<Rightarrow> bool" where
  "numbered n [] = True"
| "numbered n (e # es) = (unat (Index e) = Suc n \<and> numbered (Suc n) es)"

lemma numbered_iff: "numbered n es \<longleftrightarrow> (\<forall>k < length es. unat (Index (es ! k)) = Suc (n + k))"
  by (induction es arbitrary: n) (auto simp: less_Suc_eq_0_disj)

lemma log_ok_code [code]: "log_ok xs \<longleftrightarrow> length xs < 2 ^ 64 - 1 \<and> numbered 0 xs"
  by (simp add: log_ok_def numbered_iff)

lemma log_ok_shift:
  assumes "log_ok xs" and "n < length xs" and "log_ok (take n xs @ e # es)"
  shows "log_ok (take (Suc n) xs @ es)"
proof -
  have "\<forall>k < Suc (length es). unat (Index ((e # es) ! k)) = Suc (n + k)"
    using assms by (simp add: log_ok_append_iff min_def)
  then have "unat (Index (es ! k)) = Suc (Suc (n + k))" if "k < length es" for k
    using that by (auto dest: spec [of _ "Suc k"])
  with assms show ?thesis by (simp add: log_ok_append_iff min_def log_ok_take)
qed

lemma log_ok_Index: "log_ok xs \<Longrightarrow> k < length xs \<Longrightarrow> unat (Index (xs ! k)) = Suc k"
  by (simp add: log_ok_def)

lemma Index_last: "log_ok xs \<Longrightarrow> xs \<noteq> [] \<Longrightarrow> Index (last xs) = last_of xs"
  by (simp add: word_unat_eq_iff last_conv_nth log_ok_Index)

lemma log_ok_snoc:
  "log_ok (xs @ [e]) \<longleftrightarrow> log_ok xs \<and> Suc (length xs) < 2 ^ 64 - 1 \<and> unat (Index e) = Suc (length xs)"
  by (auto simp: log_ok_def nth_append less_Suc_eq)

lemma log_map_snoc:
  assumes "Suc (length xs) < 2 ^ 64 - 1" and "unat (Index e) = Suc (length xs)"
  shows "log_map (xs @ [e]) = (log_map xs)(Index e \<mapsto> e)"
proof
  fix i :: u64
  have "i = Index e \<longleftrightarrow> unat i = Suc (length xs)"
    using assms by (simp add: word_unat_eq_iff)
  then show "log_map (xs @ [e]) i = ((log_map xs)(Index e \<mapsto> e)) i"
    using assms by (auto simp: log_map_def nth_append unat_pos)
qed

lemma store_all_log_map: "log_ok (xs @ es) \<Longrightarrow> store_all (log_map xs) es = log_map (xs @ es)"
proof (induction es rule: rev_induct)
  case (snoc e es)
  then have "log_ok ((xs @ es) @ [e])" by simp
  then have e: "log_ok (xs @ es)" "Suc (length (xs @ es)) < 2 ^ 64 - 1"
      "unat (Index e) = Suc (length (xs @ es))"
    by (simp_all only: log_ok_snoc)
  then show ?case using snoc.IH log_map_snoc [OF e(2,3)] by (simp add: store_all_def)
qed (simp add: store_all_def)

lemma dom_log_map:
  assumes "log_ok xs"
  shows "dom (log_map xs) = {i. i \<noteq> 0 \<and> i \<le> last_of xs}"
  using assms by (auto simp: dom_def log_map_def word_le_nat_alt split: if_splits)

lemma max_key_log_map:
  assumes "log_ok xs"
  shows "max_key (log_map xs) = last_of xs"
proof (cases "xs = []")
  case True
  then have "dom (log_map xs) = {}" by (auto simp: log_map_def unat_pos)
  with True show ?thesis by (simp add: max_key_def last_of_def)
next
  case False
  then have "last_of xs \<noteq> 0" using assms by (simp add: unat_pos)
  then have "Max (dom (log_map xs)) = last_of xs"
    unfolding dom_log_map [OF assms] by (intro Max_eqI) auto
  with \<open>last_of xs \<noteq> 0\<close> show ?thesis by (auto simp: max_key_def dom_log_map [OF assms])
qed

lemma log_map_restrict:
  assumes "log_ok xs" and "i \<noteq> 0"
  shows "log_map xs |` (- {i..last_of xs}) = log_map (take (unat i - 1) xs)"
proof
  fix j
  show "(log_map xs |` (- {i..last_of xs})) j = log_map (take (unat i - 1) xs) j"
    using assms by (auto simp: restrict_map_def log_map_def unat_pos word_le_nat_alt)
qed

context log_store
begin

lemma repr_get:
  assumes "repr linv lmap l xs" and "i \<noteq> 0" and "unat i \<le> length xs"
  shows "GetLog LS l i = Inr (xs ! (unat i - 1))"
  using assms by (intro get_Some) (auto simp: repr_def log_map_def)

lemma repr_get_None:
  assumes "repr linv lmap l xs" and "i = 0 \<or> length xs < unat i"
  shows "\<exists>err. GetLog LS l i = Inl err"
  using assms by (intro get_None) (auto simp: repr_def log_map_def)

lemma repr_last: "repr linv lmap l xs \<Longrightarrow> LastIndex LS l = (last_of xs, None)"
  using last_index [of l] by (simp add: repr_def max_key_log_map)

lemma repr_store:
  assumes "repr linv lmap l xs" and "log_ok (xs @ es)"
  shows "\<exists>l'. StoreLogs LS l es = (l', None) \<and> repr linv lmap l' (xs @ es)"
proof -
  have "Index e \<noteq> 0" if "e \<in> set es" for e
  proof -
    from that obtain k where "k < length es" "e = es ! k" by (auto simp: in_set_conv_nth)
    then show ?thesis using log_ok_Index [OF assms(2), of "length xs + k"] by (auto simp: unat_pos nth_append)
  qed
  then obtain l' where "StoreLogs LS l es = (l', None)" "linv l'" "lmap l' = store_all (lmap l) es"
    using store [of l es] assms(1) by (auto simp: repr_def)
  then show ?thesis using assms by (simp add: repr_def store_all_log_map)
qed

lemma repr_store_next:
  assumes "repr linv lmap l xs" and "Suc (length xs) < 2 ^ 64 - 1"
  shows "\<exists>l'. StoreLogs LS l [\<lparr>Index = last_of xs + 1, Term = t, Data = d\<rparr>] = (l', None) \<and>
    repr linv lmap l' (xs @ [\<lparr>Index = last_of xs + 1, Term = t, Data = d\<rparr>])"
proof (rule repr_store [OF assms(1)])
  have ok: "log_ok xs" using assms(1) by (simp add: repr_def)
  have "last_of xs < - 1"
    using ok unat_last_of [OF ok]
    by (simp add: word_less_nat_alt log_ok_def unsigned_minus_1_eq_mask mask_eq_exp_minus_1)
  then have "unat (last_of xs + 1) = Suc (length xs)" using unat_add1 ok by fastforce
  then show "log_ok (xs @ [\<lparr>Index = last_of xs + 1, Term = t, Data = d\<rparr>])"
    using ok assms(2) by (simp add: log_ok_snoc)
qed

lemma repr_delete:
  assumes "repr linv lmap l xs" and "i \<noteq> 0"
  shows "\<exists>l'. DeleteRange LS l i (last_of xs) = Some (l', None) \<and> repr linv lmap l' (take (unat i - 1) xs)"
proof -
  have ok: "linv l" "lmap l = log_map xs" "log_ok xs" using assms(1) by (simp_all add: repr_def)
  have "last_of xs < - 1"
    using ok(3) unat_last_of [OF ok(3)] by (simp add: word_less_nat_alt log_ok_def unsigned_minus_1_eq_mask mask_eq_exp_minus_1)
  then show ?thesis
    using delete [OF ok(1), of "last_of xs" i] ok assms(2)
    by (auto simp: repr_def log_map_restrict log_ok_take)
qed

lemma lastLogInfo_repr:
  assumes "repr linv lmap l xs"
  shows "lastLogInfo LS l = (last_of xs, if xs = [] then 0 else Term (last xs))"
proof (cases "xs = []")
  case True
  then show ?thesis using repr_last [OF assms] by (simp add: lastLogInfo_def last_of_def)
next
  case False
  have ok: "log_ok xs" using assms by (simp add: repr_def)
  then have nz: "last_of xs \<noteq> 0" using False by (simp add: unat_pos)
  have "GetLog LS l (last_of xs) = Inr (last xs)"
    using repr_get [OF assms nz] ok False by (simp add: last_conv_nth)
  then show ?thesis using Index_last [OF ok] repr_last [OF assms] nz False by (simp add: lastLogInfo_def)
qed

end

text \<open>The empty in-memory store.\<close>

lemma inmem_repr_New: "repr inmem_linv inmem_lmap NewInmemLogStore []"
  by (auto simp: repr_def inmem_linv_def inmem_lmap_def low_high_ok_def log_map_def NewInmemLogStore_def unat_pos)

end
