(* ===== verification/Raft_Replication.thy ===== *)
theory Raft_Replication
  imports Raft_Log
begin

text \<open>
  \<^verbatim>\<open>src/internal/raft/replication.go\<close>: how a leader builds its requests and treats the replies, how
  a follower handles \<open>AppendEntries\<close>, and when the commit index advances. In the context of
  \<open>log_store\<close> the handlers are shown to refine operations on the abstract log, a list.
\<close>

section \<open>The leader's request\<close>

text \<open>\<^verbatim>\<open>for i := peer.nextIndex; i <= lastIdx; i++\<close>, left when an entry cannot be read.\<close>

partial_function (option) collect ::
    "'l LogStore \<Rightarrow> 'l \<Rightarrow> u64 \<Rightarrow> u64 \<Rightarrow> LogEntry list \<Rightarrow> LogEntry list option" where
  [code]: "collect LS l i lastIdx entries =
     (if i \<le> lastIdx
      then case GetLog LS l i of
          Inl _ \<Rightarrow> Some entries
        | Inr entry \<Rightarrow> collect LS l (i + 1) lastIdx (entries @ [entry])
      else Some entries)"

text \<open>
  The first half of \<open>replicateOnce\<close>, up to the call of the transport: \<open>Some None\<close> when the node is
  not the leader, \<open>None\<close> when the loop does not end.
\<close>

definition replicateOnce_request :: "'l LogStore \<Rightarrow> ('l, 's, 'f, 'r) RaftNode \<Rightarrow> nat \<Rightarrow>
    AppendEntriesRequest option option" where
  "replicateOnce_request LS r p =
     (if state r \<noteq> Leader then Some None
      else
        let prevLogIndex = nextIndex (peer_heap r ! p) - 1;
            prevLogTerm =
              (if prevLogIndex > 0
               then case GetLog LS (logStore r) prevLogIndex of Inl _ \<Rightarrow> 0 | Inr entry \<Rightarrow> Term entry
               else 0);
            lastIdx = fst (LastIndex LS (logStore r))
        in case (if nextIndex (peer_heap r ! p) \<le> lastIdx
                 then collect LS (logStore r) (nextIndex (peer_heap r ! p)) lastIdx []
                 else Some []) of
            None \<Rightarrow> None
          | Some entries \<Rightarrow>
              Some (Some \<lparr>ae_Term = currentTerm r, LeaderID = ServerID (config r),
                          PrevLogIndex = prevLogIndex, PrevLogTerm = prevLogTerm,
                          Entries = entries, LeaderCommit = commitIndex r\<rparr>))"

section \<open>The commit index\<close>

definition notifyCommit :: "('l, 's, 'f, 'r) RaftNode \<Rightarrow> ('l, 's, 'f, 'r) RaftNode" where
  "notifyCommit r = r\<lparr>commitNotifyCh := True\<rparr>"

definition matches :: "'l LogStore \<Rightarrow> ('l, 's, 'f, 'r) RaftNode \<Rightarrow> u64 list" where
  "matches LS r =
     fst (LastIndex LS (logStore r)) # map (\<lambda>(i, p). matchIndex (peer_heap r ! p)) (peers r)"

text \<open>The value at position \<open>majority - 1\<close> of the descending sequence.\<close>

definition majorityMatch :: "u64 list \<Rightarrow> u64" where
  "majorityMatch ms = rev (sort ms) ! (length ms div 2 + 1 - 1)"

definition advanceCommitIndex :: "'l LogStore \<Rightarrow> ('l, 's, 'f, 'r) RaftNode \<Rightarrow> ('l, 's, 'f, 'r) RaftNode" where
  "advanceCommitIndex LS r =
     (let newCommit = majorityMatch (matches LS r) in
      if newCommit \<le> commitIndex r then r
      else case GetLog LS (logStore r) newCommit of
          Inl _ \<Rightarrow> r
        | Inr entry \<Rightarrow>
            if Term entry \<noteq> currentTerm r then r
            else notifyCommit (r\<lparr>commitIndex := newCommit\<rparr>))"

section \<open>The leader's treatment of a reply\<close>

text \<open>\<^verbatim>\<open>for i := lastIdx; i >= 1; i--\<close>: the last entry of a term, zero when there is none.\<close>

function lastOfTerm :: "'l LogStore \<Rightarrow> 'l \<Rightarrow> u64 \<Rightarrow> u64 \<Rightarrow> u64" where
  "lastOfTerm LS l t i =
     (if i \<ge> 1
      then case GetLog LS l i of
          Inl _ \<Rightarrow> 0
        | Inr entry \<Rightarrow> if Term entry = t then i else lastOfTerm LS l t (i - 1)
      else 0)"
  by pat_completeness auto
termination
  by (relation "measure (\<lambda>(LS, l, t, i). unat i)") (auto dest: word_sub1)

declare lastOfTerm.simps [simp del]

definition backUp :: "'l LogStore \<Rightarrow> 'l \<Rightarrow> AppendEntriesResponse \<Rightarrow> peerState \<Rightarrow> peerState" where
  "backUp LS l resp peer =
     (let next =
        (if ConflictTerm resp > 0
         then let conflictIdx = lastOfTerm LS l (ConflictTerm resp) (fst (LastIndex LS l))
              in if conflictIdx > 0 then conflictIdx + 1 else ConflictIndex resp
         else ConflictIndex resp)
      in peer\<lparr>nextIndex := (if next < 1 then 1 else next)\<rparr>)"

text \<open>
  The second half of \<open>replicateOnce\<close>, after the transport has returned \<open>resp\<close> for a request with
  the given entries. The peer pointer is the one the replicator was started with.
\<close>

definition recordMatch :: "LogEntry list \<Rightarrow> peerState \<Rightarrow> peerState" where
  "recordMatch entries peer =
     (if length entries > 0
      then peer\<lparr>matchIndex := Index (last entries), nextIndex := Index (last entries) + 1\<rparr>
      else peer)"

definition replicateOnce_response :: "'l LogStore \<Rightarrow> 's StableStore \<Rightarrow> ('l, 's, 'f, 'r) RaftNode \<Rightarrow> nat \<Rightarrow>
    LogEntry list \<Rightarrow> AppendEntriesResponse \<Rightarrow> ('l, 's, 'f, 'r) RaftNode" where
  "replicateOnce_response LS SS r p entries resp =
     (if aer_Term resp > currentTerm r then stepDown SS (aer_Term resp) r
      else if Success resp
      then advanceCommitIndex LS
             (r\<lparr>peer_heap := (peer_heap r)[p := recordMatch entries (peer_heap r ! p)]\<rparr>)
      else r\<lparr>peer_heap := (peer_heap r)[p := backUp LS (logStore r) resp (peer_heap r ! p)]\<rparr>)"

section \<open>The follower\<close>

text \<open>\<^verbatim>\<open>for i := req.PrevLogIndex - 1; i >= 1; i--\<close>: the first index of the conflicting term.\<close>

function firstOfTerm :: "'l LogStore \<Rightarrow> 'l \<Rightarrow> u64 \<Rightarrow> u64 \<Rightarrow> u64 \<Rightarrow> u64" where
  "firstOfTerm LS l t i conflictIndex =
     (if i \<ge> 1
      then case GetLog LS l i of
          Inl _ \<Rightarrow> conflictIndex
        | Inr e \<Rightarrow> if Term e \<noteq> t then conflictIndex else firstOfTerm LS l t (i - 1) i
      else conflictIndex)"
  by pat_completeness auto
termination
  by (relation "measure (\<lambda>(LS, l, t, i, c). unat i)") (auto dest: word_sub1)

declare firstOfTerm.simps [simp del]

text \<open>
  The consistency check: \<open>None\<close> when it passes, otherwise the conflict term and index of the
  reply.
\<close>

definition consistencyCheck :: "'l LogStore \<Rightarrow> 'l \<Rightarrow> AppendEntriesRequest \<Rightarrow> (u64 \<times> u64) option" where
  "consistencyCheck LS l req =
     (if PrevLogIndex req > 0
      then let lastIdx = fst (LastIndex LS l) in
        if lastIdx < PrevLogIndex req then Some (0, lastIdx + 1)
        else case GetLog LS l (PrevLogIndex req) of
            Inl (err, None) \<Rightarrow> Some (0, PrevLogIndex req)
          | Inl (err, Some prevEntry) \<Rightarrow>
              Some (Term prevEntry, firstOfTerm LS l (Term prevEntry) (PrevLogIndex req - 1) (PrevLogIndex req))
          | Inr prevEntry \<Rightarrow>
              if Term prevEntry \<noteq> PrevLogTerm req
              then Some (Term prevEntry,
                         firstOfTerm LS l (Term prevEntry) (PrevLogIndex req - 1) (PrevLogIndex req))
              else None
      else None)"

text \<open>
  The loop over the entries. The flag is \<^verbatim>\<open>false\<close> where the handler returns early because the
  store reported an error; the value is \<open>None\<close> where \<open>DeleteRange\<close> does not return.
\<close>

fun appendEntries :: "'l LogStore \<Rightarrow> 'l \<Rightarrow> LogEntry list \<Rightarrow> ('l \<times> bool) option" where
  "appendEntries LS l [] = Some (l, True)"
| "appendEntries LS l (entry # entries) =
     (case GetLog LS l (Index entry) of
        Inl _ \<Rightarrow>
          let (l1, err) = StoreLogs LS l (entry # entries) in Some (l1, err = None)
      | Inr existing \<Rightarrow>
          if Term existing \<noteq> Term entry
          then case DeleteRange LS l (Index entry) (fst (LastIndex LS l)) of
              None \<Rightarrow> None
            | Some (l1, Some err) \<Rightarrow> Some (l1, False)
            | Some (l1, None) \<Rightarrow>
                let (l2, err) = StoreLogs LS l1 (entry # entries) in Some (l2, err = None)
          else appendEntries LS l entries)"

definition updateCommit :: "'l LogStore \<Rightarrow> u64 \<Rightarrow> ('l, 's, 'f, 'r) RaftNode \<Rightarrow> ('l, 's, 'f, 'r) RaftNode" where
  "updateCommit LS leaderCommit r =
     (if leaderCommit > commitIndex r
      then let lastIdx = fst (LastIndex LS (logStore r));
               newCommit = (if lastIdx < leaderCommit then lastIdx else leaderCommit)
           in notifyCommit (r\<lparr>commitIndex := newCommit\<rparr>)
      else r)"

text \<open>Steps 1 and the recording of the leader: the node that goes on with the request.\<close>

definition acceptLeader :: "'s StableStore \<Rightarrow> AppendEntriesRequest \<Rightarrow> ('l, 's, 'f, 'r) RaftNode \<Rightarrow>
    ('l, 's, 'f, 'r) RaftNode" where
  "acceptLeader SS req r =
     (let r1 = (if ae_Term req > currentTerm r then stepDown SS (ae_Term req) r
                else if state r \<noteq> Follower then stepDown SS (ae_Term req) r
                else r)
      in set_leaderAddr (LeaderID req) (r1\<lparr>state := Follower, leaderID := LeaderID req\<rparr>))"

definition handleAppendEntries :: "'l LogStore \<Rightarrow> 's StableStore \<Rightarrow> ('l, 's, 'f, 'r) RaftNode \<Rightarrow>
    AppendEntriesRequest \<Rightarrow> (('l, 's, 'f, 'r) RaftNode \<times> AppendEntriesResponse \<times> bool) option" where
  "handleAppendEntries LS SS r req =
     (if ae_Term req < currentTerm r
      then Some (r, \<lparr>aer_Term = currentTerm r, Success = False, ConflictTerm = 0, ConflictIndex = 0\<rparr>, False)
      else
        let r1 = acceptLeader SS req r;
            resp = \<lparr>aer_Term = currentTerm r1, Success = False, ConflictTerm = 0, ConflictIndex = 0\<rparr>
        in case consistencyCheck LS (logStore r1) req of
            Some (t, i) \<Rightarrow> Some (r1, resp\<lparr>ConflictTerm := t, ConflictIndex := i\<rparr>, True)
          | None \<Rightarrow>
              (case appendEntries LS (logStore r1) (Entries req) of
                 None \<Rightarrow> None
               | Some (l, False) \<Rightarrow> Some (r1\<lparr>logStore := l\<rparr>, resp, True)
               | Some (l, True) \<Rightarrow>
                   Some (updateCommit LS (LeaderCommit req) (r1\<lparr>logStore := l\<rparr>),
                         resp\<lparr>Success := True\<rparr>, True)))"

text \<open>\<open>handleRPC\<close>: the dispatch. An unknown command is answered with an error.\<close>

datatype Command = CmdAppendEntries AppendEntriesRequest | CmdRequestVote RequestVoteRequest | CmdUnknown

datatype RPCResponse =
    RespAppendEntries AppendEntriesResponse | RespRequestVote RequestVoteResponse | RespError

definition handleRPC :: "'l LogStore \<Rightarrow> 's StableStore \<Rightarrow> ('l, 's, 'f, 'r) RaftNode \<Rightarrow> Command \<Rightarrow>
    (('l, 's, 'f, 'r) RaftNode \<times> RPCResponse \<times> bool) option" where
  "handleRPC LS SS r cmd =
     (case cmd of
        CmdAppendEntries req \<Rightarrow>
          (case handleAppendEntries LS SS r req of
             None \<Rightarrow> None
           | Some (r', resp, reset) \<Rightarrow> Some (r', RespAppendEntries resp, reset))
      | CmdRequestVote req \<Rightarrow>
          (case handleRequestVote LS SS r req of
             (r', resp, reset) \<Rightarrow> Some (r', RespRequestVote resp, reset))
      | CmdUnknown \<Rightarrow> Some (r, RespError, False))"

section \<open>The handlers on the abstract log\<close>

lemma acceptLeader_fields [simp]:
  "config (acceptLeader SS req r) = config r" "logStore (acceptLeader SS req r) = logStore r"
  "state (acceptLeader SS req r) = Follower" "commitIndex (acceptLeader SS req r) = commitIndex r"
  "lastApplied (acceptLeader SS req r) = lastApplied r" "peers (acceptLeader SS req r) = peers r"
  "peer_heap (acceptLeader SS req r) = peer_heap r" "node_fsm (acceptLeader SS req r) = node_fsm r"
  "leaderID (acceptLeader SS req r) = LeaderID req" "futures (acceptLeader SS req r) = futures r"
  "pendingFutures (acceptLeader SS req r) = pendingFutures r"
  by (simp_all add: acceptLeader_def Let_def)

lemma acceptLeader_term:
  "\<not> ae_Term req < currentTerm r \<Longrightarrow> currentTerm (acceptLeader SS req r) = ae_Term req"
  by (auto simp: acceptLeader_def Let_def)

lemma acceptLeader_votedFor:
  "votedFor (acceptLeader SS req r) =
     (if ae_Term req > currentTerm r \<or> state r \<noteq> Follower then [] else votedFor r)"
  by (simp add: acceptLeader_def Let_def)

lemma notifyCommit_fields [simp]:
  "config (notifyCommit r) = config r" "currentTerm (notifyCommit r) = currentTerm r"
  "votedFor (notifyCommit r) = votedFor r" "logStore (notifyCommit r) = logStore r"
  "stableStore (notifyCommit r) = stableStore r" "state (notifyCommit r) = state r"
  "commitIndex (notifyCommit r) = commitIndex r" "lastApplied (notifyCommit r) = lastApplied r"
  "peers (notifyCommit r) = peers r" "peer_heap (notifyCommit r) = peer_heap r"
  "commitNotifyCh (notifyCommit r)"
  by (simp_all add: notifyCommit_def)

lemma updateCommit_fields [simp]:
  "config (updateCommit LS c r) = config r" "currentTerm (updateCommit LS c r) = currentTerm r"
  "votedFor (updateCommit LS c r) = votedFor r" "logStore (updateCommit LS c r) = logStore r"
  "stableStore (updateCommit LS c r) = stableStore r" "state (updateCommit LS c r) = state r"
  "lastApplied (updateCommit LS c r) = lastApplied r" "peers (updateCommit LS c r) = peers r"
  "peer_heap (updateCommit LS c r) = peer_heap r"
  by (simp_all add: updateCommit_def Let_def)

text \<open>The term at an index, as the handlers see it: zero at index zero.\<close>

definition term_at :: "LogEntry list \<Rightarrow> nat \<Rightarrow> u64" where
  "term_at xs n = (if n = 0 \<or> length xs < n then 0 else Term (xs ! (n - 1)))"

definition prev_ok :: "LogEntry list \<Rightarrow> AppendEntriesRequest \<Rightarrow> bool" where
  "prev_ok xs req \<longleftrightarrow>
     PrevLogIndex req = 0 \<or>
     unat (PrevLogIndex req) \<le> length xs \<and> term_at xs (unat (PrevLogIndex req)) = PrevLogTerm req"

text \<open>Entries found in the log are kept; from the first conflict or gap on, the new ones replace it.\<close>

fun mergeLog :: "nat \<Rightarrow> LogEntry list \<Rightarrow> LogEntry list \<Rightarrow> LogEntry list" where
  "mergeLog n xs [] = xs"
| "mergeLog n xs (e # es) =
     (if n < length xs \<and> Term (xs ! n) = Term e then mergeLog (Suc n) xs es else take n xs @ e # es)"

text \<open>Two logs agree up to every position where they have the same term.\<close>

definition log_matching :: "LogEntry list \<Rightarrow> LogEntry list \<Rightarrow> bool" where
  "log_matching xs ys \<longleftrightarrow>
     (\<forall>i. i < length xs \<and> i < length ys \<and> Term (xs ! i) = Term (ys ! i) \<longrightarrow>
        take (Suc i) xs = take (Suc i) ys)"

lemma log_matching_code [code]:
  "log_matching xs ys \<longleftrightarrow>
     list_all (\<lambda>i. Term (xs ! i) = Term (ys ! i) \<longrightarrow> take (Suc i) xs = take (Suc i) ys)
       [0..<min (length xs) (length ys)]"
  by (auto simp: log_matching_def list_all_iff)

lemma log_matchingD:
  "log_matching xs ys \<Longrightarrow> i < length xs \<Longrightarrow> i < length ys \<Longrightarrow> Term (xs ! i) = Term (ys ! i) \<Longrightarrow>
     take (Suc i) xs = take (Suc i) ys"
  by (auto simp: log_matching_def)

text \<open>
  Merging the rest of a leader's log into a log that agrees with it so far gives a log that starts
  with the whole log of the leader; what was there beyond it stays only when there was no conflict.
\<close>

lemma mergeLog_leader:
  assumes "log_matching xs ys" and "take n xs = take n ys" and "n \<le> length xs" and "n \<le> length ys"
  shows "mergeLog n xs (drop n ys) = (if take (length ys) xs = ys then xs else ys)"
  using assms(2-)
proof (induction "length ys - n" arbitrary: n)
  case 0
  then show ?case by (auto simp: min_def split: if_splits)
next
  case (Suc k)
  then have n: "n < length ys" "drop n ys = ys ! n # drop (Suc n) ys"
    by (simp_all add: Cons_nth_drop_Suc)
  show ?case
  proof (cases "n < length xs \<and> Term (xs ! n) = Term (ys ! n)")
    case True
    with n assms(1) have "take (Suc n) xs = take (Suc n) ys" by (auto dest: log_matchingD)
    with True n Suc show ?thesis by simp
  next
    case False
    then have "take (length ys) xs \<noteq> ys"
      using n(1) by (metis length_take min_less_iff_conj nth_take)
    moreover have "mergeLog n xs (drop n ys) = take n xs @ drop n ys" using False n(2) by auto
    ultimately show ?thesis using Suc.prems(1) by simp
  qed
qed

lemma log_ok_merge:
  assumes "log_ok xs" and "log_ok (take n xs @ es)" and "n \<le> length xs"
  shows "log_ok (mergeLog n xs es)"
  using assms(2,3)
proof (induction es arbitrary: n)
  case Nil
  then show ?case using assms(1) by simp
next
  case (Cons e es)
  show ?case
  proof (cases "n < length xs \<and> Term (xs ! n) = Term e")
    case True
    with Cons.prems assms(1) have "log_ok (take (Suc n) xs @ es)" by (blast intro: log_ok_shift)
    with True Cons.IH [of "Suc n"] show ?thesis by simp
  next
    case False
    with Cons.prems show ?thesis by (subst mergeLog.simps) (simp only: if_False)
  qed
qed

context log_store
begin

lemma collect_repr:
  assumes "repr linv lmap l xs" and "i \<noteq> 0"
  shows "collect LS l i (last_of xs) acc = Some (acc @ drop (unat i - 1) xs)"
  using assms(2)
proof (induction "Suc (length xs) - unat i" arbitrary: i acc)
  case 0
  have "log_ok xs" using assms(1) by (simp add: repr_def)
  with 0 have "\<not> i \<le> last_of xs" by (simp add: word_le_nat_alt)
  with 0 show ?case by (subst collect.simps) simp
next
  case (Suc k)
  have ok: "log_ok xs" using assms(1) by (simp add: repr_def)
  have i: "0 < unat i" "unat i \<le> length xs" using Suc unat_pos by (auto simp: unat_pos)
  then have "unat (i + 1) = Suc (unat i)"
    using ok by (intro unat_add1 [of i "- 1"])
      (simp add: word_less_nat_alt log_ok_def unsigned_minus_1_eq_mask mask_eq_exp_minus_1)
  with Suc.hyps(2) Suc.hyps(1) [of "i + 1" "acc @ [xs ! (unat i - 1)]"]
  have "collect LS l (i + 1) (last_of xs) (acc @ [xs ! (unat i - 1)]) =
      Some (acc @ [xs ! (unat i - 1)] @ drop (unat i) xs)"
    by (simp add: unat_pos)
  moreover have "drop (unat i - 1) xs = xs ! (unat i - 1) # drop (unat i) xs"
    using i Cons_nth_drop_Suc [of "unat i - 1" xs] by simp
  ultimately show ?case
    using repr_get [OF assms(1) Suc.prems i(2)] i ok by (subst collect.simps) (simp add: word_le_nat_alt)
qed

lemma consistencyCheck_repr:
  assumes "repr linv lmap l xs"
  shows "consistencyCheck LS l req = None \<longleftrightarrow> prev_ok xs req"
proof (cases "PrevLogIndex req = 0 \<or> length xs < unat (PrevLogIndex req)")
  case True
  then show ?thesis
    using repr_last [OF assms] assms
    by (auto simp: consistencyCheck_def prev_ok_def repr_def word_less_nat_alt unat_pos Let_def)
next
  case False
  then have "GetLog LS l (PrevLogIndex req) = Inr (xs ! (unat (PrevLogIndex req) - 1))"
    using repr_get [OF assms] by simp
  with False show ?thesis
    using repr_last [OF assms] assms
    by (auto simp: consistencyCheck_def prev_ok_def repr_def word_less_nat_alt term_at_def unat_pos Let_def)
qed

lemma appendEntries_repr:
  assumes "repr linv lmap l xs"
  shows "n \<le> length xs \<Longrightarrow> log_ok (take n xs @ es) \<Longrightarrow>
    \<exists>l'. appendEntries LS l es = Some (l', True) \<and> repr linv lmap l' (mergeLog n xs es)"
proof (induction es arbitrary: n)
  case Nil
  then show ?case using assms by simp
next
  case (Cons e es)
  have ok: "log_ok xs" using assms by (simp add: repr_def)
  have e: "unat (Index e) = Suc n"
    using Cons.prems by (auto simp: log_ok_append_iff min_def)
  show ?case
  proof (cases "n < length xs")
    case True
    then have get: "GetLog LS l (Index e) = Inr (xs ! n)"
      using repr_get [OF assms, of "Index e"] e by (simp add: unat_pos)
    show ?thesis
    proof (cases "Term (xs ! n) = Term e")
      case same: True
      have "log_ok (take (Suc n) xs @ es)" using Cons.prems(2) True ok by (blast intro: log_ok_shift)
      with True same get Cons.IH [of "Suc n"] show ?thesis by simp
    next
      case False
      obtain l1 where l1: "DeleteRange LS l (Index e) (last_of xs) = Some (l1, None)"
        "repr linv lmap l1 (take n xs)"
        using repr_delete [OF assms, of "Index e"] e by (auto simp: unat_pos)
      then obtain l2 where "StoreLogs LS l1 (e # es) = (l2, None)" "repr linv lmap l2 (take n xs @ e # es)"
        using repr_store [OF l1(2) Cons.prems(2)] by blast
      with False get l1 repr_last [OF assms] show ?thesis by simp
    qed
  next
    case False
    then have "n = length xs" using Cons.prems(1) by simp
    moreover from this obtain err where "GetLog LS l (Index e) = Inl err"
      using repr_get_None [OF assms, of "Index e"] e by auto
    ultimately show ?thesis
      using repr_store [OF assms, of "e # es"] Cons.prems(2) by auto
  qed
qed

text \<open>The scans for a term.\<close>

lemma term_at_get:
  assumes "repr linv lmap l xs" and "i \<noteq> 0" and "unat i \<le> length xs"
  shows "\<exists>e. GetLog LS l i = Inr e \<and> Term e = term_at xs (unat i)"
  using repr_get [OF assms] assms(2,3) by (simp add: term_at_def unat_pos)

lemma lastOfTerm_repr:
  assumes "repr linv lmap l xs"
  shows "unat i \<le> length xs \<Longrightarrow> j = lastOfTerm LS l t i \<Longrightarrow>
    unat j \<le> unat i \<and> (j \<noteq> 0 \<longrightarrow> term_at xs (unat j) = t) \<and>
    (\<forall>k. unat j < k \<and> k \<le> unat i \<longrightarrow> term_at xs k \<noteq> t)"
proof (induction "unat i" arbitrary: i)
  case 0
  then have "i = 0" by (simp add: unat_eq_zero)
  with 0 show ?case by (simp add: lastOfTerm.simps)
next
  case (Suc n)
  then have i: "1 \<le> i" "i \<noteq> 0" "unat (i - 1) = n" by (auto simp: word_le_nat_alt unat_pos unat_minus_one)
  obtain e where e: "GetLog LS l i = Inr e" "Term e = term_at xs (unat i)"
    using term_at_get [OF assms i(2) Suc.prems(1)] by blast
  show ?case
  proof (cases "Term e = t")
    case True
    then have "j = i" using Suc.prems(2) i e by (simp add: lastOfTerm.simps)
    with True i e show ?thesis by auto
  next
    case False
    then have "j = lastOfTerm LS l t (i - 1)" using Suc.prems(2) i e by (simp add: lastOfTerm.simps)
    then have "unat j \<le> n \<and> (j \<noteq> 0 \<longrightarrow> term_at xs (unat j) = t) \<and>
        (\<forall>k. unat j < k \<and> k \<le> n \<longrightarrow> term_at xs k \<noteq> t)"
      using Suc.hyps(1) [of "i - 1"] Suc.hyps(2) Suc.prems(1) i by simp
    moreover have "unat i = Suc n" using Suc.hyps(2) by simp
    ultimately show ?thesis using False e by (auto simp: le_Suc_eq)
  qed
qed

lemma firstOfTerm_repr:
  assumes "repr linv lmap l xs"
  shows "unat c = Suc (unat i) \<Longrightarrow> unat c \<le> length xs \<Longrightarrow> term_at xs (unat c) = t \<Longrightarrow>
    j = firstOfTerm LS l t i c \<Longrightarrow>
    j \<noteq> 0 \<and> unat j \<le> unat c \<and> (\<forall>k. unat j \<le> k \<and> k \<le> unat c \<longrightarrow> term_at xs k = t) \<and>
    (unat j = 1 \<or> term_at xs (unat j - 1) \<noteq> t)"
proof (induction "unat i" arbitrary: i c)
  case 0
  then have "i = 0" by (simp add: unat_eq_zero)
  with 0 show ?case by (auto simp: firstOfTerm.simps unat_pos le_Suc_eq)
next
  case (Suc n)
  then have i: "1 \<le> i" "i \<noteq> 0" "unat (i - 1) = n" by (auto simp: word_le_nat_alt unat_pos unat_minus_one)
  obtain e where e: "GetLog LS l i = Inr e" "Term e = term_at xs (unat i)"
    using term_at_get [OF assms i(2)] Suc.prems by auto
  show ?case
  proof (cases "Term e = t")
    case True
    then have "j = firstOfTerm LS l t (i - 1) i"
      using Suc.prems i e by (subst (asm) firstOfTerm.simps) simp
    then have "j \<noteq> 0 \<and> unat j \<le> unat i \<and> (\<forall>k. unat j \<le> k \<and> k \<le> unat i \<longrightarrow> term_at xs k = t) \<and>
        (unat j = 1 \<or> term_at xs (unat j - 1) \<noteq> t)"
    proof (rule Suc.hyps(1) [rotated 4])
      show "n = unat (i - 1)" "unat i = Suc (unat (i - 1))" using Suc.hyps(2) i(3) by simp_all
      show "unat i \<le> length xs" using Suc.prems(1,2) by simp
      show "term_at xs (unat i) = t" using e(2) True by simp
    qed
    moreover have "k \<le> unat i \<or> k = unat c" if "k \<le> unat c" for k
      using that Suc.prems(1) by (simp add: le_Suc_eq)
    ultimately show ?thesis using Suc.prems(1,3) by (metis le_SucI)
  next
    case False
    then have "j = c" using Suc.prems i e by (simp add: firstOfTerm.simps)
    with False e Suc.prems show ?thesis by (auto simp: unat_pos)
  qed
qed

text \<open>What the hint of a rejected request says about the follower's log.\<close>

lemma conflict_hint:
  assumes "repr linv lmap l xs" and "consistencyCheck LS l req = Some (t, c)"
  shows "length xs < unat (PrevLogIndex req) \<and> t = 0 \<and> unat c = Suc (length xs) \<or>
    unat (PrevLogIndex req) \<le> length xs \<and> t = term_at xs (unat (PrevLogIndex req)) \<and>
    t \<noteq> PrevLogTerm req \<and> 1 \<le> unat c \<and> unat c \<le> unat (PrevLogIndex req) \<and>
    (\<forall>k. unat c \<le> k \<and> k \<le> unat (PrevLogIndex req) \<longrightarrow> term_at xs k = t) \<and>
    (unat c = 1 \<or> term_at xs (unat c - 1) \<noteq> t)"
proof -
  let ?p = "PrevLogIndex req"
  have ok: "log_ok xs" using assms(1) by (simp add: repr_def)
  have "0 < ?p" using assms(2) by (simp add: consistencyCheck_def split: if_splits)
  then have p: "?p \<noteq> 0" "1 \<le> ?p" by (auto simp: word_le_nat_alt word_less_nat_alt unat_pos)
  show ?thesis
  proof (cases "length xs < unat ?p")
    case True
    then have "t = 0" "c = last_of xs + 1"
      using assms(2) repr_last [OF assms(1)] ok p
      by (auto simp: consistencyCheck_def word_less_nat_alt Let_def split: if_splits)
    moreover have "last_of xs < ?p" using True ok by (simp add: word_less_nat_alt)
    ultimately show ?thesis using True ok unat_add1 [of "last_of xs" ?p] by simp
  next
    case False
    then obtain e where e: "GetLog LS l ?p = Inr e" "Term e = term_at xs (unat ?p)"
      using term_at_get [OF assms(1) p(1)] by auto
    then have "t = Term e" "t \<noteq> PrevLogTerm req" "c = firstOfTerm LS l t (?p - 1) ?p"
      using assms(2) repr_last [OF assms(1)] ok p False
      by (auto simp: consistencyCheck_def word_less_nat_alt Let_def split: if_splits)
    moreover have "unat ?p = Suc (unat (?p - 1))" using word_sub1 [OF p(2)] by linarith
    ultimately show ?thesis
      using firstOfTerm_repr [OF assms(1), of ?p "?p - 1" t c] False e(2)
      unfolding unat_pos by (metis One_nat_def Suc_leI not_le)
  qed
qed

end

text \<open>
  The entries of a term come from the log of one leader, which appends at the end: where two logs
  have entries of a term, the later one has one at the earlier position too.
\<close>

definition same_origin :: "LogEntry list \<Rightarrow> LogEntry list \<Rightarrow> bool" where
  "same_origin xs ys \<longleftrightarrow>
     (\<forall>i j. 1 \<le> i \<and> i \<le> length xs \<and> i \<le> j \<and> j \<le> length ys \<and> term_at xs i = term_at ys j \<longrightarrow>
        term_at ys i = term_at xs i)"

lemma same_origin_code [code]:
  "same_origin xs ys \<longleftrightarrow>
     list_all (\<lambda>i. list_all (\<lambda>j. term_at xs i = term_at ys j \<longrightarrow> term_at ys i = term_at xs i)
       [i..<Suc (length ys)]) [1..<Suc (length xs)]"
  unfolding same_origin_def list_all_iff set_upt atLeastLessThan_iff Ball_def by (meson Suc_leI le_trans less_Suc_eq_le)

context log_store
begin

text \<open>A rejected request moves \<open>nextIndex\<close> strictly back, and never below one.\<close>

lemma backUp_progress:
  assumes "repr linv lmap lf xs" and "repr linv lmap ll ys" and "same_origin xs ys"
    and "consistencyCheck LS lf req = Some (ConflictTerm resp, ConflictIndex resp)"
    and "PrevLogTerm req = term_at ys (unat (PrevLogIndex req))"
  shows "1 \<le> unat (nextIndex (backUp LS ll resp peer)) \<and>
    unat (nextIndex (backUp LS ll resp peer)) \<le> unat (PrevLogIndex req)"
proof -
  let ?j = "lastOfTerm LS ll (ConflictTerm resp) (last_of ys)" and ?p = "PrevLogIndex req"
  have ok: "log_ok ys" using assms(2) by (simp add: repr_def)
  note hint = conflict_hint [OF assms(1,4)]
  have c: "1 \<le> unat (ConflictIndex resp)" "unat (ConflictIndex resp) \<le> unat ?p"
    using hint by (elim disjE conjE; linarith)+
  have j: "unat ?j \<le> length ys" "?j \<noteq> 0 \<longrightarrow> term_at ys (unat ?j) = ConflictTerm resp"
    using lastOfTerm_repr [OF assms(2), of "last_of ys" ?j] ok by auto
  have "unat ?j < unat ?p" if "ConflictTerm resp > 0" "?j \<noteq> 0"
  proof (rule ccontr)
    assume "\<not> unat ?j < unat ?p"
    moreover have p: "unat ?p \<le> length xs" "ConflictTerm resp = term_at xs (unat ?p)"
      "ConflictTerm resp \<noteq> PrevLogTerm req" using hint less_imp_neq [OF that(1)] by metis+
    moreover have "1 \<le> unat ?p" using c by linarith
    ultimately have "term_at ys (unat ?p) = term_at xs (unat ?p)"
      using j that(2) assms(3) unfolding same_origin_def by (metis not_le)
    then show False using p assms(5) by simp
  qed
  moreover have "unat (?j + 1) = Suc (unat ?j)" if "unat ?j < unat ?p"
    using that unat_add1 [of ?j ?p] by (simp add: word_less_nat_alt)
  moreover have "nextIndex (backUp LS ll resp peer) =
      (if ConflictTerm resp > 0 \<and> ?j > 0 then ?j + 1 else ConflictIndex resp)"
    if "ConflictTerm resp > 0 \<and> ?j > 0 \<Longrightarrow> 0 < unat (?j + 1)"
    using repr_last [OF assms(2)] c(1) that by (auto simp: backUp_def Let_def word_less_nat_alt)
  ultimately show ?thesis using c by (auto simp: word_neq_0_conv)
qed

text \<open>What the request carries.\<close>

lemma replicateOnce_request_repr:
  assumes "repr linv lmap (logStore r) ys" and "state r = Leader"
    and "nextIndex (peer_heap r ! p) \<noteq> 0" and "unat (nextIndex (peer_heap r ! p)) \<le> Suc (length ys)"
  shows "\<exists>req. replicateOnce_request LS r p = Some (Some req) \<and> ae_Term req = currentTerm r \<and>
    LeaderCommit req = commitIndex r \<and> LeaderID req = ServerID (config r) \<and>
    Suc (unat (PrevLogIndex req)) = unat (nextIndex (peer_heap r ! p)) \<and>
    PrevLogTerm req = term_at ys (unat (PrevLogIndex req)) \<and>
    Entries req = drop (unat (PrevLogIndex req)) ys"
proof -
  let ?n = "nextIndex (peer_heap r ! p)"
  have ok: "log_ok ys" using assms(1) by (simp add: repr_def)
  have "1 \<le> ?n" using assms(3) by (simp add: word_le_nat_alt unat_pos Suc_le_eq)
  then have n: "Suc (unat (?n - 1)) = unat ?n" "unat ?n - 1 = unat (?n - 1)"
    using word_sub1 [of ?n] by linarith+
  have t: "(if 0 < ?n - 1 then case GetLog LS (logStore r) (?n - 1) of Inl _ \<Rightarrow> 0 | Inr e \<Rightarrow> Term e else 0)
      = term_at ys (unat (?n - 1))"
  proof (cases "?n - 1 = 0")
    case False
    then obtain e where "GetLog LS (logStore r) (?n - 1) = Inr e" "Term e = term_at ys (unat (?n - 1))"
      using term_at_get [OF assms(1)] n assms(4) by fastforce
    moreover have "0 < ?n - 1" using False by (simp only: word_neq_0_conv)
    ultimately show ?thesis by simp
  qed (simp add: term_at_def)
  have es: "(if ?n \<le> last_of ys then collect LS (logStore r) ?n (last_of ys) [] else Some []) =
      Some (drop (unat (?n - 1)) ys)"
    using collect_repr [OF assms(1,3), of "[]", unfolded n(2)] n(1) ok assms(4)
    by (auto simp: word_le_nat_alt)
  show ?thesis
    using assms(2) n(1) t es repr_last [OF assms(1)] by (simp add: replicateOnce_request_def Let_def)
qed

text \<open>A request that is not stale: accepted or rejected as the consistency check says.\<close>

lemma handleAppendEntries_accept:
  assumes "repr linv lmap (logStore r) xs" and "\<not> ae_Term req < currentTerm r" and "prev_ok xs req"
    and "log_ok (take (unat (PrevLogIndex req)) xs @ Entries req)"
  shows "\<exists>l. handleAppendEntries LS SS r req =
      Some (updateCommit LS (LeaderCommit req) ((acceptLeader SS req r)\<lparr>logStore := l\<rparr>),
            \<lparr>aer_Term = currentTerm (acceptLeader SS req r), Success = True, ConflictTerm = 0,
             ConflictIndex = 0\<rparr>, True) \<and>
    repr linv lmap l (mergeLog (unat (PrevLogIndex req)) xs (Entries req))"
proof -
  have "unat (PrevLogIndex req) \<le> length xs" using assms(3) by (auto simp: prev_ok_def)
  then obtain l where "appendEntries LS (logStore r) (Entries req) = Some (l, True)"
      "repr linv lmap l (mergeLog (unat (PrevLogIndex req)) xs (Entries req))"
    using appendEntries_repr [OF assms(1) _ assms(4)] by blast
  moreover have "consistencyCheck LS (logStore r) req = None"
    using consistencyCheck_repr [OF assms(1)] assms(3) by simp
  ultimately show ?thesis
    using assms(2) by (intro exI [of _ l]) (simp add: handleAppendEntries_def Let_def)
qed

lemma handleAppendEntries_reject:
  assumes "repr linv lmap (logStore r) xs" and "\<not> ae_Term req < currentTerm r" and "\<not> prev_ok xs req"
  shows "\<exists>t c. consistencyCheck LS (logStore r) req = Some (t, c) \<and>
    handleAppendEntries LS SS r req =
      Some (acceptLeader SS req r,
            \<lparr>aer_Term = currentTerm (acceptLeader SS req r), Success = False, ConflictTerm = t,
             ConflictIndex = c\<rparr>, True)"
proof -
  obtain t c where "consistencyCheck LS (logStore r) req = Some (t, c)"
    using consistencyCheck_repr [OF assms(1)] assms(3) by force
  then show ?thesis using assms(2) by (simp add: handleAppendEntries_def Let_def)
qed

end

section \<open>What advancing the commit index means\<close>

lemma sorted_nth_count:
  fixes s :: "'a::linorder list"
  assumes "sorted s" and "k < length s"
  shows "c \<le> s ! k \<longleftrightarrow> length s - k \<le> length (filter (\<lambda>m. c \<le> m) s)"
proof
  assume c: "c \<le> s ! k"
  have "\<forall>m \<in> set (drop k s). c \<le> m"
  proof
    fix m assume "m \<in> set (drop k s)"
    then obtain i where "i < length s - k" "m = s ! (k + i)" by (auto simp: in_set_conv_nth)
    moreover have "s ! k \<le> s ! (k + i)"
      using calculation(1) by (intro sorted_nth_mono [OF assms(1)]) simp_all
    ultimately show "c \<le> m" using c by simp
  qed
  then have "filter (\<lambda>m. c \<le> m) (drop k s) = drop k s" by simp
  then have "length (filter (\<lambda>m. c \<le> m) (take k s @ drop k s)) \<ge> length s - k"
    by (simp only: filter_append length_append length_drop)
  then show "length s - k \<le> length (filter (\<lambda>m. c \<le> m) s)" by simp
next
  assume le: "length s - k \<le> length (filter (\<lambda>m. c \<le> m) s)"
  show "c \<le> s ! k"
  proof (rule ccontr)
    assume c: "\<not> c \<le> s ! k"
    have "\<forall>m \<in> set (take (Suc k) s). \<not> c \<le> m"
    proof
      fix m assume "m \<in> set (take (Suc k) s)"
      then obtain i where "i \<le> k" "m = s ! i" by (auto simp: in_set_conv_nth less_Suc_eq_le)
      moreover have "s ! i \<le> s ! k" using calculation(1) assms(2) by (intro sorted_nth_mono [OF assms(1)])
      ultimately show "\<not> c \<le> m" using c by simp
    qed
    then have none: "filter (\<lambda>m. c \<le> m) (take (Suc k) s) = []" by (simp add: filter_empty_conv)
    have "length (filter (\<lambda>m. c \<le> m) (take (Suc k) s @ drop (Suc k) s)) \<le> length s - Suc k"
      unfolding filter_append none using length_filter_le [of "\<lambda>m. c \<le> m" "drop (Suc k) s"] by simp
    with le assms(2) show False by simp
  qed
qed

text \<open>The value picked from the sorted sequence is the largest that more than half of the values reach.\<close>

lemma majorityMatch_iff:
  assumes "ms \<noteq> []"
  shows "c \<le> majorityMatch ms \<longleftrightarrow> length ms < 2 * length (filter (\<lambda>m. c \<le> m) ms)"
proof -
  let ?n = "length ms"
  have k: "?n - Suc (?n div 2) < ?n" "?n - (?n - Suc (?n div 2)) = Suc (?n div 2)"
  proof -
    have "0 < ?n" using assms by simp
    then have "Suc (?n div 2) \<le> ?n" by linarith
    then show "?n - Suc (?n div 2) < ?n" "?n - (?n - Suc (?n div 2)) = Suc (?n div 2)" by simp_all
  qed
  have "majorityMatch ms = sort ms ! (?n - Suc (?n div 2))"
    using assms by (simp add: majorityMatch_def rev_nth)
  then have "c \<le> majorityMatch ms \<longleftrightarrow> Suc (?n div 2) \<le> length (filter (\<lambda>m. c \<le> m) (sort ms))"
    using sorted_nth_count [of "sort ms" "?n - Suc (?n div 2)" c] k by simp
  also have "length (filter (\<lambda>m. c \<le> m) (sort ms)) = length (filter (\<lambda>m. c \<le> m) ms)"
    by (simp add: filter_sort)
  finally show ?thesis by linarith
qed

definition majority_reached :: "'l LogStore \<Rightarrow> ('l, 's, 'f, 'r) RaftNode \<Rightarrow> u64 \<Rightarrow> bool" where
  "majority_reached LS r c \<longleftrightarrow> length (matches LS r) < 2 * length (filter (\<lambda>m. c \<le> m) (matches LS r))"

lemma majority_reached_iff: "majority_reached LS r c \<longleftrightarrow> c \<le> majorityMatch (matches LS r)"
  by (subst majorityMatch_iff) (simp_all add: matches_def majority_reached_def)

lemma advanceCommitIndex_cases:
  obtains (same) "advanceCommitIndex LS r = r"
  | (advance) e where "commitIndex r < majorityMatch (matches LS r)"
      "GetLog LS (logStore r) (majorityMatch (matches LS r)) = Inr e" "Term e = currentTerm r"
      "advanceCommitIndex LS r = notifyCommit (r\<lparr>commitIndex := majorityMatch (matches LS r)\<rparr>)"
proof (cases "commitIndex r < majorityMatch (matches LS r) \<and>
    (\<exists>e. GetLog LS (logStore r) (majorityMatch (matches LS r)) = Inr e \<and> Term e = currentTerm r)")
  case True
  then show thesis using advance by (auto simp: advanceCommitIndex_def Let_def)
next
  case False
  then have "advanceCommitIndex LS r = r"
    by (auto simp: advanceCommitIndex_def Let_def split: sum.split)
  then show thesis by (rule same)
qed

lemma advanceCommitIndex_fields [simp]:
  "config (advanceCommitIndex LS r) = config r" "currentTerm (advanceCommitIndex LS r) = currentTerm r"
  "votedFor (advanceCommitIndex LS r) = votedFor r" "logStore (advanceCommitIndex LS r) = logStore r"
  "stableStore (advanceCommitIndex LS r) = stableStore r" "state (advanceCommitIndex LS r) = state r"
  "lastApplied (advanceCommitIndex LS r) = lastApplied r" "peers (advanceCommitIndex LS r) = peers r"
  "peer_heap (advanceCommitIndex LS r) = peer_heap r"
  by (cases rule: advanceCommitIndex_cases [of LS r]; simp)+

lemma advanceCommitIndex_mono: "commitIndex r \<le> commitIndex (advanceCommitIndex LS r)"
  by (cases rule: advanceCommitIndex_cases [of LS r]) simp_all

text \<open>
  C23. \<open>advanceCommitIndex\<close> changes nothing but the commit index, and sets it only to an index that
  is larger, that more than half of the replicas (the node itself among them) have matched, whose
  entry is in the log with the node's current term, and beyond which there is no majority. It leaves
  the commit index where it is only if no larger index has a majority or the entry at the largest
  such index is missing or of another term.
\<close>

theorem advanceCommitIndex_majority:
  "let r' = advanceCommitIndex LS r; c = majorityMatch (matches LS r) in
   (\<forall>i. majority_reached LS r i = (i \<le> c)) \<and>
   (if commitIndex r < c \<and> (case GetLog LS (logStore r) c of Inl _ \<Rightarrow> False | Inr e \<Rightarrow> Term e = currentTerm r)
    then r' = r\<lparr>commitIndex := c, commitNotifyCh := True\<rparr>
    else r' = r)"
  by (auto simp: majority_reached_iff advanceCommitIndex_def notifyCommit_def Let_def split: sum.splits)

end
