(* ===== verification/Raft_Apply.thy ===== *)
theory Raft_Apply
  imports Raft_Log
begin

text \<open>
  The path of a client command through \<^verbatim>\<open>src/internal/raft/raft.go\<close>: \<open>Apply\<close> hands it to the leader
  loop with a future, \<open>handleApplyRequest\<close> appends it to the log, \<open>applyCommitted\<close> runs the committed
  entries through the state machine and resolves the futures, \<open>failPendingFutures\<close> and \<open>Shutdown\<close>
  resolve those that are left. The state machine is an argument, a value of type \<open>FSM\<close>.
\<close>

text \<open>\<^verbatim>\<open>FSM.Apply\<close>: \<open>None\<close> when the call does not return.\<close>

type_synonym ('f, 'r) FSM = "'f \<Rightarrow> bytes \<Rightarrow> ('f \<times> 'r) outcome option"

section \<open>Operations\<close>

definition respondFuture :: "nat \<Rightarrow> raft_error option \<Rightarrow> 'r option \<Rightarrow> ('l, 's, 'f, 'r) RaftNode \<Rightarrow>
    ('l, 's, 'f, 'r) RaftNode" where
  "respondFuture p err response r =
     r\<lparr>futures := (futures r)[p := respond (futures r ! p) err response]\<rparr>"

text \<open>
  The \<^verbatim>\<open>select\<close> of \<open>Apply\<close> takes one of three ways; a way is open as \<open>applyWayOpen\<close> says (the
  channel holds 256 requests).
\<close>

datatype applyWay = Enqueued | TimedOut | SawShutdown

definition applyWayOpen :: "('l, 's, 'f, 'r) RaftNode \<Rightarrow> applyWay \<Rightarrow> bool" where
  "applyWayOpen r w =
     (case w of Enqueued \<Rightarrow> length (applyCh r) < 256 | TimedOut \<Rightarrow> True | SawShutdown \<Rightarrow> shutdownCh r)"

definition node_Apply :: "('l, 's, 'f, 'r) RaftNode \<Rightarrow> bytes \<Rightarrow> applyWay \<Rightarrow>
    ('l, 's, 'f, 'r) RaftNode \<times> nat" where
  "node_Apply r data w =
     (let future = length (futures r);
          r1 = r\<lparr>futures := futures r @ [newApplyFuture]\<rparr>
      in if state r \<noteq> Leader then (respondFuture future (Some ErrNotLeader) None r1, future)
         else case w of
             Enqueued \<Rightarrow> (r1\<lparr>applyCh := applyCh r @ [\<lparr>req_data = data, req_future = future\<rparr>]\<rparr>, future)
           | TimedOut \<Rightarrow> (respondFuture future (Some ErrTimeout) None r1, future)
           | SawShutdown \<Rightarrow> (respondFuture future (Some ErrShutdown) None r1, future))"

text \<open>The goroutine that \<open>Apply\<close> leaves behind: the timeout, or the shutdown, whichever comes first.\<close>

definition applyExpired :: "nat \<Rightarrow> bool \<Rightarrow> ('l, 's, 'f, 'r) RaftNode \<Rightarrow> ('l, 's, 'f, 'r) RaftNode" where
  "applyExpired future timedOut r =
     respondFuture future (Some (if timedOut then ErrTimeout else ErrShutdown)) None r"

definition handleApplyRequest :: "'l LogStore \<Rightarrow> applyRequest \<Rightarrow> ('l, 's, 'f, 'r) RaftNode \<Rightarrow>
    ('l, 's, 'f, 'r) RaftNode" where
  "handleApplyRequest LS req r =
     (if state r \<noteq> Leader then respondFuture (req_future req) (Some ErrNotLeader) None r
      else
        let lastIdx = fst (LastIndex LS (logStore r));
            entry = \<lparr>Index = lastIdx + 1, Term = currentTerm r, Data = req_data req\<rparr>
        in case StoreLog LS (logStore r) entry of
            (l, Some err) \<Rightarrow>
              respondFuture (req_future req) (Some (ErrStoreLog err)) None (r\<lparr>logStore := l\<rparr>)
          | (l, None) \<Rightarrow>
              triggerReplication
                (r\<lparr>logStore := l,
                   pendingFutures := AList.update (Index entry) (req_future req) (pendingFutures r)\<rparr>))"

text \<open>The loop over \<open>pendingFutures\<close> that resolves every future and empties the map.\<close>

definition failAll :: "raft_error \<Rightarrow> ('l, 's, 'f, 'r) RaftNode \<Rightarrow> ('l, 's, 'f, 'r) RaftNode" where
  "failAll err r =
     (foldl (\<lambda>q p. respondFuture p (Some err) None q) r (map snd (pendingFutures r)))\<lparr>pendingFutures := []\<rparr>"

definition failPendingFutures :: "('l, 's, 'f, 'r) RaftNode \<Rightarrow> ('l, 's, 'f, 'r) RaftNode" where
  "failPendingFutures r = failAll ErrLeaderLost r"

definition node_Shutdown :: "('l, 's, 'f, 'r) RaftNode \<Rightarrow> ('l, 's, 'f, 'r) RaftNode" where
  "node_Shutdown r =
     (if shutdownCh r then r else failAll ErrShutdown (r\<lparr>shutdownCh := True, state := Follower\<rparr>))"

text \<open>One round of the loop of \<open>applyCommitted\<close>: an entry that cannot be read is skipped.\<close>

definition applyEntry :: "'l LogStore \<Rightarrow> ('f, 'r) FSM \<Rightarrow> u64 \<Rightarrow> ('l, 's, 'f, 'r) RaftNode \<Rightarrow>
    ('l, 's, 'f, 'r) RaftNode outcome option" where
  "applyEntry LS A idx r =
     (case GetLog LS (logStore r) idx of
        Inl _ \<Rightarrow> Some (Ret r)
      | Inr entry \<Rightarrow>
          (case (if length (Data entry) > 0
                 then map_option (\<lambda>out. bind_outcome out (\<lambda>(f, x). Ret (f, Some x)))
                        (A (node_fsm r) (Data entry))
                 else Some (Ret (node_fsm r, None))) of
             None \<Rightarrow> None
           | Some Panic \<Rightarrow> Some Panic
           | Some (Ret (f, response)) \<Rightarrow>
               let r1 = r\<lparr>node_fsm := f, lastApplied := idx\<rparr> in
               Some (Ret (case map_of (pendingFutures r1) idx of
                   None \<Rightarrow> r1
                 | Some p \<Rightarrow>
                     (respondFuture p None response r1)
                       \<lparr>pendingFutures := AList.delete idx (pendingFutures r1)\<rparr>))))"

partial_function (option) applyFrom :: "'l LogStore \<Rightarrow> ('f, 'r) FSM \<Rightarrow> u64 \<Rightarrow> u64 \<Rightarrow>
    ('l, 's, 'f, 'r) RaftNode \<Rightarrow> ('l, 's, 'f, 'r) RaftNode outcome option" where
  [code]: "applyFrom LS A idx commit r =
     (if idx \<le> commit
      then case applyEntry LS A idx r of
          None \<Rightarrow> None
        | Some Panic \<Rightarrow> Some Panic
        | Some (Ret r1) \<Rightarrow> applyFrom LS A (idx + 1) commit r1
      else Some (Ret r))"

definition applyCommitted :: "'l LogStore \<Rightarrow> ('f, 'r) FSM \<Rightarrow> ('l, 's, 'f, 'r) RaftNode \<Rightarrow>
    ('l, 's, 'f, 'r) RaftNode outcome option" where
  "applyCommitted LS A r = applyFrom LS A (lastApplied r + 1) (commitIndex r) r"

section \<open>The state machine follows the log\<close>

text \<open>The specification: the state machine after a list of entries, empty entries skipped.\<close>

fun run_fsm :: "('f, 'r) FSM \<Rightarrow> 'f \<Rightarrow> LogEntry list \<Rightarrow> 'f outcome option" where
  "run_fsm A f [] = Some (Ret f)"
| "run_fsm A f (e # es) =
     (if Data e = [] then run_fsm A f es
      else case A f (Data e) of
          None \<Rightarrow> None
        | Some Panic \<Rightarrow> Some Panic
        | Some (Ret (f', x)) \<Rightarrow> run_fsm A f' es)"

lemma run_fsm_append:
  "run_fsm A f (xs @ ys) =
     (case run_fsm A f xs of None \<Rightarrow> None | Some Panic \<Rightarrow> Some Panic | Some (Ret f') \<Rightarrow> run_fsm A f' ys)"
  by (induction xs arbitrary: f) (auto split: option.splits outcome.splits)

text \<open>A node has applied the first \<open>lastApplied\<close> entries of its log to the state machine.\<close>

definition applied :: "('f, 'r) FSM \<Rightarrow> 'f \<Rightarrow> LogEntry list \<Rightarrow> ('l, 's, 'f, 'r) RaftNode \<Rightarrow> bool" where
  "applied A f0 xs r \<longleftrightarrow>
     unat (lastApplied r) \<le> length xs \<and>
     run_fsm A f0 (take (unat (lastApplied r)) xs) = Some (Ret (node_fsm r))"

lemma respondFuture_fields [simp]:
  "config (respondFuture p e x r) = config r" "currentTerm (respondFuture p e x r) = currentTerm r"
  "votedFor (respondFuture p e x r) = votedFor r" "logStore (respondFuture p e x r) = logStore r"
  "stableStore (respondFuture p e x r) = stableStore r" "state (respondFuture p e x r) = state r"
  "commitIndex (respondFuture p e x r) = commitIndex r" "lastApplied (respondFuture p e x r) = lastApplied r"
  "peers (respondFuture p e x r) = peers r" "peer_heap (respondFuture p e x r) = peer_heap r"
  "node_fsm (respondFuture p e x r) = node_fsm r" "shutdownCh (respondFuture p e x r) = shutdownCh r"
  "pendingFutures (respondFuture p e x r) = pendingFutures r"
  "applyCh (respondFuture p e x r) = applyCh r" "length (futures (respondFuture p e x r)) = length (futures r)"
  by (simp_all add: respondFuture_def)

text \<open>Where the entry is there and the state machine returns.\<close>

lemma applyEntry_ok:
  assumes "GetLog LS (logStore r) idx = Inr e" and "run_fsm A (node_fsm r) [e] = Some (Ret f)"
  shows "\<exists>r'. applyEntry LS A idx r = Some (Ret r') \<and> node_fsm r' = f \<and> lastApplied r' = idx \<and>
    logStore r' = logStore r \<and> commitIndex r' = commitIndex r \<and>
    map_of (pendingFutures r') = (map_of (pendingFutures r))(idx := None) \<and>
    length (futures r') = length (futures r)"
  using assms by (auto simp: applyEntry_def Let_def AList.delete_conv' split: option.splits outcome.splits if_splits)

context log_store
begin

lemma applyFrom_ok:
  assumes "repr linv lmap (logStore r) xs" and "unat commit \<le> length xs"
    and "applied A f0 xs r" and "idx = lastApplied r + 1"
    and "unat (lastApplied r) \<le> unat commit"
    and "run_fsm A f0 (take (unat commit) xs) = Some (Ret f)"
  shows "\<exists>r'. applyFrom LS A idx commit r = Some (Ret r') \<and> applied A f0 xs r' \<and> node_fsm r' = f \<and>
    lastApplied r' = commit \<and> logStore r' = logStore r \<and> commitIndex r' = commitIndex r \<and>
    map_of (pendingFutures r') = map_of (pendingFutures r) |` (- {i. lastApplied r < i \<and> i \<le> commit})"
  using assms
proof (induction "unat commit - unat (lastApplied r)" arbitrary: r idx)
  case 0
  then have eq: "lastApplied r = commit" by (simp add: word_unat_eq_iff)
  have "commit < - 1"
    using 0 by (simp add: word_less_nat_alt repr_def log_ok_def unsigned_minus_1_eq_mask mask_eq_exp_minus_1)
  then have "\<not> idx \<le> commit" using 0 eq less_add1 [of commit "- 1"] by simp
  then have "applyFrom LS A idx commit r = Some (Ret r)" by (subst applyFrom.simps) simp
  moreover have "- {i. lastApplied r < i \<and> i \<le> commit} = UNIV" using eq by auto
  ultimately show ?case using 0 eq by (simp add: applied_def)
next
  case (Suc k)
  let ?n = "unat (lastApplied r)"
  have lt: "?n < unat commit" using Suc.hyps(2) by simp
  then have less: "lastApplied r < commit" by (simp add: word_less_nat_alt)
  have idx: "unat idx = Suc ?n" using Suc.prems(4) unat_add1 [OF less] by simp
  have get: "GetLog LS (logStore r) idx = Inr (xs ! ?n)"
    using repr_get [OF Suc.prems(1), of idx] idx lt Suc.prems(2) by (simp add: unat_pos)
  have "take (unat commit) xs = take ?n xs @ [xs ! ?n] @ drop (Suc ?n) (take (unat commit) xs)"
    using lt Suc.prems(2) id_take_nth_drop [of ?n "take (unat commit) xs"] by (simp add: min_def)
  then have "run_fsm A f0 (take ?n xs @ [xs ! ?n] @ drop (Suc ?n) (take (unat commit) xs)) = Some (Ret f)"
    using Suc.prems(6) by simp
  then obtain f1 where f1: "run_fsm A (node_fsm r) [xs ! ?n] = Some (Ret f1)"
    using Suc.prems(3)
    by (auto simp only: applied_def run_fsm_append split: option.splits outcome.splits)
  then have f1': "run_fsm A f0 (take (Suc ?n) xs) = Some (Ret f1)"
    using Suc.prems(2,3) lt by (simp add: take_Suc_conv_app_nth run_fsm_append applied_def)
  obtain r1 where r1: "applyEntry LS A idx r = Some (Ret r1)" "node_fsm r1 = f1" "lastApplied r1 = idx"
    "logStore r1 = logStore r" "commitIndex r1 = commitIndex r"
    "map_of (pendingFutures r1) = (map_of (pendingFutures r))(idx := None)"
    using applyEntry_ok [OF get f1] by blast
  have "applied A f0 xs r1" using r1 f1' idx lt Suc.prems(2) by (simp add: applied_def)
  then have "\<exists>r'. applyFrom LS A (idx + 1) commit r1 = Some (Ret r') \<and> applied A f0 xs r' \<and> node_fsm r' = f \<and>
      lastApplied r' = commit \<and> logStore r' = logStore r1 \<and> commitIndex r' = commitIndex r1 \<and>
      map_of (pendingFutures r') = map_of (pendingFutures r1) |` (- {i. lastApplied r1 < i \<and> i \<le> commit})"
    using Suc.prems Suc.hyps(2) r1 idx lt by (intro Suc.hyps(1)) auto
  moreover have "applyFrom LS A idx commit r = applyFrom LS A (idx + 1) commit r1"
    using idx lt r1(1) by (subst applyFrom.simps) (simp add: word_le_nat_alt)
  moreover have "(m(idx := None)) |` (- {i. idx < i \<and> i \<le> commit}) =
      m |` (- {i. lastApplied r < i \<and> i \<le> commit})" for m :: "u64 \<rightharpoonup> nat"
  proof
    fix i
    have "i = idx \<longleftrightarrow> unat i = Suc ?n" using idx by (simp add: word_unat_eq_iff)
    then show "((m(idx := None)) |` (- {i. idx < i \<and> i \<le> commit})) i =
        (m |` (- {i. lastApplied r < i \<and> i \<le> commit})) i"
      using idx lt by (auto simp: restrict_map_def word_less_nat_alt word_le_nat_alt)
  qed
  ultimately show ?case using r1 by simp
qed

end

end
