(* ===== verification/Raft_Process.thy ===== *)
theory Raft_Process
  imports Raft_Replication Raft_Apply
begin

text \<open>
  The goroutines of a node in \<^verbatim>\<open>src/internal/raft/raft.go\<close> and \<^verbatim>\<open>replication.go\<close> as a step relation: \<open>run\<close>
  with \<open>runFollower\<close>, \<open>runCandidate\<close> and \<open>runLeader\<close>, the replicators, the apply loop, the callers of
  \<open>Apply\<close> and \<open>Shutdown\<close>. A step is one critical section of one goroutine, so that the runs of the
  relation are the interleavings of the goroutines; only where the goroutine of \<open>run\<close> has short critical
  sections in a row (the read of the role and what it decides, the two halves of a received vote, the
  failing of the pending futures when a leadership ends) are they taken as one step. The label of a
  step says what it exchanges with the outside.
\<close>

section \<open>Processes\<close>

text \<open>
  Where the goroutine of \<open>run\<close> is: at the head of its loop; waiting in the \<^verbatim>\<open>select\<close> of \<open>runFollower\<close>;
  in \<open>runCandidate\<close> after \<open>startElection\<close>, and waiting there for votes, with the request sent and the
  voters whose granted votes have been counted; in \<open>runLeader\<close> after the initialization, and waiting
  there; returned.
\<close>

datatype pc =
    Top | InFollower
  | ElectionStarted RequestVoteRequest | InCandidate RequestVoteRequest "string list"
  | LeaderReady | InLeader | Stopped

text \<open>\<open>applying\<close> is the loop variable and the bound of a running \<open>applyCommitted\<close>.\<close>

record ('l, 's, 'f, 'r) Process =
  node :: "('l, 's, 'f, 'r) RaftNode"
  pc :: pc
  applying :: "(u64 \<times> u64) option"

datatype label =
    Internal
  | SendVoteRequests RequestVoteRequest
  | ReceiveVote string RequestVoteResponse
  | ServeRPC Command RPCResponse
  | SendAppend nat AppendEntriesRequest
  | ReceiveAppendReply nat "LogEntry list" AppendEntriesResponse
  | ClientCall

text \<open>The loop conditions of the three roles, evaluated at the end of a round.\<close>

definition follower_next :: "('l, 's, 'f, 'r) RaftNode \<Rightarrow> pc" where
  "follower_next r = (if state r = Follower then InFollower else Top)"

definition candidate_next :: "('l, 's, 'f, 'r) RaftNode \<Rightarrow> RequestVoteRequest \<Rightarrow> string list \<Rightarrow> pc" where
  "candidate_next r req voters = (if state r = Candidate then InCandidate req voters else Top)"

definition leader_next :: "('l, 's, 'f, 'r) RaftNode \<Rightarrow> ('l, 's, 'f, 'r) RaftNode \<times> pc" where
  "leader_next r = (if state r = Leader then (r, InLeader) else (failPendingFutures r, Top))"

definition peer_ids :: "('l, 's, 'f, 'r) RaftNode \<Rightarrow> string set" where
  "peer_ids r = ID ` set (Peers (config r)) - {ServerID (config r)}"

inductive pstep :: "'l LogStore \<Rightarrow> 's StableStore \<Rightarrow> ('f, 'r) FSM \<Rightarrow>
    ('l, 's, 'f, 'r) Process \<Rightarrow> label \<Rightarrow> ('l, 's, 'f, 'r) Process \<Rightarrow> bool"
  for LS SS A where
  \<comment> \<open>\<open>run\<close>\<close>
  run_stop: "pc P = Top \<Longrightarrow> shutdownCh (node P) \<Longrightarrow> pstep LS SS A P Internal (P\<lparr>pc := Stopped\<rparr>)"
| run_follower: "pc P = Top \<Longrightarrow> state (node P) = Follower \<Longrightarrow>
    pstep LS SS A P Internal (P\<lparr>pc := InFollower\<rparr>)"
| run_candidate: "pc P = Top \<Longrightarrow> state (node P) = Candidate \<Longrightarrow>
    startElection LS SS (node P) = (r, req, targets) \<Longrightarrow>
    pstep LS SS A P (SendVoteRequests req) (P\<lparr>node := r, pc := ElectionStarted req\<rparr>)"
| run_leader: "pc P = Top \<Longrightarrow> state (node P) = Leader \<Longrightarrow>
    pstep LS SS A P Internal (P\<lparr>node := initLeader LS (node P), pc := LeaderReady\<rparr>)"
  \<comment> \<open>\<open>runFollower\<close>\<close>
| follower_rpc: "pc P = InFollower \<Longrightarrow> handleRPC LS SS (node P) cmd = Some (r, resp, reset) \<Longrightarrow>
    pstep LS SS A P (ServeRPC cmd resp) (P\<lparr>node := r, pc := follower_next r\<rparr>)"
| follower_timeout: "pc P = InFollower \<Longrightarrow>
    pstep LS SS A P Internal (P\<lparr>node := electionTimeout (node P), pc := Top\<rparr>)"
| follower_shutdown: "pc P = InFollower \<Longrightarrow> shutdownCh (node P) \<Longrightarrow>
    pstep LS SS A P Internal (P\<lparr>pc := Top\<rparr>)"
  \<comment> \<open>\<open>runCandidate\<close>\<close>
| candidate_start: "pc P = ElectionStarted req \<Longrightarrow> immediateMajority (node P) = (r, won) \<Longrightarrow>
    pstep LS SS A P Internal (P\<lparr>node := r, pc := (if won then Top else candidate_next r req [])\<rparr>)"
| candidate_vote: "pc P = InCandidate req voters \<Longrightarrow> v \<in> peer_ids (node P) \<Longrightarrow> v \<notin> set voters \<Longrightarrow>
    receiveVote SS (node P) (Suc (length voters)) vote = (r, votes, left) \<Longrightarrow>
    pstep LS SS A P (ReceiveVote v vote)
      (P\<lparr>node := r,
         pc := (if left then Top
                else candidate_next r req (if VoteGranted vote then v # voters else voters))\<rparr>)"
| candidate_rpc: "pc P = InCandidate req voters \<Longrightarrow> handleRPC LS SS (node P) cmd = Some (r, resp, reset) \<Longrightarrow>
    pstep LS SS A P (ServeRPC cmd resp) (P\<lparr>node := r, pc := candidate_next r req voters\<rparr>)"
| candidate_timeout: "pc P = InCandidate req voters \<Longrightarrow> pstep LS SS A P Internal (P\<lparr>pc := Top\<rparr>)"
  \<comment> \<open>\<open>runLeader\<close>\<close>
| leader_start: "pc P = LeaderReady \<Longrightarrow> leader_next (appendNoOp LS (node P)) = (r, pc') \<Longrightarrow>
    pstep LS SS A P Internal (P\<lparr>node := r, pc := pc'\<rparr>)"
| leader_rpc: "pc P = InLeader \<Longrightarrow> handleRPC LS SS (node P) cmd = Some (r1, resp, reset) \<Longrightarrow>
    leader_next r1 = (r, pc') \<Longrightarrow> pstep LS SS A P (ServeRPC cmd resp) (P\<lparr>node := r, pc := pc'\<rparr>)"
| leader_apply: "pc P = InLeader \<Longrightarrow> applyCh (node P) = req # reqs \<Longrightarrow>
    leader_next (handleApplyRequest LS req ((node P)\<lparr>applyCh := reqs\<rparr>)) = (r, pc') \<Longrightarrow>
    pstep LS SS A P Internal (P\<lparr>node := r, pc := pc'\<rparr>)"
| leader_shutdown: "pc P = InLeader \<Longrightarrow> shutdownCh (node P) \<Longrightarrow>
    pstep LS SS A P Internal (P\<lparr>node := failPendingFutures (node P), pc := Top\<rparr>)"
  \<comment> \<open>\<open>runReplicator\<close>, of this leadership or an earlier one\<close>
| replicate_send: "p < length (peer_heap (node P)) \<Longrightarrow>
    replicateOnce_request LS (node P) p = Some (Some req) \<Longrightarrow> pstep LS SS A P (SendAppend p req) P"
| replicate_reply: "p < length (peer_heap (node P)) \<Longrightarrow>
    pstep LS SS A P (ReceiveAppendReply p entries resp)
      (P\<lparr>node := replicateOnce_response LS SS (node P) p entries resp\<rparr>)"
  \<comment> \<open>\<open>applyLoop\<close>; a panic of the state machine is a step of the whole server, in theory \<open>Server_Node\<close>\<close>
| apply_start: "applying P = None \<Longrightarrow> commitNotifyCh (node P) \<Longrightarrow>
    pstep LS SS A P Internal
      (P\<lparr>node := (node P)\<lparr>commitNotifyCh := False\<rparr>,
         applying := Some (lastApplied (node P) + 1, commitIndex (node P))\<rparr>)"
| apply_entry: "applying P = Some (idx, commit) \<Longrightarrow> idx \<le> commit \<Longrightarrow>
    applyEntry LS A idx (node P) = Some (Ret r) \<Longrightarrow>
    pstep LS SS A P Internal (P\<lparr>node := r, applying := Some (idx + 1, commit)\<rparr>)"
| apply_done: "applying P = Some (idx, commit) \<Longrightarrow> \<not> idx \<le> commit \<Longrightarrow>
    pstep LS SS A P Internal (P\<lparr>applying := None\<rparr>)"
  \<comment> \<open>callers\<close>
| client_apply: "applyWayOpen (node P) way \<Longrightarrow> node_Apply (node P) data way = (r, future) \<Longrightarrow>
    pstep LS SS A P ClientCall (P\<lparr>node := r\<rparr>)"
| client_expired: "future < length (futures (node P)) \<Longrightarrow>
    pstep LS SS A P ClientCall (P\<lparr>node := applyExpired future timedOut (node P)\<rparr>)"
| client_wait: "future_Error (futures (node P) ! future) = Some (f, e) \<Longrightarrow>
    pstep LS SS A P ClientCall (P\<lparr>node := (node P)\<lparr>futures := (futures (node P))[future := f]\<rparr>\<rparr>)"
| shutdown: "pstep LS SS A P ClientCall (P\<lparr>node := node_Shutdown (node P)\<rparr>)"

text \<open>A node that starts: \<open>NewRaftNode\<close> has returned it and \<open>run\<close> begins.\<close>

definition start :: "('l, 's, 'f, 'r) RaftNode \<Rightarrow> ('l, 's, 'f, 'r) Process" where
  "start r = \<lparr>node = r, pc = Top, applying = None\<rparr>"

section \<open>What the steps leave alone\<close>

text \<open>The fields that decide an election.\<close>

definition same_ballot :: "('l, 's, 'f, 'r) RaftNode \<Rightarrow> ('l, 's, 'f, 'r) RaftNode \<Rightarrow> bool" where
  "same_ballot r r' \<longleftrightarrow>
     config r' = config r \<and> currentTerm r' = currentTerm r \<and> votedFor r' = votedFor r \<and>
     stableStore r' = stableStore r \<and> state r' = state r"

lemma same_ballot_refl [simp]: "same_ballot r r"
  by (simp add: same_ballot_def)

lemma failAll_ballot [simp]: "same_ballot r (failAll e r)"
proof -
  have "same_ballot r (foldl (\<lambda>q p. respondFuture p (Some e) None q) r ps)" for ps
  proof (induction ps arbitrary: r)
    case (Cons p ps)
    then show ?case using Cons [of "respondFuture p (Some e) None r"] by (simp add: same_ballot_def)
  qed simp
  then show ?thesis by (simp add: failAll_def same_ballot_def)
qed

lemma failPendingFutures_ballot [simp]: "same_ballot r (failPendingFutures r)"
  by (simp add: failPendingFutures_def)

lemma failPendingFutures_log [simp]: "logStore (failPendingFutures r) = logStore r"
proof -
  have "logStore (foldl (\<lambda>q p. respondFuture p e None q) r ps) = logStore r" for e ps
    by (induction ps arbitrary: r) simp_all
  then show ?thesis by (simp add: failPendingFutures_def failAll_def)
qed

lemma initLeader_ballot [simp]: "same_ballot r (initLeader LS r)"
  by (simp add: same_ballot_def)

lemma appendNoOp_ballot [simp]: "same_ballot r (appendNoOp LS r)"
  by (auto simp: same_ballot_def appendNoOp_def Let_def split: prod.split option.split)

lemma handleApplyRequest_ballot: "same_ballot r (handleApplyRequest LS req r)"
  by (auto simp: same_ballot_def handleApplyRequest_def Let_def split: prod.split option.split)

lemma node_Apply_ballot: "node_Apply r data w = (r', f) \<Longrightarrow> same_ballot r r'"
  by (auto simp: node_Apply_def Let_def same_ballot_def split: if_splits applyWay.splits)

lemma applyEntry_ballot: "applyEntry LS A idx r = Some (Ret r') \<Longrightarrow> same_ballot r r'"
  by (auto simp: applyEntry_def Let_def same_ballot_def
      split: sum.splits option.splits outcome.splits prod.splits if_splits)

lemma leader_next_cases:
  assumes "leader_next r = (r', p)"
  shows "same_ballot r r' \<and> (if state r = Leader then p = InLeader else p = Top)"
  using assms by (auto simp: leader_next_def split: if_splits)

lemma replicateOnce_response_cases:
  "if currentTerm r < aer_Term resp
   then replicateOnce_response LS SS r p entries resp = stepDown SS (aer_Term resp) r
   else same_ballot r (replicateOnce_response LS SS r p entries resp)"
  by (simp add: replicateOnce_response_def same_ballot_def)

section \<open>What serving a request does to the ballot\<close>

lemma handleAppendEntries_ballot:
  assumes "handleAppendEntries LS SS r req = Some (r', resp, b)"
  shows "if ae_Term req < currentTerm r then r' = r
    else config r' = config r \<and> currentTerm r' = ae_Term req \<and> state r' = Follower \<and>
      votedFor r' = (if currentTerm r < ae_Term req \<or> state r \<noteq> Follower then [] else votedFor r) \<and>
      stableStore r' = stableStore (acceptLeader SS req r)"
  using assms acceptLeader_term [of req r SS] acceptLeader_votedFor [of SS req r]
  by (auto simp: handleAppendEntries_def Let_def split: if_splits option.splits bool.splits prod.splits)

lemma handleRequestVote_ballot:
  assumes "handleRequestVote LS SS r req = (r', resp, b)"
  shows "config r' = config r \<and> currentTerm r' = max (currentTerm r) (rv_Term req) \<and>
    state r' = (if currentTerm r < rv_Term req then Follower else state r) \<and>
    votedFor r' = (if VoteGranted resp then CandidateID req
      else if currentTerm r < rv_Term req then [] else votedFor r) \<and>
    (VoteGranted resp \<longrightarrow> currentTerm r' = rv_Term req \<and>
      (currentTerm r < rv_Term req \<or> votedFor r = [] \<or> votedFor r = CandidateID req))"
  using assms by (auto simp: handleRequestVote_def Let_def max_def split: if_splits prod.splits)

lemma handleRPC_cases:
  assumes "handleRPC LS SS r cmd = Some (r', resp, b)"
  obtains (append) req resp' where "cmd = CmdAppendEntries req"
      "handleAppendEntries LS SS r req = Some (r', resp', b)" "resp = RespAppendEntries resp'"
  | (vote) req resp' where "cmd = CmdRequestVote req"
      "handleRequestVote LS SS r req = (r', resp', b)" "resp = RespRequestVote resp'"
  | (unknown) "cmd = CmdUnknown" "r' = r"
  using assms by (auto simp: handleRPC_def split: Command.splits option.splits prod.splits)

lemma receiveVote_ballot:
  assumes "receiveVote SS r n vote = (r', n', left)"
  shows "if currentTerm r < rvr_Term vote then r' = stepDown SS (rvr_Term vote) r \<and> left
    else config r' = config r \<and> currentTerm r' = currentTerm r \<and> votedFor r' = votedFor r \<and>
      stableStore r' = stableStore r \<and>
      (if VoteGranted vote \<and> quorum r \<le> Suc n then state r' = Leader \<and> left
       else r' = r \<and> \<not> left)"
  using assms by (auto simp: receiveVote_def checkVoteTerm_def countVote_def split: if_splits)

lemma immediateMajority_ballot:
  assumes "immediateMajority r = (r', won)"
  shows "config r' = config r \<and> currentTerm r' = currentTerm r \<and> votedFor r' = votedFor r \<and>
    stableStore r' = stableStore r \<and>
    (if quorum r \<le> 1 then state r' = Leader \<and> won else r' = r \<and> \<not> won)"
  using assms by (auto simp: immediateMajority_def split: if_splits)

lemma startElection_ballot:
  assumes "startElection LS SS r = (r', req, targets)"
  shows "config r' = config r \<and> currentTerm r' = currentTerm r + 1 \<and> votedFor r' = ServerID (config r) \<and>
    state r' = state r \<and> rv_Term req = currentTerm r' \<and> CandidateID req = ServerID (config r)"
  using assms by (auto simp: startElection_def Let_def split: prod.splits)

section \<open>The stable store is never behind\<close>

definition durable :: "'s StableStore \<Rightarrow> ('s \<Rightarrow> bool) \<Rightarrow> ('l, 's, 'f, 'r) RaftNode \<Rightarrow> bool" where
  "durable SS sinv r \<longleftrightarrow> sinv (stableStore r) \<and> persisted SS r"

lemma durable_ballot: "same_ballot r r' \<Longrightarrow> durable SS sinv r \<Longrightarrow> durable SS sinv r'"
  by (simp add: same_ballot_def durable_def persisted_def)

context stable_store
begin

lemma durable_stepDown: "durable SS sinv r \<Longrightarrow> durable SS sinv (stepDown SS t r)"
  by (simp add: durable_def stepDown_ok)

lemma durable_handleAppendEntries:
  assumes "handleAppendEntries LS SS r req = Some (r', resp, b)" and "durable SS sinv r"
  shows "durable SS sinv r'"
proof (cases "ae_Term req < currentTerm r")
  case True
  then show ?thesis using assms by (simp add: handleAppendEntries_def)
next
  case False
  have "durable SS sinv (acceptLeader SS req r)"
    using assms(2) durable_stepDown [of r "ae_Term req"]
    by (auto simp: acceptLeader_def Let_def durable_def persisted_def)
  then show ?thesis
    using handleAppendEntries_ballot [OF assms(1)] False acceptLeader_term [OF False, of SS]
      acceptLeader_votedFor [of SS req r]
    by (simp add: durable_def persisted_def)
qed

lemma durable_handleRPC:
  assumes "handleRPC LS SS r cmd = Some (r', resp, b)" and "durable SS sinv r"
  shows "durable SS sinv r'"
  using assms(1)
proof (cases rule: handleRPC_cases)
  case (append req resp')
  then show ?thesis using durable_handleAppendEntries assms(2) by blast
next
  case (vote req resp')
  then show ?thesis
    using handleRequestVote_ok [of r LS req] assms(2) by (simp add: durable_def)
next
  case unknown
  then show ?thesis using assms(2) by simp
qed

lemma durable_step:
  assumes "pstep LS SS A P l P'" and "durable SS sinv (node P)"
  shows "durable SS sinv (node P')"
  using assms
proof (induction rule: pstep.induct)
  case (run_candidate P r req targets)
  then show ?case using startElection_ok [of "node P" LS] by (simp add: durable_def)
next
  case (follower_timeout P)
  then show ?case by (simp add: durable_def persisted_def electionTimeout_def)
next
  case (candidate_start P req r won)
  then show ?case using immediateMajority_ballot [OF candidate_start.hyps(2)] by (simp add: durable_def persisted_def)
next
  case (candidate_vote P req voters v vote r votes left)
  then show ?case using receiveVote_ok [of "node P" "Suc (length voters)" vote] by (simp add: durable_def)
next
  case (leader_start P r pc')
  then show ?case
    using leader_next_cases [OF leader_start.hyps(2)] durable_ballot [of "node P" "appendNoOp LS (node P)"]
    by (auto intro: durable_ballot)
next
  case (leader_rpc P cmd r1 resp reset r pc')
  then show ?case using leader_next_cases durable_handleRPC durable_ballot by fastforce
next
  case (leader_apply P req reqs r pc')
  have "durable SS sinv ((node P)\<lparr>applyCh := reqs\<rparr>)" using leader_apply.prems by (simp add: durable_def persisted_def)
  then show ?case
    using leader_next_cases [OF leader_apply.hyps(3)] handleApplyRequest_ballot [of "(node P)\<lparr>applyCh := reqs\<rparr>" LS req]
    by (auto intro: durable_ballot)
next
  case (replicate_reply p P entries resp)
  then show ?case
    using replicateOnce_response_cases [of "node P" resp LS SS p entries]
    by (auto simp: durable_stepDown split: if_splits intro: durable_ballot)
next
  case (apply_start P)
  then show ?case by (simp add: durable_def persisted_def)
next
  case (client_expired future P timedOut)
  then show ?case by (simp add: durable_def persisted_def applyExpired_def)
next
  case (client_wait P future f e)
  then show ?case by (simp add: durable_def persisted_def)
next
  case (shutdown P)
  have "durable SS sinv ((node P)\<lparr>shutdownCh := True, state := Follower\<rparr>)"
    using shutdown by (simp add: durable_def persisted_def)
  from durable_ballot [OF failAll_ballot this, of ErrShutdown] shutdown show ?case
    by (simp add: node_Shutdown_def)
qed (auto intro: durable_handleRPC durable_ballot [OF applyEntry_ballot] durable_ballot [OF node_Apply_ballot]
    durable_ballot [OF initLeader_ballot] durable_ballot [OF failPendingFutures_ballot])

end

inductive reaches :: "'l LogStore \<Rightarrow> 's StableStore \<Rightarrow> ('f, 'r) FSM \<Rightarrow>
    ('l, 's, 'f, 'r) Process \<Rightarrow> label list \<Rightarrow> ('l, 's, 'f, 'r) Process \<Rightarrow> bool"
  for LS SS A P where
  here: "reaches LS SS A P [] P"
| more: "reaches LS SS A P ls Q \<Longrightarrow> pstep LS SS A Q l Q' \<Longrightarrow> reaches LS SS A P (ls @ [l]) Q'"

end
