(* ===== verification/Raft_Laws.thy ===== *)
theory Raft_Laws
  imports Raft_Replication Raft_Apply
begin

text \<open>
  The properties of a Raft node: how it votes, that a vote survives a crash, how a follower's log
  follows the leader's, how the state machine follows the log. They hold for every pair of stores
  that keep the contracts \<open>log_store\<close> and \<open>stable_store\<close>; the in-memory stores are shown to.
\<close>

section \<open>A leader brings a follower up to date\<close>

text \<open>
  One exchange between the replicator of a leader and a follower, and exchanges until one
  succeeds.
\<close>

definition exchange :: "'l LogStore \<Rightarrow> 's StableStore \<Rightarrow> nat \<Rightarrow>
    ('l, 's, 'f, 'r) RaftNode \<Rightarrow> ('l, 's, 'f, 'r) RaftNode \<Rightarrow>
    (('l, 's, 'f, 'r) RaftNode \<times> ('l, 's, 'f, 'r) RaftNode \<times> bool) option" where
  "exchange LS SS p r q =
     (case replicateOnce_request LS r p of
        Some (Some req) \<Rightarrow>
          (case handleAppendEntries LS SS q req of
             None \<Rightarrow> None
           | Some (q', resp, reset) \<Rightarrow>
               Some (replicateOnce_response LS SS r p (Entries req) resp, q', Success resp))
      | _ \<Rightarrow> None)"

fun exchanges :: "'l LogStore \<Rightarrow> 's StableStore \<Rightarrow> nat \<Rightarrow> nat \<Rightarrow>
    ('l, 's, 'f, 'r) RaftNode \<Rightarrow> ('l, 's, 'f, 'r) RaftNode \<Rightarrow>
    (('l, 's, 'f, 'r) RaftNode \<times> ('l, 's, 'f, 'r) RaftNode) option" where
  "exchanges LS SS p 0 r q = None"
| "exchanges LS SS p (Suc n) r q =
     (case exchange LS SS p r q of
        None \<Rightarrow> None
      | Some (r', q', True) \<Rightarrow> Some (r', q')
      | Some (r', q', False) \<Rightarrow> exchanges LS SS p n r' q')"

text \<open>What the two nodes are while they exchange requests.\<close>

definition in_contact :: "('l \<Rightarrow> bool) \<Rightarrow> ('l \<Rightarrow> u64 \<rightharpoonup> LogEntry) \<Rightarrow> LogEntry list \<Rightarrow> LogEntry list \<Rightarrow>
    nat \<Rightarrow> ('l, 's, 'f, 'r) RaftNode \<Rightarrow> ('l, 's, 'f, 'r) RaftNode \<Rightarrow> bool" where
  "in_contact linv lmap ys xs p r q \<longleftrightarrow>
     repr linv lmap (logStore r) ys \<and> repr linv lmap (logStore q) xs \<and> state r = Leader \<and>
     currentTerm q \<le> currentTerm r \<and> p < length (peer_heap r) \<and>
     nextIndex (peer_heap r ! p) \<noteq> 0 \<and> unat (nextIndex (peer_heap r ! p)) \<le> Suc (length ys)"

lemma prev_ok_agree:
  assumes "log_matching xs ys" and "prev_ok xs req" and "unat (PrevLogIndex req) \<le> length ys"
    and "PrevLogTerm req = term_at ys (unat (PrevLogIndex req))"
  shows "take (unat (PrevLogIndex req)) xs = take (unat (PrevLogIndex req)) ys"
proof (cases "unat (PrevLogIndex req)")
  case (Suc n)
  then show ?thesis
    using assms log_matchingD [OF assms(1), of n] by (auto simp: prev_ok_def term_at_def)
qed simp

context log_store
begin

text \<open>The request of a leader in contact, which the follower takes or refuses.\<close>

lemma contact_request:
  assumes "in_contact linv lmap ys xs p r q"
  obtains req where "replicateOnce_request LS r p = Some (Some req)" "ae_Term req = currentTerm r"
    "Suc (unat (PrevLogIndex req)) = unat (nextIndex (peer_heap r ! p))"
    "PrevLogTerm req = term_at ys (unat (PrevLogIndex req))" "Entries req = drop (unat (PrevLogIndex req)) ys"
    "\<not> ae_Term req < currentTerm q" "unat (PrevLogIndex req) \<le> length ys"
  using assms replicateOnce_request_repr [of r ys p] unfolding in_contact_def by fastforce

lemma record_match:
  assumes "log_ok ys" and "p < length (peer_heap r)" and "Suc n = unat (nextIndex (peer_heap r ! p))" and "n \<le> length ys"
  shows "matchIndex ((peer_heap r)[p := recordMatch (drop n ys) (peer_heap r ! p)] ! p) = last_of ys \<or>
    unat (nextIndex (peer_heap r ! p)) = Suc (length ys) \<and> (peer_heap r)[p := recordMatch (drop n ys) (peer_heap r ! p)] = peer_heap r"
proof (cases "n < length ys")
  case True
  then have "ys \<noteq> []" by auto
  then have "Index (last (drop n ys)) = last_of ys" unfolding last_drop [OF True] by (rule Index_last [OF assms(1)])
  then show ?thesis using True assms(2) by (simp add: recordMatch_def)
qed (use assms(3,4) in \<open>simp add: recordMatch_def\<close>)

lemma exchange_taken:
  assumes "in_contact linv lmap ys xs p r q" and "log_matching xs ys"
    and req: "replicateOnce_request LS r p = Some (Some req)" "ae_Term req = currentTerm r"
      "Suc (unat (PrevLogIndex req)) = unat (nextIndex (peer_heap r ! p))"
      "PrevLogTerm req = term_at ys (unat (PrevLogIndex req))" "Entries req = drop (unat (PrevLogIndex req)) ys"
      "\<not> ae_Term req < currentTerm q" "unat (PrevLogIndex req) \<le> length ys"
    and prev: "prev_ok xs req"
  shows "\<exists>r' q'. exchange LS SS p r q = Some (r', q', True) \<and>
    logStore r' = logStore r \<and> state r' = Leader \<and> currentTerm r' = currentTerm r \<and>
    currentTerm q' = currentTerm r \<and> state q' = Follower \<and>
    repr linv lmap (logStore q') (if take (length ys) xs = ys then xs else ys) \<and>
    (matchIndex (peer_heap r' ! p) = last_of ys \<or>
     unat (nextIndex (peer_heap r ! p)) = Suc (length ys) \<and> peer_heap r' = peer_heap r)"
proof -
  note c = assms(1) [unfolded in_contact_def]
  have ok: "log_ok ys" using c by (simp add: repr_def)
  have agree: "take (unat (PrevLogIndex req)) xs = take (unat (PrevLogIndex req)) ys"
    using prev_ok_agree [OF assms(2) prev req(7,4)] .
  have le: "unat (PrevLogIndex req) \<le> length xs" using prev by (auto simp: prev_ok_def)
  have "log_ok (take (unat (PrevLogIndex req)) xs @ Entries req)" using agree ok req(5) by simp
  then obtain l where l: "handleAppendEntries LS SS q req =
      Some (updateCommit LS (LeaderCommit req) ((acceptLeader SS req q)\<lparr>logStore := l\<rparr>),
        \<lparr>aer_Term = currentTerm (acceptLeader SS req q), Success = True, ConflictTerm = 0, ConflictIndex = 0\<rparr>, True)"
    "repr linv lmap l (mergeLog (unat (PrevLogIndex req)) xs (Entries req))"
    using handleAppendEntries_accept [OF _ req(6) prev] c by blast
  have "exchange LS SS p r q =
      Some (advanceCommitIndex LS (r\<lparr>peer_heap := (peer_heap r)[p := recordMatch (Entries req) (peer_heap r ! p)]\<rparr>),
        updateCommit LS (LeaderCommit req) ((acceptLeader SS req q)\<lparr>logStore := l\<rparr>), True)"
    using l(1) req(1,2) acceptLeader_term [OF req(6), of SS] by (simp add: exchange_def replicateOnce_response_def)
  moreover have "repr linv lmap l (if take (length ys) xs = ys then xs else ys)"
    using l(2) mergeLog_leader [OF assms(2) agree le req(7)] req(5) by simp
  ultimately show ?thesis
    using record_match [OF ok _ req(3,7)] c acceptLeader_term [OF req(6), of SS] req(2,5) by simp
qed

lemma exchange_refused:
  assumes "in_contact linv lmap ys xs p r q" and "same_origin xs ys"
    and req: "replicateOnce_request LS r p = Some (Some req)" "ae_Term req = currentTerm r"
      "Suc (unat (PrevLogIndex req)) = unat (nextIndex (peer_heap r ! p))"
      "PrevLogTerm req = term_at ys (unat (PrevLogIndex req))" "\<not> ae_Term req < currentTerm q" "unat (PrevLogIndex req) \<le> length ys"
    and prev: "\<not> prev_ok xs req"
  shows "\<exists>r' q'. exchange LS SS p r q = Some (r', q', False) \<and>
    logStore r' = logStore r \<and> state r' = Leader \<and> currentTerm r' = currentTerm r \<and>
    currentTerm q' = currentTerm r \<and> state q' = Follower \<and> in_contact linv lmap ys xs p r' q' \<and>
    unat (nextIndex (peer_heap r' ! p)) < unat (nextIndex (peer_heap r ! p))"
proof -
  note c = assms(1) [unfolded in_contact_def]
  obtain t i where rej: "consistencyCheck LS (logStore q) req = Some (t, i)"
    "handleAppendEntries LS SS q req = Some (acceptLeader SS req q,
      \<lparr>aer_Term = currentTerm (acceptLeader SS req q), Success = False, ConflictTerm = t, ConflictIndex = i\<rparr>, True)"
    using handleAppendEntries_reject [OF _ req(5) prev] c by blast
  let ?resp = "\<lparr>aer_Term = currentTerm r, Success = False, ConflictTerm = t, ConflictIndex = i\<rparr>"
  have "1 \<le> unat (nextIndex (backUp LS (logStore r) ?resp (peer_heap r ! p))) \<and>
      unat (nextIndex (backUp LS (logStore r) ?resp (peer_heap r ! p))) \<le> unat (PrevLogIndex req)"
    using c rej(1) req(4,6) by (intro backUp_progress [OF _ _ assms(2)]) auto
  then show ?thesis
    using rej(2) req(1-3,6) c acceptLeader_term [OF req(5), of SS]
    by (simp add: exchange_def replicateOnce_response_def in_contact_def unat_pos)
qed

lemma exchange_ok:
  assumes "in_contact linv lmap ys xs p r q" and "log_matching xs ys" and "same_origin xs ys"
  shows "\<exists>r' q' b. exchange LS SS p r q = Some (r', q', b) \<and>
    logStore r' = logStore r \<and> state r' = Leader \<and> currentTerm r' = currentTerm r \<and>
    currentTerm q' = currentTerm r \<and> state q' = Follower \<and>
    (if b
     then repr linv lmap (logStore q') (if take (length ys) xs = ys then xs else ys) \<and>
       (matchIndex (peer_heap r' ! p) = last_of ys \<or>
        unat (nextIndex (peer_heap r ! p)) = Suc (length ys) \<and> peer_heap r' = peer_heap r)
     else in_contact linv lmap ys xs p r' q' \<and>
       unat (nextIndex (peer_heap r' ! p)) < unat (nextIndex (peer_heap r ! p)))"
proof (rule contact_request [OF assms(1)])
  fix req
  assume req: "replicateOnce_request LS r p = Some (Some req)" "ae_Term req = currentTerm r"
    "Suc (unat (PrevLogIndex req)) = unat (nextIndex (peer_heap r ! p))"
    "PrevLogTerm req = term_at ys (unat (PrevLogIndex req))" "Entries req = drop (unat (PrevLogIndex req)) ys"
    "\<not> ae_Term req < currentTerm q" "unat (PrevLogIndex req) \<le> length ys"
  show ?thesis
  proof (cases "prev_ok xs req")
    case True
    from exchange_taken [OF assms(1,2) req True, of SS] show ?thesis by fastforce
  next
    case False
    from exchange_refused [OF assms(1,3) req(1-4,6,7) False, of SS] show ?thesis by fastforce
  qed
qed

lemma exchanges_ok:
  assumes "log_matching xs ys" and "same_origin xs ys"
  shows "in_contact linv lmap ys xs p r q \<Longrightarrow> unat (nextIndex (peer_heap r ! p)) \<le> n \<Longrightarrow>
    \<exists>r' q'. exchanges LS SS p n r q = Some (r', q') \<and>
      logStore r' = logStore r \<and> state r' = Leader \<and> currentTerm r' = currentTerm r \<and>
      currentTerm q' = currentTerm r \<and> state q' = Follower \<and>
      repr linv lmap (logStore q') (if take (length ys) xs = ys then xs else ys)"
proof (induction n arbitrary: r q)
  case 0
  then show ?case by (simp add: in_contact_def unat_pos)
next
  case (Suc n)
  obtain r1 q1 b where e: "exchange LS SS p r q = Some (r1, q1, b)"
    "logStore r1 = logStore r" "state r1 = Leader" "currentTerm r1 = currentTerm r"
    "currentTerm q1 = currentTerm r" "state q1 = Follower"
    "if b
     then repr linv lmap (logStore q1) (if take (length ys) xs = ys then xs else ys) \<and>
       (matchIndex (peer_heap r1 ! p) = last_of ys \<or>
        unat (nextIndex (peer_heap r ! p)) = Suc (length ys) \<and> peer_heap r1 = peer_heap r)
     else in_contact linv lmap ys xs p r1 q1 \<and>
       unat (nextIndex (peer_heap r1 ! p)) < unat (nextIndex (peer_heap r ! p))"
    using exchange_ok [OF Suc.prems(1) assms, of SS] by (elim exE conjE) (rule that)
  show ?case
  proof (cases b)
    case True
    with e show ?thesis by simp
  next
    case False
    with e Suc.prems(2) Suc.IH [of r1 q1] show ?thesis by auto
  qed
qed

end

text \<open>The follower's side as an operation on the list: its new log, its new commit index, and whether it accepts.\<close>

definition follower_spec :: "u64 \<Rightarrow> LogEntry list \<Rightarrow> u64 \<Rightarrow> AppendEntriesRequest \<Rightarrow> LogEntry list \<times> u64 \<times> bool" where
  "follower_spec t xs c req =
     (if ae_Term req < t \<or> \<not> prev_ok xs req then (xs, c, False)
      else let zs = mergeLog (unat (PrevLogIndex req)) xs (Entries req)
           in (zs, if c < LeaderCommit req then min (LeaderCommit req) (last_of zs) else c, True))"

section \<open>Samples\<close>

text \<open>A cluster of three in-memory nodes.\<close>

definition sample_config :: "string \<Rightarrow> Config" where
  "sample_config i =
     DefaultConfig\<lparr>ServerID := i,
       Peers := [\<lparr>ID = ''a'', Address = ''A''\<rparr>, \<lparr>ID = ''b'', Address = ''B''\<rparr>, \<lparr>ID = ''c'', Address = ''C''\<rparr>],
       has_LogStore := True, has_StableStore := True, has_FSM := True\<rparr>"

definition sample_node :: "string \<Rightarrow> LogEntry list \<Rightarrow> (InmemLogStore, InmemStableStore, nat, nat) RaftNode" where
  "sample_node i es =
     \<lparr>config = sample_config i, currentTerm = 0, votedFor = [],
      logStore = fst (inmem_StoreLogs NewInmemLogStore es), stableStore = NewInmemStableStore,
      state = Follower, commitIndex = 0, lastApplied = 0, peers = [], peer_heap = [], leaderID = [],
      leaderAddr = [], node_fsm = 0, pendingFutures = [], futures = [], applyCh = [],
      commitNotifyCh = False, shutdownCh = False\<rparr>"

definition sample_entry :: "u64 \<Rightarrow> u64 \<Rightarrow> bytes \<Rightarrow> LogEntry" where
  "sample_entry i t d = \<lparr>Index = i, Term = t, Data = d\<rparr>"

lemma sample_entry_fields [simp]:
  "Index (sample_entry i t d) = i" "Term (sample_entry i t d) = t" "Data (sample_entry i t d) = d"
  by (simp_all add: sample_entry_def)

lemma inmem_repr: "log_ok xs \<Longrightarrow> repr inmem_linv inmem_lmap (fst (inmem_StoreLogs NewInmemLogStore xs)) xs"
  using inmem_log.repr_store [OF inmem_repr_New, of xs] by (auto simp: InmemLog_def)

lemma sample_repr: "log_ok xs \<Longrightarrow> repr inmem_linv inmem_lmap (logStore (sample_node i xs)) xs"
  by (simp add: sample_node_def inmem_repr)

section \<open>Properties\<close>

text \<open>
  C21. Replication brings a follower up to date. Take a leader and a follower in contact, whose
  term is not larger, with logs that agree up to every position where they have the same term and
  whose entries of a term come from one leader. Then after at most as many exchanges as the peer's
  \<open>nextIndex\<close>, conflict hints included, one succeeds: the follower's log starts with the leader's (it is
  the leader's, unless there was no conflict and it was longer), and the leader is still the leader of
  its term with an unchanged log.
\<close>

theorem follower_catches_up:
  assumes "log_store LS linv lmap" and "in_contact linv lmap ys xs p r q"
    and "log_matching xs ys" and "same_origin xs ys"
  shows "\<exists>r' q' zs. exchanges LS SS p (unat (nextIndex (peer_heap r ! p))) r q = Some (r', q') \<and>
    repr linv lmap (logStore q') zs \<and> take (length ys) zs = ys \<and> zs \<in> {xs, ys} \<and>
    currentTerm q' = currentTerm r \<and> state q' = Follower \<and>
    state r' = Leader \<and> currentTerm r' = currentTerm r \<and> logStore r' = logStore r"
proof -
  obtain r' q' where "exchanges LS SS p (unat (nextIndex (peer_heap r ! p))) r q = Some (r', q')"
    "repr linv lmap (logStore q') (if take (length ys) xs = ys then xs else ys)"
    "currentTerm q' = currentTerm r" "state q' = Follower"
    "state r' = Leader" "currentTerm r' = currentTerm r" "logStore r' = logStore r"
    using log_store.exchanges_ok [OF assms(1,3,4,2) order.refl, of SS] by blast
  then show ?thesis by (cases "take (length ys) xs = ys") auto
qed

definition sample_leader_log :: "LogEntry list" where
  "sample_leader_log = [sample_entry 1 1 ''x'', sample_entry 2 3 ''y'', sample_entry 3 3 ''z'']"

definition sample_follower_log :: "LogEntry list" where
  "sample_follower_log = [sample_entry 1 1 ''x'', sample_entry 2 2 ''u'', sample_entry 3 2 ''v'']"

definition sample_leader :: "(InmemLogStore, InmemStableStore, nat, nat) RaftNode" where
  "sample_leader = initLeader InmemLog ((sample_node ''a'' sample_leader_log)\<lparr>currentTerm := 3, state := Leader\<rparr>)"

definition sample_follower :: "(InmemLogStore, InmemStableStore, nat, nat) RaftNode" where
  "sample_follower = (sample_node ''b'' sample_follower_log)\<lparr>currentTerm := 2\<rparr>"

lemma sample_logs_ok: "log_ok sample_leader_log" "log_ok sample_follower_log"
  by (simp_all add: sample_leader_log_def sample_follower_log_def log_ok_code)

lemma sample_contact:
  "in_contact inmem_linv inmem_lmap sample_leader_log sample_follower_log 0 sample_leader sample_follower"
proof -
  have "LastIndex InmemLog (logStore (sample_node ''a'' sample_leader_log)) = (3, None)"
    using inmem_log.repr_last [OF sample_repr [OF sample_logs_ok(1)], of "''a''"]
    by (simp add: last_of_def sample_leader_log_def)
  then have "peer_heap sample_leader = [newPeerState 3 \<lparr>ID = ''b'', Address = ''B''\<rparr>, newPeerState 3 \<lparr>ID = ''c'', Address = ''C''\<rparr>]"
    by (simp add: sample_leader_def initLeader_def addPeer_def sample_node_def sample_config_def)
  moreover have "length sample_leader_log = 3" by (simp add: sample_leader_log_def)
  ultimately show ?thesis
    using sample_repr [OF sample_logs_ok(1), of "''a''"] sample_repr [OF sample_logs_ok(2), of "''b''"]
    by (simp add: in_contact_def newPeerState_def)
      (simp add: sample_leader_def sample_follower_def)
qed

lemma follower_catches_up_witness:
  "\<exists>r' q' zs. exchanges InmemLog InmemStable 0 4 sample_leader sample_follower = Some (r', q') \<and>
    repr inmem_linv inmem_lmap (logStore q') zs \<and> take 3 zs = sample_leader_log \<and> currentTerm q' = 3"
proof -
  have "log_matching sample_follower_log sample_leader_log" by code_simp
  moreover have "same_origin sample_follower_log sample_leader_log" by code_simp
  moreover have "unat (nextIndex (peer_heap sample_leader ! 0)) = 4" "currentTerm sample_leader = 3"
    "length sample_leader_log = 3" by code_simp+
  ultimately show ?thesis
    using follower_catches_up [OF inmem_log.log_store_axioms sample_contact, of InmemStable] by auto
qed

text \<open>
  C22. \<open>handleAppendEntries\<close> refines its specification on lists, for every request whose entries
  continue the log after \<open>PrevLogIndex\<close> with consecutive indices: it returns, and the log, the commit
  index and the verdict are those of \<open>follower_spec\<close> (a stale term or a failed consistency check change
  neither; otherwise entries that are there stay, the first conflicting one and all after it give way to
  the new ones, and the commit index follows the leader's up to the end of the log). The term is
  the larger one, and a request that is not stale makes the node a follower of its sender.
\<close>

theorem handleAppendEntries_refines:
  assumes "log_store LS linv lmap" and "repr linv lmap (logStore r) xs"
    and "prev_ok xs req \<longrightarrow> log_ok (take (unat (PrevLogIndex req)) xs @ Entries req)"
  shows "\<exists>r' resp reset zs. handleAppendEntries LS SS r req = Some (r', resp, reset) \<and>
    repr linv lmap (logStore r') zs \<and>
    (zs, commitIndex r', Success resp) = follower_spec (currentTerm r) xs (commitIndex r) req \<and>
    currentTerm r' = max (currentTerm r) (ae_Term req) \<and> aer_Term resp = currentTerm r' \<and>
    (if ae_Term req < currentTerm r then r' = r \<and> \<not> reset
     else state r' = Follower \<and> leaderID r' = LeaderID req \<and> reset)"
proof (cases "ae_Term req < currentTerm r")
  case True
  then have "max (currentTerm r) (ae_Term req) = currentTerm r" by (intro max.absorb1 less_imp_le)
  with True assms(2) show ?thesis by (simp add: handleAppendEntries_def follower_spec_def) blast
next
  case fresh: False
  note t = acceptLeader_term [OF fresh, of SS]
  have m: "max (currentTerm r) (ae_Term req) = ae_Term req" using fresh by (intro max.absorb2) simp
  show ?thesis
  proof (cases "prev_ok xs req")
    case True
    obtain l where l: "handleAppendEntries LS SS r req =
        Some (updateCommit LS (LeaderCommit req) ((acceptLeader SS req r)\<lparr>logStore := l\<rparr>),
          \<lparr>aer_Term = currentTerm (acceptLeader SS req r), Success = True, ConflictTerm = 0, ConflictIndex = 0\<rparr>, True)"
      "repr linv lmap l (mergeLog (unat (PrevLogIndex req)) xs (Entries req))"
      using log_store.handleAppendEntries_accept [OF assms(1,2) fresh True] assms(3) True by blast
    let ?zs = "mergeLog (unat (PrevLogIndex req)) xs (Entries req)"
    let ?r = "(acceptLeader SS req r)\<lparr>logStore := l\<rparr>"
    have c: "commitIndex (updateCommit LS (LeaderCommit req) ?r) =
        (if commitIndex r < LeaderCommit req then min (LeaderCommit req) (last_of ?zs) else commitIndex r)"
      "leaderID (updateCommit LS (LeaderCommit req) ?r) = LeaderID req"
      using log_store.repr_last [OF assms(1) l(2)]
      by (auto simp: updateCommit_def Let_def notifyCommit_def min_def)
    have "follower_spec (currentTerm r) xs (commitIndex r) req =
        (?zs, if commitIndex r < LeaderCommit req then min (LeaderCommit req) (last_of ?zs) else commitIndex r, True)"
      using fresh True by (simp add: follower_spec_def Let_def)
    then show ?thesis using l(2) fresh t c m by (simp add: l(1)) blast
  next
    case False
    then obtain u i where "handleAppendEntries LS SS r req =
        Some (acceptLeader SS req r,
          \<lparr>aer_Term = currentTerm (acceptLeader SS req r), Success = False, ConflictTerm = u, ConflictIndex = i\<rparr>, True)"
      using log_store.handleAppendEntries_reject [OF assms(1,2) fresh False] by blast
    then show ?thesis using fresh t False assms(2) m by (simp add: follower_spec_def) blast
  qed
qed

definition sample_append :: AppendEntriesRequest where
  "sample_append =
     \<lparr>ae_Term = 3, LeaderID = ''a'', PrevLogIndex = 1, PrevLogTerm = 1,
      Entries = drop 1 sample_leader_log, LeaderCommit = 2\<rparr>"

lemma handleAppendEntries_refines_witness:
  "\<exists>r' resp. handleAppendEntries InmemLog InmemStable sample_follower sample_append = Some (r', resp, True) \<and>
    repr inmem_linv inmem_lmap (logStore r') sample_leader_log \<and> commitIndex r' = 2 \<and> Success resp"
proof -
  have "prev_ok sample_follower_log sample_append \<longrightarrow>
      log_ok (take (unat (PrevLogIndex sample_append)) sample_follower_log @ Entries sample_append)"
    by (simp add: sample_append_def sample_leader_log_def sample_follower_log_def log_ok_code)
  moreover have "follower_spec 2 sample_follower_log 0 sample_append = (sample_leader_log, 2, True)"
    "\<not> ae_Term sample_append < currentTerm sample_follower" by code_simp+
  moreover have "currentTerm sample_follower = 2" "commitIndex sample_follower = 0"
    by (simp_all add: sample_follower_def sample_node_def)
  moreover have "repr inmem_linv inmem_lmap (logStore sample_follower) sample_follower_log"
    using sample_repr [OF sample_logs_ok(2)] by (simp add: sample_follower_def)
  from handleAppendEntries_refines [OF inmem_log.log_store_axioms this calculation(1), of InmemStable]
  obtain r' resp reset zs where
    "handleAppendEntries InmemLog InmemStable sample_follower sample_append = Some (r', resp, reset)"
    "repr inmem_linv inmem_lmap (logStore r') zs"
    "(zs, commitIndex r', Success resp) =
      follower_spec (currentTerm sample_follower) sample_follower_log (commitIndex sample_follower) sample_append"
    "if ae_Term sample_append < currentTerm sample_follower then r' = sample_follower \<and> \<not> reset
     else state r' = Follower \<and> leaderID r' = LeaderID sample_append \<and> reset" by blast
  ultimately show ?thesis by simp
qed

text \<open>
  C24. The state machine follows the log. If a node's state machine is the result of running the
  first \<open>lastApplied\<close> entries of its log, and the commit index lies between there and the end of the
  log, and the state machine can run the committed entries, then \<open>applyCommitted\<close> returns with every
  committed entry applied, in order and once: the state machine is the result of running the
  first \<open>commitIndex\<close> entries. The futures waiting for these entries are off the map, all others
  stay.
\<close>

theorem applyCommitted_follows_log:
  assumes "log_store LS linv lmap" and "repr linv lmap (logStore r) xs"
    and "unat (commitIndex r) \<le> length xs" and "lastApplied r \<le> commitIndex r"
    and "applied A f0 xs r" and "run_fsm A f0 (take (unat (commitIndex r)) xs) = Some (Ret f)"
  shows "\<exists>r'. applyCommitted LS A r = Some (Ret r') \<and> applied A f0 xs r' \<and> node_fsm r' = f \<and>
    lastApplied r' = commitIndex r \<and> logStore r' = logStore r \<and> commitIndex r' = commitIndex r \<and>
    map_of (pendingFutures r') =
      map_of (pendingFutures r) |` {i. i \<le> lastApplied r \<or> commitIndex r < i}"
proof -
  have eq: "- {i. lastApplied r < i \<and> i \<le> commitIndex r} = {i. i \<le> lastApplied r \<or> commitIndex r < i}"
    by auto
  have "unat (lastApplied r) \<le> unat (commitIndex r)" using assms(4) by (simp add: word_le_nat_alt)
  from log_store.applyFrom_ok [OF assms(1-3,5) refl this assms(6)] show ?thesis
    unfolding applyCommitted_def eq .
qed

text \<open>A state machine that counts the bytes it is given.\<close>

definition sample_fsm :: "(nat, nat) FSM" where
  "sample_fsm n d = Some (Ret (n + length d, length d))"

lemma applyCommitted_follows_log_witness:
  "\<exists>r'. applyCommitted InmemLog sample_fsm (sample_leader\<lparr>commitIndex := 2\<rparr>) = Some (Ret r') \<and>
    node_fsm r' = 2 \<and> lastApplied r' = 2"
proof -
  let ?r = "sample_leader\<lparr>commitIndex := 2\<rparr>"
  have "repr inmem_linv inmem_lmap (logStore ?r) sample_leader_log"
    using sample_repr [OF sample_logs_ok(1)] by (simp add: sample_leader_def)
  moreover have "lastApplied sample_leader = 0" "node_fsm sample_leader = 0"
    by (simp_all add: sample_leader_def sample_node_def)
  moreover from this have "applied sample_fsm 0 sample_leader_log ?r" by (simp add: applied_def)
  moreover have "run_fsm sample_fsm 0 (take 2 sample_leader_log) = Some (Ret 2)" by code_simp
  moreover have "length sample_leader_log = 3" by (simp add: sample_leader_log_def)
  ultimately show ?thesis
    using applyCommitted_follows_log [OF inmem_log.log_store_axioms, of ?r sample_leader_log sample_fsm 0 2]
    by auto
qed

text \<open>
  C25. How a node votes. The reply carries the larger of the two terms, which is also the node's
  new term. A vote is granted exactly when the request is not stale, the node has not voted for
  anyone else in the request's term, and the candidate's last entry is not older than its own in
  the order by term and index; a granted vote is recorded, and the log does not change.
\<close>

theorem handleRequestVote_decides:
  "let (r', resp, reset) = handleRequestVote LS SS r req; (i, t) = lastLogInfo LS (logStore r) in
   rvr_Term resp = max (currentTerm r) (rv_Term req) \<and> currentTerm r' = rvr_Term resp \<and>
   VoteGranted resp =
     (currentTerm r \<le> rv_Term req \<and>
      (currentTerm r < rv_Term req \<or> votedFor r = [] \<or> votedFor r = CandidateID req) \<and>
      (t < LastLogTerm req \<or> t = LastLogTerm req \<and> i \<le> LastLogIndex req)) \<and>
   votedFor r' =
     (if VoteGranted resp then CandidateID req
      else if currentTerm r < rv_Term req then [] else votedFor r) \<and>
   state r' = (if currentTerm r < rv_Term req then Follower else state r) \<and>
   reset = VoteGranted resp \<and> logStore r' = logStore r"
  by (auto simp: handleRequestVote_def Let_def isLogUpToDate_iff max_def split: prod.splits)

text \<open>
  A vote survives a crash. Once a node has granted its vote in a term to a named candidate, a
  node started on its stores, whatever has become of its memory, grants no vote in that term to
  another candidate, and no vote at all in an older term.
\<close>

lemma vote_survives_crash:
  assumes "stable_store SS sinv" and "sinv (stableStore r)" and "persisted SS r"
    and "handleRequestVote LS SS r req = (r1, resp, b)" and "VoteGranted resp" and "CandidateID req \<noteq> []"
    and "validate c = None" and "NewRaftNode SS c (logStore r1) (stableStore r1) f = Ret (Inr r2)"
    and "rv_Term req2 < rv_Term req \<or> rv_Term req2 = rv_Term req \<and> CandidateID req2 \<noteq> CandidateID req"
  shows "\<not> VoteGranted (fst (snd (handleRequestVote LS SS r2 req2)))"
proof (cases "rv_Term req2 = rv_Term req")
  case True
  then show ?thesis
    using stable_store.vote_survives_restart [OF assms(1-8)] assms(9) by simp
next
  case False
  have "persisted SS r1" using stable_store.handleRequestVote_ok(1) [OF assms(1-3), of LS req] assms(4) by simp
  from stable_store.NewRaftNode_restores(2) [OF assms(1) this assms(7,8)]
  have "currentTerm r2 = currentTerm r1" by simp
  moreover have "rv_Term req \<le> currentTerm r1"
    using handleRequestVote_term(2) [of LS SS r req] assms(4) by simp
  ultimately show ?thesis using False assms(9) by (auto simp: handleRequestVote_granted)
qed

definition sample_vote :: "string \<Rightarrow> u64 \<Rightarrow> RequestVoteRequest" where
  "sample_vote i t = \<lparr>rv_Term = t, CandidateID = i, LastLogIndex = 0, LastLogTerm = 0\<rparr>"

text \<open>The node before and after the vote, and restarted.\<close>

definition sample_voter :: "(InmemLogStore, InmemStableStore, nat, nat) RaftNode" where
  "sample_voter = sample_node ''b'' []"

lemma sample_voter_fields:
  "currentTerm sample_voter = 0" "votedFor sample_voter = []" "state sample_voter = Follower"
  by (simp_all add: sample_voter_def sample_node_def)

lemma sample_voter_log: "lastLogInfo InmemLog (logStore sample_voter) = (0, 0)"
  using inmem_log.lastLogInfo_repr [OF sample_repr [OF log_ok_Nil]]
  by (simp add: sample_voter_def last_of_def)

text \<open>
  A candidate or leader that accepts an \<open>AppendEntries\<close> request of its own term forgets in that
  term whom it has voted for: \<open>stepDown\<close> clears the vote although the term has not changed. It then
  grants a second vote in the same term, to any candidate whose log is as recent as its own.
\<close>

lemma same_term_append_forgets_vote:
  assumes "state r \<noteq> Follower" and "ae_Term req = currentTerm r"
    and "handleAppendEntries LS SS r req = Some (r', resp, b)"
    and "rv_Term rv = currentTerm r"
    and "isLogUpToDate (LastLogTerm rv) (LastLogIndex rv)
      (snd (lastLogInfo LS (logStore r'))) (fst (lastLogInfo LS (logStore r')))"
  shows "currentTerm r' = currentTerm r \<and> votedFor r' = [] \<and>
    VoteGranted (fst (snd (handleRequestVote LS SS r' rv)))"
proof -
  have "\<not> ae_Term req < currentTerm r" using assms(2) by simp
  then have "currentTerm r' = currentTerm r" "votedFor r' = []"
    using assms(1-3) acceptLeader_term [of req r SS] acceptLeader_votedFor [of SS req r]
    by (auto simp: handleAppendEntries_def Let_def split: option.splits bool.splits prod.splits)
  then show ?thesis
    using assms(4,5) by (simp add: handleRequestVote_granted isLogUpToDate_iff split_beta)
qed

definition sample_candidate :: "(InmemLogStore, InmemStableStore, nat, nat) RaftNode" where
  "sample_candidate = fst (startElection InmemLog InmemStable (electionTimeout (sample_node ''b'' [])))"

definition sample_heartbeat :: AppendEntriesRequest where
  "sample_heartbeat =
     \<lparr>ae_Term = 1, LeaderID = ''a'', PrevLogIndex = 0, PrevLogTerm = 0, Entries = [], LeaderCommit = 0\<rparr>"

definition sample_convert :: "(InmemLogStore, InmemStableStore, nat, nat) RaftNode" where
  "sample_convert = fst (the (handleAppendEntries InmemLog InmemStable sample_candidate sample_heartbeat))"

lemma sample_candidate_fields:
  "currentTerm sample_candidate = 1" "votedFor sample_candidate = ''b''" "state sample_candidate = Candidate"
  "config sample_candidate = sample_config ''b''" "logStore sample_candidate = logStore (sample_node ''b'' [])"
  "commitIndex sample_candidate = 0"
  by (simp_all add: sample_candidate_def startElection_def electionTimeout_def split_beta)
    (simp_all add: sample_node_def sample_config_def)

lemma same_term_append_forgets_vote_witness:
  "votedFor sample_candidate = ''b'' \<and> currentTerm sample_candidate = 1 \<and>
   currentTerm sample_convert = 1 \<and>
   VoteGranted (fst (snd (handleRequestVote InmemLog InmemStable sample_convert (sample_vote ''c'' 1))))"
proof -
  have 1: "state sample_candidate \<noteq> Follower" "ae_Term sample_heartbeat = currentTerm sample_candidate"
    by (simp_all add: sample_candidate_fields sample_heartbeat_def)
  have 2: "handleAppendEntries InmemLog InmemStable sample_candidate sample_heartbeat =
      Some (sample_convert, \<lparr>aer_Term = 1, Success = True, ConflictTerm = 0, ConflictIndex = 0\<rparr>, True)"
    by (simp add: sample_convert_def handleAppendEntries_def consistencyCheck_def Let_def acceptLeader_term
        sample_candidate_fields sample_heartbeat_def)
  have 3: "rv_Term (sample_vote ''c'' 1) = currentTerm sample_candidate"
    by (simp add: sample_vote_def sample_candidate_fields)
  have "logStore sample_convert = logStore sample_voter"
    by (simp add: sample_convert_def handleAppendEntries_def consistencyCheck_def Let_def
        sample_candidate_fields sample_heartbeat_def sample_voter_def)
  then have 4: "isLogUpToDate (LastLogTerm (sample_vote ''c'' 1)) (LastLogIndex (sample_vote ''c'' 1))
      (snd (lastLogInfo InmemLog (logStore sample_convert))) (fst (lastLogInfo InmemLog (logStore sample_convert)))"
    by (simp add: sample_voter_log sample_vote_def isLogUpToDate_def)
  show ?thesis using same_term_append_forgets_vote [OF 1 2 3 4] by (simp add: sample_candidate_fields)
qed

text \<open>
  Winning an election without being a candidate. \<open>runCandidate\<close> looks at the term of a vote
  but not at the node's own state: a vote that arrives after the node has stepped down to a later
  term, which a replicator left over from an earlier leadership can make it do, still completes the
  quorum and makes the node the leader of the later term, in which it has voted for nobody.
\<close>

lemma late_vote_elects_in_later_term:
  assumes "currentTerm r < t" and "rvr_Term vote \<le> currentTerm r" and "VoteGranted vote"
    and "quorum r = votes + 1" and "t = aer_Term resp"
  shows "let r1 = replicateOnce_response LS SS r p entries resp;
             (r2, votes', left) = receiveVote SS r1 votes vote
         in state r1 = Follower \<and> currentTerm r1 = t \<and>
            left \<and> state r2 = Leader \<and> currentTerm r2 = t \<and> votedFor r2 = [] \<and>
            leaderID r2 = ServerID (config r)"
proof -
  have r1: "replicateOnce_response LS SS r p entries resp = stepDown SS t r"
    using assms(1,5) by (simp add: replicateOnce_response_def)
  have "\<not> t < rvr_Term vote" using assms(1,2) by (meson le_less_trans less_asym)
  moreover have "quorum (stepDown SS t r) = votes + 1" using assms(4) by (simp add: quorum_def)
  ultimately show ?thesis
    using assms(3) by (simp add: r1 receiveVote_def checkVoteTerm_def countVote_def Let_def)
qed

lemma late_vote_elects_in_later_term_witness:
  "let r1 = replicateOnce_response InmemLog InmemStable sample_candidate 0 []
              \<lparr>aer_Term = 5, Success = False, ConflictTerm = 0, ConflictIndex = 0\<rparr>;
       (r2, votes', left) = receiveVote InmemStable r1 1 \<lparr>rvr_Term = 1, VoteGranted = True\<rparr>
   in state r1 = Follower \<and> currentTerm r1 = 5 \<and>
      left \<and> state r2 = Leader \<and> currentTerm r2 = 5 \<and> votedFor r2 = [] \<and>
      leaderID r2 = ServerID (config sample_candidate)"
proof -
  have 1: "currentTerm sample_candidate < 5" "rvr_Term \<lparr>rvr_Term = 1, VoteGranted = True\<rparr> \<le> currentTerm sample_candidate"
    "VoteGranted \<lparr>rvr_Term = 1, VoteGranted = True\<rparr>" "quorum sample_candidate = 1 + 1"
    "5 = aer_Term \<lparr>aer_Term = 5, Success = False, ConflictTerm = 0, ConflictIndex = 0\<rparr>"
    by (simp_all add: sample_candidate_fields quorum_def sample_config_def)
  show ?thesis by (rule late_vote_elects_in_later_term [OF 1])
qed

end
