(* ===== verification/Raft_Runs.thy ===== *)
theory Raft_Runs
  imports Raft_Process Raft_Laws
begin

text \<open>
  Properties of the runs of one node, whatever the network sends it: the stable store is never
  behind the node, a cluster of one never commits, and a leader that has lost its term can still
  write into its log.
\<close>

section \<open>Crashes\<close>

lemma reaches_durable:
  "reaches LS SS A P ls Q \<Longrightarrow> stable_store SS sinv \<Longrightarrow> durable SS sinv (node P) \<Longrightarrow> durable SS sinv (node Q)"
  by (induction rule: reaches.induct) (auto intro: stable_store.durable_step)

text \<open>
  C33. Crash safety of term and vote. After any run of a node, whatever requests and replies it
  has been sent, a node started on its stable store has the term and the vote the node had at its
  last step, as a follower: there is no moment at which a crash would lose or revive a vote.
\<close>

theorem crash_keeps_term_and_vote:
  assumes "stable_store SS sinv" and "durable SS sinv (node P)" and "reaches LS SS A P ls Q"
    and "validate c = None" and "NewRaftNode SS c l (stableStore (node Q)) f = Ret (Inr r)"
  shows "currentTerm r = currentTerm (node Q) \<and> votedFor r = votedFor (node Q) \<and>
    state r = Follower \<and> durable SS sinv r"
proof -
  have "durable SS sinv (node Q)" by (rule reaches_durable [OF assms(3,1,2)])
  then show ?thesis
    using stable_store.NewRaftNode_restores(2) [OF assms(1) _ assms(4,5)] by (simp add: durable_def)
qed

text \<open>A node that times out and starts an election.\<close>

definition sample_process :: "(InmemLogStore, InmemStableStore, nat, nat) Process" where
  "sample_process = start (sample_node ''b'' [])"

definition sample_standing :: "(InmemLogStore, InmemStableStore, nat, nat) Process" where
  "sample_standing =
     \<lparr>node = sample_candidate,
      pc = ElectionStarted (fst (snd (startElection InmemLog InmemStable (electionTimeout (sample_node ''b'' []))))),
      applying = None\<rparr>"

lemma sample_run:
  "\<exists>ls. reaches InmemLog InmemStable sample_fsm sample_process ls sample_standing"
proof -
  let ?r = "sample_node ''b'' []" and ?n = "electionTimeout (sample_node ''b'' [])"
  have 1: "reaches InmemLog InmemStable sample_fsm sample_process ([] @ [Internal]) (sample_process\<lparr>pc := InFollower\<rparr>)"
    by (rule reaches.more [OF reaches.here], rule run_follower) (simp_all add: sample_process_def start_def sample_node_def)
  have 2: "reaches InmemLog InmemStable sample_fsm sample_process (([] @ [Internal]) @ [Internal])
      ((sample_process\<lparr>pc := InFollower\<rparr>)\<lparr>node := electionTimeout (node (sample_process\<lparr>pc := InFollower\<rparr>)), pc := Top\<rparr>)"
    by (rule reaches.more [OF 1], rule follower_timeout) simp
  have "reaches InmemLog InmemStable sample_fsm sample_process
      ((([] @ [Internal]) @ [Internal]) @ [SendVoteRequests (fst (snd (startElection InmemLog InmemStable ?n)))])
      (((sample_process\<lparr>pc := InFollower\<rparr>)\<lparr>node := electionTimeout (node (sample_process\<lparr>pc := InFollower\<rparr>)), pc := Top\<rparr>)
        \<lparr>node := fst (startElection InmemLog InmemStable ?n),
         pc := ElectionStarted (fst (snd (startElection InmemLog InmemStable ?n)))\<rparr>)"
    by (rule reaches.more [OF 2], rule run_candidate [where targets = "snd (snd (startElection InmemLog InmemStable ?n))"])
      (simp_all add: sample_process_def start_def electionTimeout_def)
  then show ?thesis
    by (auto simp: sample_standing_def sample_process_def start_def sample_candidate_def)
qed

lemma sample_durable: "durable InmemStable (\<lambda>s. True) (node sample_process)"
  by (simp add: durable_def persisted_def sample_process_def start_def sample_node_def InmemStable_def
      inmem_GetUint64_def inmem_Get_def NewInmemStableStore_def)

definition sample_reborn :: "(InmemLogStore, InmemStableStore, nat, nat) RaftNode" where
  "sample_reborn =
     (sample_node ''b'' [])\<lparr>currentTerm := 1, votedFor := ''b'', stableStore := stableStore sample_candidate\<rparr>"

lemma crash_keeps_term_and_vote_witness:
  "NewRaftNode InmemStable (sample_config ''b'') (logStore sample_candidate) (stableStore sample_candidate) 0 =
     (Ret (Inr sample_reborn) :: (new_error + (InmemLogStore, InmemStableStore, nat, nat) RaftNode) outcome) \<and>
   currentTerm sample_reborn = 1 \<and> votedFor sample_reborn = ''b''"
proof -
  obtain ls where run: "reaches InmemLog InmemStable sample_fsm sample_process ls sample_standing"
    using sample_run by blast
  have c: "validate (sample_config ''b'') = None"
    by (simp add: validate_def sample_config_def DefaultConfig_def Millisecond_def)
  have "persisted InmemStable sample_candidate"
    using reaches_durable [OF run inmem_stable.stable_store_axioms sample_durable]
    by (simp add: durable_def sample_standing_def)
  then have new: "NewRaftNode InmemStable (sample_config ''b'') (logStore sample_candidate) (stableStore sample_candidate) 0 =
      (Ret (Inr sample_reborn) :: (new_error + (InmemLogStore, InmemStableStore, nat, nat) RaftNode) outcome)"
    using c by (simp add: NewRaftNode_def restoreState_def persisted_def sample_reborn_def sample_node_def
        sample_candidate_fields)
  then show ?thesis
    using crash_keeps_term_and_vote [OF inmem_stable.stable_store_axioms sample_durable run c, of "logStore sample_candidate" 0 sample_reborn]
    by (simp add: sample_standing_def sample_candidate_fields)
qed

section \<open>A cluster of one\<close>

text \<open>The fields that decide what is committed.\<close>

definition same_commit :: "('l, 's, 'f, 'r) RaftNode \<Rightarrow> ('l, 's, 'f, 'r) RaftNode \<Rightarrow> bool" where
  "same_commit r r' \<longleftrightarrow>
     config r' = config r \<and> commitIndex r' = commitIndex r \<and> lastApplied r' = lastApplied r \<and>
     node_fsm r' = node_fsm r \<and> peers r' = peers r \<and> length (peer_heap r') = length (peer_heap r)"

lemma same_commit_trans: "same_commit r r' \<Longrightarrow> same_commit r' r'' \<Longrightarrow> same_commit r r''"
  by (simp add: same_commit_def)

lemma failAll_commit: "same_commit r (failAll e r)"
proof -
  have "same_commit r (foldl (\<lambda>q p. respondFuture p (Some e) None q) r ps)" for ps
  proof (induction ps arbitrary: r)
    case Nil
    then show ?case by (simp add: same_commit_def)
  next
    case (Cons p ps)
    then show ?case using Cons [of "respondFuture p (Some e) None r"] by (simp add: same_commit_def)
  qed
  then show ?thesis by (simp add: failAll_def same_commit_def)
qed

lemma triggerReplication_heap [simp]: "length (peer_heap (triggerReplication r)) = length (peer_heap r)"
proof -
  have "length (foldl (\<lambda>h p. h[p := (h ! p)\<lparr>triggerCh := True\<rparr>]) h ps) = length h" for h :: "peerState list" and ps
    by (induction ps arbitrary: h) simp_all
  then show ?thesis by (simp add: triggerReplication_def)
qed

lemma appendNoOp_commit: "same_commit r (appendNoOp LS r)"
  by (auto simp: same_commit_def appendNoOp_def Let_def split: prod.split option.split)

lemma handleApplyRequest_commit: "same_commit r (handleApplyRequest LS req r)"
  by (auto simp: same_commit_def handleApplyRequest_def Let_def split: prod.split option.split)

lemma node_Apply_commit: "node_Apply r data w = (r', f) \<Longrightarrow> same_commit r r'"
  by (auto simp: node_Apply_def Let_def same_commit_def split: if_splits applyWay.splits)

lemma leader_next_commit: "leader_next r = (r', p) \<Longrightarrow> same_commit r r'"
  using failAll_commit [of r ErrLeaderLost]
  by (auto simp: leader_next_def failPendingFutures_def same_commit_def split: if_splits)

lemma becomeLeader_commit: "same_commit r (becomeLeader r)"
  by (simp add: same_commit_def becomeLeader_def)

definition alone :: "'f \<Rightarrow> ('l, 's, 'f, 'r) Process \<Rightarrow> bool" where
  "alone f P \<longleftrightarrow>
     (\<forall>p \<in> set (Peers (config (node P))). ID p = ServerID (config (node P))) \<and>
     commitIndex (node P) = 0 \<and> lastApplied (node P) = 0 \<and> node_fsm (node P) = f \<and>
     peers (node P) = [] \<and> peer_heap (node P) = [] \<and> applying P \<in> {None, Some (1, 0)}"

lemma alone_commit:
  "alone f P \<Longrightarrow> same_commit (node P) r \<Longrightarrow> alone f (P\<lparr>node := r, pc := q\<rparr>)"
  "alone f P \<Longrightarrow> same_commit (node P) r \<Longrightarrow> alone f (P\<lparr>node := r\<rparr>)"
  by (auto simp: alone_def same_commit_def)

lemma initLeader_alone:
  assumes "\<forall>p \<in> set (Peers (config r)). ID p = ServerID (config r)" and "peers r = []"
  shows "initLeader LS r = r"
proof -
  have "foldl (addPeer i) q ps = q" if "\<forall>p \<in> set ps. ID p = ServerID (config q)" for q i ps
    using that by (induction ps) (simp_all add: addPeer_def)
  moreover have "r\<lparr>peers := []\<rparr> = r" using assms(2) by (cases r) simp
  ultimately show ?thesis using assms(1) by (simp add: initLeader_def)
qed

lemma alone_step:
  assumes "pstep LS SS A P l P'" and "\<forall>cmd resp. l \<noteq> ServeRPC cmd resp" and "alone f P"
  shows "alone f P'"
  using assms
proof (induction rule: pstep.induct)
  case (run_candidate P r req targets)
  then have "same_commit (node P) r"
    by (auto simp: same_commit_def startElection_def Let_def split: prod.splits)
  then show ?case using run_candidate.prems(2) by (intro alone_commit)
next
  case (run_leader P)
  then show ?case by (simp add: alone_def initLeader_alone)
next
  case (follower_timeout P)
  then show ?case by (simp add: alone_def electionTimeout_def)
next
  case (candidate_start P req r won)
  then have "same_commit (node P) r"
    by (auto simp: immediateMajority_def becomeLeader_commit same_commit_def split: if_splits)
      (simp_all add: becomeLeader_def)
  then show ?case using candidate_start.prems(2) by (intro alone_commit)
next
  case (candidate_vote P req voters v vote r votes left)
  then show ?case by (auto simp: alone_def peer_ids_def)
next
  case (leader_start P r pc')
  then show ?case
    using same_commit_trans [OF appendNoOp_commit leader_next_commit [OF leader_start.hyps(2)]] by (intro alone_commit)
next
  case (leader_apply P req reqs r pc')
  have "same_commit (node P) ((node P)\<lparr>applyCh := reqs\<rparr>)" by (simp add: same_commit_def)
  from same_commit_trans [OF this same_commit_trans [OF handleApplyRequest_commit leader_next_commit [OF leader_apply.hyps(3)]]]
  show ?case using leader_apply.prems(2) by (intro alone_commit)
next
  case (leader_shutdown P)
  then show ?case
    using failAll_commit [of "node P" ErrLeaderLost] by (simp add: alone_commit failPendingFutures_def)
next
  case (client_apply P way data r future)
  then show ?case using node_Apply_commit by (blast intro: alone_commit)
next
  case (client_expired future P timedOut)
  then show ?case by (simp add: alone_def applyExpired_def)
next
  case (shutdown P)
  have "same_commit (node P) (node_Shutdown (node P))"
    using failAll_commit [of "(node P)\<lparr>shutdownCh := True, state := Follower\<rparr>" ErrShutdown]
    by (simp add: node_Shutdown_def same_commit_def)
  then show ?case using shutdown.prems(2) by (rule alone_commit(2) [rotated])
qed (auto simp: alone_def)

lemma alone_run:
  assumes "NewRaftNode SS c l s f = Ret (Inr r)" and "Peers c = [p]"
    and "reaches LS SS A (start r) ls Q" and "\<forall>lb \<in> set ls. \<forall>cmd resp. lb \<noteq> ServeRPC cmd resp"
  shows "alone f Q"
proof -
  have "alone f (start r)"
    using assms(1,2)
    by (auto simp: NewRaftNode_def restoreState_def alone_def start_def validate_def bind_outcome_eq_Ret
        split: option.splits if_splits sum.splits prod.splits)
  with assms(3,4) show ?thesis
    by (induction rule: reaches.induct) (auto intro: alone_step)
qed

text \<open>Such a node does become the leader, but never commits.\<close>

lemma single_node_elects_itself:
  assumes "state r = Follower" and "quorum r = 1"
  shows "\<exists>ls Q. reaches LS SS A (start r) ls Q \<and> (\<forall>lb \<in> set ls. \<forall>cmd resp. lb \<noteq> ServeRPC cmd resp) \<and>
    state (node Q) = Leader"
proof -
  let ?r1 = "electionTimeout r"
  obtain r2 req targets where e: "startElection LS SS ?r1 = (r2, req, targets)"
    by (cases "startElection LS SS ?r1") auto
  obtain r3 won where w: "immediateMajority r2 = (r3, won)" by (cases "immediateMajority r2") auto
  have r3: "state r3 = Leader" "won"
    using immediateMajority_ballot [OF w] startElection_ballot [OF e] assms(2)
    by (simp_all add: quorum_def electionTimeout_def)
  define P1 where "P1 = (start r)\<lparr>pc := InFollower\<rparr>"
  define P2 where "P2 = P1\<lparr>node := electionTimeout (node P1), pc := Top\<rparr>"
  define P3 where "P3 = P2\<lparr>node := r2, pc := ElectionStarted req\<rparr>"
  define P4 where "P4 = P3\<lparr>node := r3, pc := (if won then Top else candidate_next r3 req [])\<rparr>"
  have 1: "pstep LS SS A (start r) Internal P1" unfolding P1_def
    by (rule run_follower) (use assms(1) in \<open>simp_all add: start_def\<close>)
  have 2: "pstep LS SS A P1 Internal P2" unfolding P2_def
    by (rule follower_timeout) (simp add: P1_def)
  have 3: "pstep LS SS A P2 (SendVoteRequests req) P3" unfolding P3_def
    by (rule run_candidate) (use e in \<open>simp_all add: P2_def P1_def start_def electionTimeout_def\<close>)
  have 4: "pstep LS SS A P3 Internal P4" unfolding P4_def
    by (rule candidate_start) (use w in \<open>simp_all add: P3_def\<close>)
  have "reaches LS SS A (start r) (((([] @ [Internal]) @ [Internal]) @ [SendVoteRequests req]) @ [Internal]) P4"
    by (intro reaches.more [OF _ 4] reaches.more [OF _ 3] reaches.more [OF _ 2] reaches.more [OF _ 1] reaches.here)
  moreover have "state (node P4) = Leader" using r3 by (simp add: P4_def)
  ultimately show ?thesis by (intro exI conjI) auto
qed

section \<open>A deposed leader\<close>

text \<open>
  A leader that is deposed before it has written its first entry writes it all the same.
  \<open>runLeader\<close> starts the replicators and then calls \<open>appendNoOp\<close>, which does not look at the node's state:
  when a reply with a later term comes in between, the node has become a follower in that term and
  yet appends to its log an entry of that term, which belongs to another leader.
\<close>

lemma deposed_leader_appends_no_op:
  assumes "log_store LS linv lmap" and "repr linv lmap (logStore (node P)) xs" and "Suc (length xs) < 2 ^ 64 - 1"
    and "pc P = LeaderReady" and "p < length (peer_heap (node P))" and "currentTerm (node P) < aer_Term resp"
  shows "\<exists>Q. reaches LS SS A P [ReceiveAppendReply p entries resp, Internal] Q \<and>
    state (node Q) = Follower \<and> currentTerm (node Q) = aer_Term resp \<and>
    repr linv lmap (logStore (node Q))
      (xs @ [\<lparr>Index = last_of xs + 1, Term = aer_Term resp, Data = []\<rparr>])"
proof -
  let ?r = "stepDown SS (aer_Term resp) (node P)"
  let ?e = "\<lparr>Index = last_of xs + 1, Term = aer_Term resp, Data = []\<rparr>"
  define P1 where "P1 = P\<lparr>node := replicateOnce_response LS SS (node P) p entries resp\<rparr>"
  have P1: "node P1 = ?r" "pc P1 = LeaderReady"
    using assms(4,6) by (simp_all add: P1_def replicateOnce_response_def)
  obtain l where l: "StoreLogs LS (logStore (node P)) [?e] = (l, None)" "repr linv lmap l (xs @ [?e])"
    using log_store.repr_store_next [OF assms(1,2,3)] by blast
  have no: "appendNoOp LS (node P1) = triggerReplication (?r\<lparr>logStore := l\<rparr>)"
    using l(1) log_store.repr_last [OF assms(1,2)] by (simp add: P1 appendNoOp_def StoreLog_def Let_def)
  define P2 where "P2 = P1\<lparr>node := failPendingFutures (appendNoOp LS (node P1)), pc := Top\<rparr>"
  have 1: "pstep LS SS A P (ReceiveAppendReply p entries resp) P1" unfolding P1_def
    by (rule replicate_reply [OF assms(5)])
  have 2: "pstep LS SS A P1 Internal P2" unfolding P2_def
    by (rule leader_start) (simp_all add: P1 no [unfolded P1] leader_next_def)
  have "reaches LS SS A P (([] @ [ReceiveAppendReply p entries resp]) @ [Internal]) P2"
    by (rule reaches.more [OF reaches.more [OF reaches.here 1] 2])
  moreover have "same_ballot (appendNoOp LS (node P1)) (node P2)" "logStore (node P2) = l"
    by (simp_all add: P2_def no failPendingFutures_log)
  ultimately show ?thesis
    using l(2) by (intro exI [of _ P2]) (simp add: same_ballot_def no)
qed

definition sample_deposed :: AppendEntriesResponse where
  "sample_deposed = \<lparr>aer_Term = 5, Success = False, ConflictTerm = 0, ConflictIndex = 0\<rparr>"

lemma deposed_leader_appends_no_op_witness:
  "\<exists>Q. reaches InmemLog InmemStable sample_fsm \<lparr>node = sample_leader, pc = LeaderReady, applying = None\<rparr>
      [ReceiveAppendReply 0 [] sample_deposed, Internal] Q \<and>
    state (node Q) = Follower \<and> currentTerm (node Q) = 5 \<and>
    repr inmem_linv inmem_lmap (logStore (node Q)) (sample_leader_log @ [\<lparr>Index = 4, Term = 5, Data = []\<rparr>])"
proof -
  let ?P = "\<lparr>node = sample_leader, pc = LeaderReady, applying = None\<rparr>"
  have 1: "repr inmem_linv inmem_lmap (logStore (node ?P)) sample_leader_log"
    and 2: "0 < length (peer_heap (node ?P))"
    using sample_contact by (simp_all add: in_contact_def)
  have 3: "currentTerm (node ?P) < aer_Term sample_deposed"
    by (simp add: sample_leader_def sample_deposed_def)
  have len: "length sample_leader_log = 3" by (simp add: sample_leader_log_def)
  then have 4: "Suc (length sample_leader_log) < 2 ^ 64 - 1" by simp
  from deposed_leader_appends_no_op [OF inmem_log.log_store_axioms 1 4 _ 2 3, of InmemStable sample_fsm "[]"]
  show ?thesis by (simp add: len last_of_def sample_deposed_def)
qed

end
