(* ===== verification/Raft_Cluster.thy ===== *)
theory Raft_Cluster
  imports Election_Spec Raft_Runs
begin

text \<open>
  A cluster of nodes that exchange messages over a network that may delay, repeat, reorder and lose
  them, and that may crash and start again on their stores. The processes are those of theory
  \<open>Raft_Process\<close>. Leader election in the cluster refines the abstract specification of theory
  \<open>Election_Spec\<close>, provided that no reply to a replicator of an earlier leadership deposes a
  node that is not the leader (\<open>fresh\<close>).
\<close>

section \<open>The cluster\<close>

text \<open>Beside the processes, the requests for votes and for appending ever sent, and the votes ever given, with the voter.\<close>

record ('l, 's, 'f, 'r) Cluster =
  procs :: "string \<Rightarrow> ('l, 's, 'f, 'r) Process"
  sentVotes :: "RequestVoteRequest set"
  voteReplies :: "(string \<times> RequestVoteRequest \<times> RequestVoteResponse) set"
  sentAppends :: "AppendEntriesRequest set"

text \<open>
  What the network can deliver to node \<open>i\<close>: a request that another node has sent, and the reply of a
  voter to the very request of the running election (each election has its own channel of votes). The
  replies that replicators receive are left arbitrary.
\<close>

definition admissible :: "('l, 's, 'f, 'r) Cluster \<Rightarrow> string \<Rightarrow> label \<Rightarrow> bool" where
  "admissible C i l =
     (case l of
        ReceiveVote v vote \<Rightarrow>
          (case pc (procs C i) of InCandidate req voters \<Rightarrow> (v, req, vote) \<in> voteReplies C | _ \<Rightarrow> False)
      | ServeRPC cmd resp \<Rightarrow>
          (case cmd of
             CmdRequestVote req \<Rightarrow> req \<in> sentVotes C \<and> CandidateID req \<noteq> i
           | CmdAppendEntries req \<Rightarrow> req \<in> sentAppends C \<and> LeaderID req \<noteq> i
           | CmdUnknown \<Rightarrow> True)
      | _ \<Rightarrow> True)"

definition publish :: "string \<Rightarrow> label \<Rightarrow> ('l, 's, 'f, 'r) Cluster \<Rightarrow> ('l, 's, 'f, 'r) Cluster" where
  "publish i l C =
     (case l of
        SendVoteRequests req \<Rightarrow> C\<lparr>sentVotes := insert req (sentVotes C)\<rparr>
      | SendAppend p req \<Rightarrow> C\<lparr>sentAppends := insert req (sentAppends C)\<rparr>
      | ServeRPC cmd resp \<Rightarrow>
          (case (cmd, resp) of
             (CmdRequestVote req, RespRequestVote vote) \<Rightarrow>
               C\<lparr>voteReplies := insert (i, req, vote) (voteReplies C)\<rparr>
           | _ \<Rightarrow> C)
      | _ \<Rightarrow> C)"

inductive cstep :: "'l LogStore \<Rightarrow> 's StableStore \<Rightarrow> ('f, 'r) FSM \<Rightarrow> string set \<Rightarrow>
    ('l, 's, 'f, 'r) Cluster \<Rightarrow> string \<Rightarrow> label option \<Rightarrow> ('l, 's, 'f, 'r) Cluster \<Rightarrow> bool"
  for LS SS A ids where
  act: "i \<in> ids \<Longrightarrow> pstep LS SS A (procs C i) l P \<Longrightarrow> admissible C i l \<Longrightarrow>
    cstep LS SS A ids C i (Some l) (publish i l (C\<lparr>procs := (procs C)(i := P)\<rparr>))"
| crash: "i \<in> ids \<Longrightarrow>
    NewRaftNode SS (config (node (procs C i))) (logStore (node (procs C i))) (stableStore (node (procs C i))) f =
      Ret (Inr r) \<Longrightarrow>
    cstep LS SS A ids C i None (C\<lparr>procs := (procs C)(i := start r)\<rparr>)"

text \<open>No reply with a later term reaches a node that is not the leader, and no term overflows.\<close>

definition fresh :: "('l, 's, 'f, 'r) Cluster \<Rightarrow> string \<Rightarrow> label option \<Rightarrow> bool" where
  "fresh C i l =
     (case l of
        Some (ReceiveAppendReply p entries resp) \<Rightarrow>
          state (node (procs C i)) = Leader \<or> aer_Term resp \<le> currentTerm (node (procs C i))
      | Some (SendVoteRequests req) \<Rightarrow> currentTerm (node (procs C i)) < - 1
      | _ \<Rightarrow> True)"

inductive cluster_run :: "'l LogStore \<Rightarrow> 's StableStore \<Rightarrow> ('f, 'r) FSM \<Rightarrow> string set \<Rightarrow>
    ('l, 's, 'f, 'r) Cluster \<Rightarrow> ('l, 's, 'f, 'r) Cluster \<Rightarrow> bool"
  for LS SS A ids C where
  refl: "cluster_run LS SS A ids C C"
| step: "cluster_run LS SS A ids C D \<Longrightarrow> cstep LS SS A ids D i l E \<Longrightarrow> fresh D i l \<Longrightarrow>
    cluster_run LS SS A ids C E"

text \<open>A cluster at its start: every node knows the same members and has just started.\<close>

definition member_config :: "string set \<Rightarrow> string \<Rightarrow> Config \<Rightarrow> bool" where
  "member_config ids i c \<longleftrightarrow>
     ServerID c = i \<and> ID ` set (Peers c) = ids \<and> distinct (map ID (Peers c)) \<and> i \<noteq> [] \<and> validate c = None"

definition cluster_init :: "'s StableStore \<Rightarrow> ('s \<Rightarrow> bool) \<Rightarrow> string set \<Rightarrow> ('l, 's, 'f, 'r) Cluster \<Rightarrow> bool" where
  "cluster_init SS sinv ids C \<longleftrightarrow>
     (\<forall>i. pc (procs C i) = Top \<and> state (node (procs C i)) = Follower) \<and>
     (\<forall>i \<in> ids. member_config ids i (config (node (procs C i))) \<and> durable SS sinv (node (procs C i))) \<and>
     sentVotes C = {} \<and> voteReplies C = {} \<and> sentAppends C = {}"

section \<open>The refinement\<close>

definition phase_of :: "pc \<Rightarrow> phase" where
  "phase_of p =
     (case p of ElectionStarted req \<Rightarrow> Running {} | InCandidate req voters \<Rightarrow> Running (set voters) | _ \<Rightarrow> Idle)"

definition view :: "('l, 's, 'f, 'r) Cluster \<Rightarrow> (u64 \<times> string \<times> string) set \<Rightarrow>
    (u64 \<times> string \<times> string set) set \<Rightarrow> election" where
  "view C B W =
     \<lparr>e_term = \<lambda>i. currentTerm (node (procs C i)), e_vote = \<lambda>i. votedFor (node (procs C i)),
      e_role = \<lambda>i. state (node (procs C i)), e_phase = \<lambda>i. phase_of (pc (procs C i)),
      ballots = B, winners = W\<rparr>"

text \<open>The abstract state after one node has changed.\<close>

definition upd :: "string \<Rightarrow> u64 \<Rightarrow> string \<Rightarrow> ServerState \<Rightarrow> phase \<Rightarrow> election \<Rightarrow> election" where
  "upd i t v rl ph s =
     s\<lparr>e_term := (e_term s)(i := t), e_vote := (e_vote s)(i := v), e_role := (e_role s)(i := rl),
       e_phase := (e_phase s)(i := ph)\<rparr>"

lemma view_fields [simp]:
  "e_term (view C B W) i = currentTerm (node (procs C i))" "e_vote (view C B W) i = votedFor (node (procs C i))"
  "e_role (view C B W) i = state (node (procs C i))" "e_phase (view C B W) i = phase_of (pc (procs C i))"
  "ballots (view C B W) = B" "winners (view C B W) = W"
  by (simp_all add: view_def)

lemma view_upd:
  "view (C\<lparr>procs := (procs C)(i := P)\<rparr>) B W =
     upd i (currentTerm (node P)) (votedFor (node P)) (state (node P)) (phase_of (pc P)) (view C B W)"
  by (simp add: view_def upd_def fun_eq_iff)

lemma view_upd_sets:
  "(upd i (currentTerm (node P)) (votedFor (node P)) (state (node P)) (phase_of (pc P)) (view C B W))
     \<lparr>ballots := B', winners := W'\<rparr> = view (C\<lparr>procs := (procs C)(i := P)\<rparr>) B' W'"
  by (simp add: view_def upd_def fun_eq_iff)

lemma view_publish [simp]: "view (publish i l C) B W = view C B W"
  by (simp add: publish_def view_def split: label.split Command.split RPCResponse.split)

lemma publish_procs [simp]: "procs (publish i l C) = procs C"
  by (simp add: publish_def split: label.split Command.split RPCResponse.split)

lemma phase_of_simps [simp]:
  "phase_of Top = Idle" "phase_of InFollower = Idle" "phase_of LeaderReady = Idle" "phase_of InLeader = Idle"
  "phase_of Stopped = Idle" "phase_of (ElectionStarted req) = Running {}"
  "phase_of (InCandidate req vs) = Running (set vs)"
  by (simp_all add: phase_of_def)

text \<open>Groups of abstract steps.\<close>

lemma upd_same: "upd i (e_term s i) (e_vote s i) (e_role s i) (e_phase s i) s = s"
  by (simp add: upd_def)

lemma esteps_adopt: "e_term s i < t \<Longrightarrow> (estep ids)\<^sup>*\<^sup>* s (upd i t [] Follower Idle s)"
  using adopt [of s i t ids] by (auto simp: upd_def)

lemma esteps_relax:
  assumes "rl = e_role s i \<or> rl \<noteq> Leader" and "ph = e_phase s i \<or> ph = Idle"
  shows "(estep ids)\<^sup>*\<^sup>* s (upd i (e_term s i) (e_vote s i) rl ph s)"
proof -
  have 1: "(estep ids)\<^sup>*\<^sup>* s (s\<lparr>e_role := (e_role s)(i := rl)\<rparr>)"
  proof (cases "rl = e_role s i")
    case False
    then show ?thesis using assms(1) relax [of rl ids s i] by blast
  qed simp
  have 2: "(estep ids)\<^sup>*\<^sup>* u (u\<lparr>e_phase := (e_phase u)(i := ph)\<rparr>)" if "e_phase u = e_phase s" for u
  proof (cases "ph = e_phase s i")
    case True
    then have "u\<lparr>e_phase := (e_phase u)(i := ph)\<rparr> = u" using that by simp
    then show ?thesis by simp
  next
    case False
    then show ?thesis using assms(2) abandon [of ids u i] by auto
  qed
  show ?thesis
    using rtranclp_trans [OF 1 2] by (simp add: upd_def)
qed

lemma esteps_grant:
  assumes "i \<in> ids" and "i \<noteq> []" and "c \<noteq> []" and "c \<noteq> i" and "e_vote s i = [] \<or> e_vote s i = c"
  shows "(estep ids)\<^sup>*\<^sup>* s ((upd i (e_term s i) c (e_role s i) (e_phase s i) s)
    \<lparr>ballots := insert (e_term s i, i, c) (ballots s)\<rparr>)"
proof -
  have "(upd i (e_term s i) c (e_role s i) (e_phase s i) s)\<lparr>ballots := insert (e_term s i, i, c) (ballots s)\<rparr> =
      s\<lparr>e_vote := (e_vote s)(i := c), ballots := insert (e_term s i, i, c) (ballots s)\<rparr>"
    by (simp add: upd_def)
  then show ?thesis using grant [OF assms] by simp
qed

lemma upd_upd [simp]: "upd i t v rl ph (upd i t' v' rl' ph' s) = upd i t v rl ph s"
  by (simp add: upd_def)

lemma upd_fields [simp]:
  "e_term (upd i t v rl ph s) i = t" "e_vote (upd i t v rl ph s) i = v" "e_role (upd i t v rl ph s) i = rl"
  "e_phase (upd i t v rl ph s) i = ph" "ballots (upd i t v rl ph s) = ballots s"
  "winners (upd i t v rl ph s) = winners s"
  by (simp_all add: upd_def)

lemma upd_ballots: "upd i t v rl ph (s\<lparr>ballots := B\<rparr>) = (upd i t v rl ph s)\<lparr>ballots := B\<rparr>"
  by (simp add: upd_def)

text \<open>The abstract state agrees with a node.\<close>

definition shows_node :: "election \<Rightarrow> string \<Rightarrow> ('l, 's, 'f, 'r) RaftNode \<Rightarrow> bool" where
  "shows_node s i r \<longleftrightarrow> e_term s i = currentTerm r \<and> e_vote s i = votedFor r \<and> e_role s i = state r"

text \<open>The ballot that a step casts, and the leadership that it may win.\<close>

definition cast :: "string \<Rightarrow> label \<Rightarrow> (u64 \<times> string \<times> string) set" where
  "cast i l =
     (case l of
        SendVoteRequests req \<Rightarrow> {(rv_Term req, i, i)}
      | ServeRPC cmd resp \<Rightarrow>
          (case (cmd, resp) of
             (CmdRequestVote req, RespRequestVote vote) \<Rightarrow>
               if VoteGranted vote then {(rv_Term req, i, CandidateID req)} else {}
           | _ \<Rightarrow> {})
      | _ \<Rightarrow> {})"

definition gained :: "election \<Rightarrow> string \<Rightarrow> ('l, 's, 'f, 'r) Process \<Rightarrow> (u64 \<times> string \<times> string set) set" where
  "gained s i P =
     {(t, L, Q). e_role s i \<noteq> Leader \<and> state (node P) = Leader \<and> t = currentTerm (node P) \<and> L = i}"

text \<open>A request for a vote: adopt a later term, then perhaps cast a ballot.\<close>

lemma esteps_vote:
  assumes s: "shows_node s i r" and vote: "handleRequestVote LS SS r req = (r', resp, b)"
    and names: "i \<in> ids" "i \<noteq> []" "CandidateID req \<noteq> []" "CandidateID req \<noteq> i"
    and ph: "ph = Idle \<or> ph = e_phase s i \<and> state r' \<noteq> Follower"
  shows "\<exists>B. (estep ids)\<^sup>*\<^sup>* s ((upd i (currentTerm r') (votedFor r') (state r') ph s)\<lparr>ballots := B\<rparr>) \<and>
    ballots s \<subseteq> B \<and> (VoteGranted resp \<longrightarrow> (rv_Term req, i, CandidateID req) \<in> B) \<and>
    B \<subseteq> ballots s \<union> cast i (ServeRPC (CmdRequestVote req) (RespRequestVote resp))"
proof -
  note v = handleRequestVote_ballot [OF vote]
  have s': "e_term s i = currentTerm r" "e_vote s i = votedFor r" "e_role s i = state r"
    using s by (simp_all add: shows_node_def)
  show ?thesis
  proof (cases "currentTerm r < rv_Term req")
    case True
    let ?u = "upd i (rv_Term req) [] Follower Idle s"
    have r': "currentTerm r' = rv_Term req" "state r' = Follower" "ph = Idle"
      "votedFor r' = (if VoteGranted resp then CandidateID req else [])"
      using v True ph by (auto simp: max.absorb2)
    have u: "(estep ids)\<^sup>*\<^sup>* s ?u" using esteps_adopt True s'(1) by metis
    show ?thesis
    proof (cases "VoteGranted resp")
      case granted: True
      let ?B = "insert (rv_Term req, i, CandidateID req) (ballots s)"
      have "(estep ids)\<^sup>*\<^sup>* ?u ((upd i (rv_Term req) (CandidateID req) Follower Idle s)\<lparr>ballots := ?B\<rparr>)"
        using esteps_grant [OF names, of ?u] by simp
      then show ?thesis using u granted by (intro exI [of _ ?B]) (auto simp: r' cast_def intro: rtranclp_trans)
    next
      case False
      then show ?thesis using u by (intro exI [of _ "ballots s"]) (simp add: r' upd_def)
    qed
  next
    case False
    then have r': "currentTerm r' = currentTerm r" "state r' = state r"
      "votedFor r' = (if VoteGranted resp then CandidateID req else votedFor r)"
      "VoteGranted resp \<Longrightarrow> rv_Term req = currentTerm r \<and> (votedFor r = [] \<or> votedFor r = CandidateID req)"
      using v by (auto simp: max.absorb1)
    have ph': "ph = e_phase s i \<or> ph = Idle" using ph by blast
    show ?thesis
    proof (cases "VoteGranted resp")
      case granted: True
      let ?B = "insert (currentTerm r, i, CandidateID req) (ballots s)"
      let ?w = "(upd i (currentTerm r) (CandidateID req) (state r) (e_phase s i) s)\<lparr>ballots := ?B\<rparr>"
      have "(estep ids)\<^sup>*\<^sup>* s ?w"
        using esteps_grant [OF names, of s] r'(4) [OF granted] by (simp add: s')
      moreover have "(estep ids)\<^sup>*\<^sup>* ?w ((upd i (currentTerm r) (CandidateID req) (state r) ph s)\<lparr>ballots := ?B\<rparr>)"
        using esteps_relax [of "state r" ?w i ph ids] ph' by (simp add: upd_ballots)
      ultimately show ?thesis
        using granted r'(4) [OF granted] by (intro exI [of _ ?B]) (auto simp: r'(1-3) cast_def intro: rtranclp_trans)
    next
      case refused: False
      have "(estep ids)\<^sup>*\<^sup>* s (upd i (currentTerm r) (votedFor r) (state r) ph s)"
        using esteps_relax [OF _ ph', of "state r" ids] by (simp add: s')
      then show ?thesis using refused by (intro exI [of _ "ballots s"]) (simp add: r'(1-3) upd_def)
    qed
  qed
qed

text \<open>A request of a leader: adopt a later term, or forget the vote, or stay.\<close>

lemma esteps_append:
  assumes s: "shows_node s i r" and app: "handleAppendEntries LS SS r req = Some (r', resp, b)"
    and won: "(ae_Term req, LeaderID req, Q) \<in> winners s" "LeaderID req \<noteq> i"
    and self: "state r \<noteq> Follower \<Longrightarrow> votedFor r = i"
    and ph: "ph = Idle \<or> ph = e_phase s i \<and> state r' \<noteq> Follower"
  shows "(estep ids)\<^sup>*\<^sup>* s (upd i (currentTerm r') (votedFor r') (state r') ph s)"
proof -
  note a = handleAppendEntries_ballot [OF app]
  consider (stale) "ae_Term req < currentTerm r" | (later) "currentTerm r < ae_Term req"
    | (forget) "ae_Term req = currentTerm r" "state r \<noteq> Follower" | (stay) "ae_Term req = currentTerm r" "state r = Follower"
    by (metis linorder_neqE)
  then show ?thesis
  proof cases
    case stale
    then show ?thesis using a s ph esteps_relax [of "state r" s i ph ids] by (auto simp: shows_node_def)
  next
    case later
    then have "\<not> ae_Term req < currentTerm r" by simp
    then show ?thesis
      using later a s ph esteps_adopt [of s i "ae_Term req" ids] by (auto simp: shows_node_def)
  next
    case forget
    then have r': "currentTerm r' = currentTerm r" "votedFor r' = []" "state r' = Follower" "ph = Idle"
      using a ph by auto
    have "estep ids s (s\<lparr>e_vote := (e_vote s)(i := []), e_role := (e_role s)(i := Follower),
        e_phase := (e_phase s)(i := Idle)\<rparr>)"
      using forget won s self by (intro estep.forget [of s i "LeaderID req" Q]) (auto simp: shows_node_def)
    moreover have "s\<lparr>e_vote := (e_vote s)(i := []), e_role := (e_role s)(i := Follower),
        e_phase := (e_phase s)(i := Idle)\<rparr> = upd i (currentTerm r') (votedFor r') (state r') ph s"
      using r' s by (simp add: upd_def shows_node_def fun_upd_idem)
    ultimately show ?thesis by auto
  next
    case stay
    then have "currentTerm r' = currentTerm r" "votedFor r' = votedFor r" "state r' = Follower" "ph = Idle"
      using a ph by auto
    then show ?thesis using s stay esteps_relax [of Follower s i Idle ids] by (auto simp: shows_node_def)
  qed
qed

section \<open>Every step of a process is a group of abstract steps\<close>

text \<open>What the goroutine of \<open>run\<close> relies on where it waits.\<close>

definition proc_ok :: "string \<Rightarrow> ('l, 's, 'f, 'r) Process \<Rightarrow> bool" where
  "proc_ok i P \<longleftrightarrow>
     (case pc P of
        ElectionStarted req \<Rightarrow> rv_Term req = currentTerm (node P) \<and> CandidateID req = i
      | InCandidate req voters \<Rightarrow>
          rv_Term req = currentTerm (node P) \<and> CandidateID req = i \<and> distinct voters
      | InFollower \<Rightarrow> state (node P) = Follower
      | LeaderReady \<Rightarrow> state (node P) \<noteq> Candidate
      | InLeader \<Rightarrow> state (node P) \<noteq> Candidate
      | _ \<Rightarrow> True)"

definition label_ok :: "string \<Rightarrow> label \<Rightarrow> (u64 \<times> string \<times> string) set \<Rightarrow> (u64 \<times> string \<times> string set) set \<Rightarrow> bool" where
  "label_ok i l B W =
     (case l of
        SendVoteRequests req \<Rightarrow> CandidateID req \<noteq> []
      | SendAppend p req \<Rightarrow> \<exists>Q. (ae_Term req, LeaderID req, Q) \<in> W
      | ServeRPC cmd resp \<Rightarrow>
          (case (cmd, resp) of
             (CmdRequestVote req, RespRequestVote vote) \<Rightarrow>
               VoteGranted vote \<longrightarrow> (rv_Term req, i, CandidateID req) \<in> B
           | _ \<Rightarrow> True)
      | _ \<Rightarrow> True)"

definition simulated :: "string set \<Rightarrow> election \<Rightarrow> string \<Rightarrow> label \<Rightarrow> ('l, 's, 'f, 'r) Process \<Rightarrow> bool" where
  "simulated ids s i l P \<longleftrightarrow>
     (\<exists>B W. (estep ids)\<^sup>*\<^sup>* s
        ((upd i (currentTerm (node P)) (votedFor (node P)) (state (node P)) (phase_of (pc P)) s)
           \<lparr>ballots := B, winners := W\<rparr>) \<and>
        ballots s \<subseteq> B \<and> winners s \<subseteq> W \<and> label_ok i l B W \<and>
        B \<subseteq> ballots s \<union> cast i l \<and> W \<subseteq> winners s \<union> gained s i P)"

lemma simulatedI:
  assumes "(estep ids)\<^sup>*\<^sup>* s (upd i (currentTerm (node P)) (votedFor (node P)) (state (node P)) (phase_of (pc P)) s)"
    and "label_ok i l (ballots s) (winners s)"
  shows "simulated ids s i l P"
  unfolding simulated_def using assms by (intro exI [of _ "ballots s"] exI [of _ "winners s"]) (simp add: upd_def)

text \<open>Steps that touch neither term nor vote.\<close>

lemma simulated_quiet:
  assumes "shows_node s i r" and "currentTerm (node P) = currentTerm r" and "votedFor (node P) = votedFor r"
    and "state (node P) = state r \<or> state (node P) \<noteq> Leader"
    and "phase_of (pc P) = e_phase s i \<or> phase_of (pc P) = Idle"
    and "label_ok i l (ballots s) (winners s)"
  shows "simulated ids s i l P"
  using assms(1-3) esteps_relax [OF _ assms(5), of "state (node P)" ids] assms(4)
  by (intro simulatedI assms(6)) (auto simp: shows_node_def)

lemma simulated_vote:
  assumes "shows_node s i r" and "handleRequestVote LS SS r req = (node P, resp, b)"
    and "i \<in> ids" "i \<noteq> []" "CandidateID req \<noteq> []" "CandidateID req \<noteq> i"
    and "phase_of (pc P) = Idle \<or> phase_of (pc P) = e_phase s i \<and> state (node P) \<noteq> Follower"
  shows "simulated ids s i (ServeRPC (CmdRequestVote req) (RespRequestVote resp)) P"
proof -
  obtain B where "(estep ids)\<^sup>*\<^sup>* s ((upd i (currentTerm (node P)) (votedFor (node P)) (state (node P)) (phase_of (pc P)) s)
      \<lparr>ballots := B\<rparr>)" "ballots s \<subseteq> B" "VoteGranted resp \<longrightarrow> (rv_Term req, i, CandidateID req) \<in> B"
      "B \<subseteq> ballots s \<union> cast i (ServeRPC (CmdRequestVote req) (RespRequestVote resp))"
    using esteps_vote [OF assms] by blast
  then show ?thesis
    unfolding simulated_def by (intro exI [of _ B] exI [of _ "winners s"]) (simp add: label_ok_def upd_def)
qed

lemma simulated_append:
  assumes "shows_node s i r" and "handleAppendEntries LS SS r req = Some (node P, resp, b)"
    and "(ae_Term req, LeaderID req, Q) \<in> winners s" "LeaderID req \<noteq> i"
    and "state r \<noteq> Follower \<Longrightarrow> votedFor r = i"
    and "phase_of (pc P) = Idle \<or> phase_of (pc P) = e_phase s i \<and> state (node P) \<noteq> Follower"
  shows "simulated ids s i (ServeRPC (CmdAppendEntries req) resp') P"
  using esteps_append [OF assms] by (intro simulatedI) (auto simp: label_ok_def)

text \<open>What the network may deliver, and what the abstract state knows of it.\<close>

definition known :: "('l, 's, 'f, 'r) Cluster \<Rightarrow> election \<Rightarrow> bool" where
  "known C s \<longleftrightarrow>
     (\<forall>req \<in> sentVotes C. CandidateID req \<noteq> []) \<and>
     (\<forall>(v, req, vote) \<in> voteReplies C. VoteGranted vote \<longrightarrow> (rv_Term req, v, CandidateID req) \<in> ballots s) \<and>
     (\<forall>req \<in> sentAppends C. \<exists>Q. (ae_Term req, LeaderID req, Q) \<in> winners s)"

lemma simulated_rpc:
  assumes "shows_node s i (node P)" and "handleRPC LS SS (node P) cmd = Some (node P', resp, b)"
    and "i \<in> ids" "i \<noteq> []" and "known C s" and "admissible C i (ServeRPC cmd resp)"
    and "state (node P) \<noteq> Follower \<Longrightarrow> votedFor (node P) = i"
    and "phase_of (pc P') = Idle \<or> phase_of (pc P') = e_phase s i \<and> state (node P') \<noteq> Follower"
  shows "simulated ids s i (ServeRPC cmd resp) P'"
  using assms(2)
proof (cases rule: handleRPC_cases)
  case (append req resp')
  then obtain Q where "(ae_Term req, LeaderID req, Q) \<in> winners s" "LeaderID req \<noteq> i"
    using assms(5,6) by (auto simp: known_def admissible_def)
  then show ?thesis unfolding append(1) using simulated_append [OF assms(1) append(2)] assms(7,8) by blast
next
  case (vote req resp')
  then have "CandidateID req \<noteq> []" "CandidateID req \<noteq> i"
    using assms(5,6) by (auto simp: known_def admissible_def)
  then show ?thesis unfolding vote(1,3) using simulated_vote [OF assms(1) vote(2)] assms(3,4,8) by blast
next
  case unknown
  have *: "\<not> (phase_of (pc P') = Idle) \<longrightarrow> phase_of (pc P') = e_phase s i" using assms(8) by blast
  show ?thesis
    by (rule simulated_quiet [OF assms(1)]) (use unknown * in \<open>auto simp: label_ok_def\<close>)
qed

text \<open>Winning: the counted voters and the node itself are a majority.\<close>

lemma quorum_majority:
  assumes "member_config ids i (config r)" and "distinct vs" and "set vs \<subseteq> ids" and "i \<notin> set vs"
    and "quorum r \<le> Suc (length vs)"
  shows "majority ids (insert i (set vs))"
proof -
  have ids: "ids = ID ` set (Peers (config r))" "card ids = length (Peers (config r))" "i \<in> ids"
    using assms(1) distinct_card [of "map ID (Peers (config r))"]
    by (auto simp: member_config_def validate_def list_ex_iff split: if_splits)
  have "card (insert i (set vs)) = Suc (length vs)" using assms(2,4) by (simp add: distinct_card)
  then show ?thesis using assms(3,5) ids(2,3) by (auto simp: majority_def quorum_def)
qed

lemma esteps_win:
  assumes "e_phase s i = Running vs" and "majority ids (insert i vs)"
  shows "(estep ids)\<^sup>*\<^sup>* s ((upd i (e_term s i) (e_vote s i) Leader Idle s)
    \<lparr>winners := insert (e_term s i, i, insert i vs) (winners s)\<rparr>)"
proof -
  have "(upd i (e_term s i) (e_vote s i) Leader Idle s)\<lparr>winners := insert (e_term s i, i, insert i vs) (winners s)\<rparr> =
      s\<lparr>e_role := (e_role s)(i := Leader), e_phase := (e_phase s)(i := Idle),
        winners := insert (e_term s i, i, insert i vs) (winners s)\<rparr>"
    by (simp add: upd_def)
  then show ?thesis using win [OF assms] by simp
qed

lemma esteps_count:
  assumes "e_phase s i = Running vs" and "v \<in> ids" and "v \<noteq> i" and "(e_term s i, v, i) \<in> ballots s"
  shows "(estep ids)\<^sup>*\<^sup>* s (upd i (e_term s i) (e_vote s i) (e_role s i) (Running (insert v vs)) s)"
proof -
  have "upd i (e_term s i) (e_vote s i) (e_role s i) (Running (insert v vs)) s =
      s\<lparr>e_phase := (e_phase s)(i := Running (insert v vs))\<rparr>"
    by (simp add: upd_def)
  then show ?thesis using count [OF assms] by simp
qed

lemma simulated_win:
  assumes "(estep ids)\<^sup>*\<^sup>* s (upd i t v rl (Running vs) s)" and "majority ids (insert i vs)"
    and "currentTerm (node P) = t" "votedFor (node P) = v" "state (node P) = Leader" "phase_of (pc P) = Idle"
    and "e_role s i \<noteq> Leader" and "\<And>B W. label_ok i l B W"
  shows "simulated ids s i l P"
proof -
  let ?u = "upd i t v rl (Running vs) s"
  let ?W = "insert (t, i, insert i vs) (winners s)"
  have "(estep ids)\<^sup>*\<^sup>* ?u ((upd i t v Leader Idle s)\<lparr>winners := ?W\<rparr>)"
    using esteps_win [OF _ assms(2), of ?u] by simp
  then have "(estep ids)\<^sup>*\<^sup>* s ((upd i t v Leader Idle s)\<lparr>ballots := ballots s, winners := ?W\<rparr>)"
    using assms(1) by (auto simp: upd_def intro: rtranclp_trans)
  then show ?thesis
    unfolding simulated_def using assms(3-) by (intro exI [of _ "ballots s"] exI [of _ ?W]) (auto simp: gained_def)
qed

text \<open>Standing for election.\<close>

lemma simulated_stand:
  assumes "shows_node s i r" and "startElection LS SS r = (node P, req, targets)" and "pc P = ElectionStarted req"
    and "ServerID (config r) = i" "i \<in> ids" "i \<noteq> []" and "state r = Candidate" and "currentTerm r < - 1"
  shows "simulated ids s i (SendVoteRequests req) P"
proof -
  note b = startElection_ballot [OF assms(2)]
  have t: "currentTerm r < currentTerm r + 1" using less_add1 [OF assms(8)] .
  let ?B = "insert (currentTerm r + 1, i, i) (ballots s)"
  have "estep ids s (s\<lparr>e_term := (e_term s)(i := currentTerm r + 1), e_vote := (e_vote s)(i := i),
      e_phase := (e_phase s)(i := Running {}), ballots := ?B\<rparr>)"
    using assms(1,7) t by (intro stand assms(5,6)) (simp_all add: shows_node_def)
  moreover have "s\<lparr>e_term := (e_term s)(i := currentTerm r + 1), e_vote := (e_vote s)(i := i),
      e_phase := (e_phase s)(i := Running {}), ballots := ?B\<rparr> =
      (upd i (currentTerm (node P)) (votedFor (node P)) (state (node P)) (phase_of (pc P)) s)
        \<lparr>ballots := ?B, winners := winners s\<rparr>"
    using assms(1,3,4) b by (simp add: upd_def shows_node_def fun_upd_idem)
  ultimately show ?thesis
    unfolding simulated_def using b assms(4,6)
    by (intro exI [of _ ?B] exI [of _ "winners s"]) (auto simp: label_ok_def cast_def)
qed

lemma peer_ids_member: "member_config ids i (config r) \<Longrightarrow> peer_ids r = ids - {i}"
  by (auto simp: member_config_def peer_ids_def)

lemma simulated_receive:
  assumes s: "shows_node s i (node P)" and e: "e_phase s i = phase_of (pc P)" "einv ids s"
    and c: "member_config ids i (config (node P))" and ok: "proc_ok i P" and P: "pc P = InCandidate req voters"
    and v: "v \<in> peer_ids (node P)" "v \<notin> set voters"
    and vote: "receiveVote SS (node P) (Suc (length voters)) vote = (r, votes, left)"
    and net: "VoteGranted vote \<Longrightarrow> (rv_Term req, v, CandidateID req) \<in> ballots s"
    and P': "P' = P\<lparr>node := r, pc := (if left then Top
      else candidate_next r req (if VoteGranted vote then v # voters else voters))\<rparr>"
  shows "simulated ids s i (ReceiveVote v vote) P'" and "proc_ok i P'"
proof -
  note b = receiveVote_ballot [OF vote]
  have s': "e_term s i = currentTerm (node P)" "e_vote s i = votedFor (node P)" "e_role s i = state (node P)"
    using s by (simp_all add: shows_node_def)
  have run: "e_phase s i = Running (set voters)" using e(1) P by simp
  have req: "rv_Term req = currentTerm (node P)" "CandidateID req = i" "distinct voters"
    using ok P by (simp_all add: proc_ok_def)
  have vid: "v \<in> ids" "v \<noteq> i" using v(1) peer_ids_member [OF c] by auto
  have voters: "i \<notin> set voters" "set voters \<subseteq> ids" "e_role s i \<noteq> Leader"
    using e(2) run unfolding einv_def running_ok_def ballots_ok_def by blast+
  have lab: "label_ok i (ReceiveVote v vote) B W" for B W by (simp add: label_ok_def)
  consider (later) "currentTerm (node P) < rvr_Term vote"
    | (won) "\<not> currentTerm (node P) < rvr_Term vote" "VoteGranted vote" "quorum (node P) \<le> Suc (Suc (length voters))"
    | (counted) "\<not> currentTerm (node P) < rvr_Term vote" "VoteGranted vote" "\<not> quorum (node P) \<le> Suc (Suc (length voters))"
    | (refused) "\<not> currentTerm (node P) < rvr_Term vote" "\<not> VoteGranted vote"
    by blast
  then have "simulated ids s i (ReceiveVote v vote) P' \<and> proc_ok i P'"
  proof cases
    case later
    then have "node P' = stepDown SS (rvr_Term vote) (node P)" "pc P' = Top" using b P' by simp_all
    then show ?thesis
      using esteps_adopt [of s i "rvr_Term vote" ids] later s' lab
      by (auto simp: proc_ok_def intro: simulatedI)
  next
    case won
    then have r: "currentTerm r = currentTerm (node P)" "votedFor r = votedFor (node P)" "state r = Leader" "left"
      using b by simp_all
    have step: "(estep ids)\<^sup>*\<^sup>* s (upd i (e_term s i) (e_vote s i) (e_role s i) (Running (insert v (set voters))) s)"
      using net [OF won(2)] req s' by (intro esteps_count [OF run vid]) simp
    have "majority ids (insert i (set (v # voters)))"
      using won(3) voters vid v(2) req(3) by (intro quorum_majority [OF c]) auto
    then have "simulated ids s i (ReceiveVote v vote) P'"
      using r s' P' lab voters(3) by (intro simulated_win [OF step]) simp_all
    then show ?thesis using r P' by (simp add: proc_ok_def)
  next
    case counted
    then have r: "r = node P" "\<not> left" using b by simp_all
    have step: "(estep ids)\<^sup>*\<^sup>* s (upd i (e_term s i) (e_vote s i) (e_role s i) (Running (insert v (set voters))) s)"
      using net [OF counted(2)] req s' by (intro esteps_count [OF run vid]) simp
    show ?thesis
    proof (cases "state (node P) = Candidate")
      case True
      then show ?thesis
        using step s' counted r P' v(2) req lab
        by (auto simp: candidate_next_def proc_ok_def intro: simulatedI)
    next
      case False
      then have "simulated ids s i (ReceiveVote v vote) P'"
        using r P' lab by (intro simulated_quiet [OF s]) (simp_all add: candidate_next_def)
      then show ?thesis using False r P' by (simp add: candidate_next_def proc_ok_def)
    qed
  next
    case refused
    then have r: "r = node P" "\<not> left" using b by simp_all
    have "simulated ids s i (ReceiveVote v vote) P'"
      using r refused P' lab run by (intro simulated_quiet [OF s]) (simp_all add: candidate_next_def)
    then show ?thesis using refused r P' req by (simp add: candidate_next_def proc_ok_def)
  qed
  then show "simulated ids s i (ReceiveVote v vote) P'" "proc_ok i P'" by simp_all
qed

text \<open>The other steps.\<close>

lemma vote_is_self:
  assumes "einv ids s" and "shows_node s i (node P)" and "e_phase s i = phase_of (pc P)" and "proc_ok i P"
    and "pc P \<in> {InFollower, InLeader} \<or> (\<exists>req voters. pc P = InCandidate req voters)"
    and "state (node P) \<noteq> Follower"
  shows "votedFor (node P) = i"
proof -
  have "e_role s i = Leader \<or> (\<exists>vs. e_phase s i = Running vs)"
    using assms(2-6) by (cases "state (node P)") (auto simp: proc_ok_def shows_node_def)
  then have "e_vote s i = i" using assms(1) unfolding einv_def leader_ok_def running_ok_def by blast
  then show ?thesis using assms(2) by (simp add: shows_node_def)
qed

lemma leader_next_state:
  "leader_next r = (r', p) \<Longrightarrow> same_ballot r r' \<and> (p = Top \<or> p = InLeader \<and> state r = Leader)"
  using leader_next_cases [of r r' p] by (auto split: if_splits)

lemma quiet_step:
  assumes "shows_node s i (node P)" and "same_ballot (node P) (node P')"
    and "phase_of (pc P') = e_phase s i \<or> phase_of (pc P') = Idle" and "label_ok i l (ballots s) (winners s)"
  shows "simulated ids s i l P'"
  using assms by (intro simulated_quiet [OF assms(1)]) (auto simp: same_ballot_def)

lemma handleRPC_config: "handleRPC LS SS r cmd = Some (r', resp, b) \<Longrightarrow> config r' = config r"
  by (erule handleRPC_cases) (auto dest: handleAppendEntries_ballot handleRequestVote_ballot split: if_splits)

lemma config_step: "pstep LS SS A P l P' \<Longrightarrow> config (node P') = config (node P)"
proof (induction rule: pstep.induct)
  case (run_candidate P r req targets)
  then show ?case using startElection_ballot [OF run_candidate.hyps(3)] by simp
next
  case (follower_rpc P cmd r resp reset)
  then show ?case using handleRPC_config [OF follower_rpc.hyps(2)] by simp
next
  case (candidate_start P req r won)
  then show ?case using immediateMajority_ballot [OF candidate_start.hyps(2)] by simp
next
  case (candidate_vote P req voters v vote r votes left)
  then show ?case using receiveVote_ballot [OF candidate_vote.hyps(4)] by (auto split: if_splits)
next
  case (candidate_rpc P req voters cmd r resp reset)
  then show ?case using handleRPC_config [OF candidate_rpc.hyps(2)] by simp
next
  case (leader_start P r pc')
  then show ?case using leader_next_state [OF leader_start.hyps(2)] appendNoOp_ballot [of "node P" LS]
    by (simp add: same_ballot_def)
next
  case (leader_rpc P cmd r1 resp reset r pc')
  then show ?case using leader_next_state [OF leader_rpc.hyps(3)] handleRPC_config [OF leader_rpc.hyps(2)] by (simp add: same_ballot_def)
next
  case (leader_apply P req reqs r pc')
  then show ?case
    using leader_next_state [OF leader_apply.hyps(3)] handleApplyRequest_ballot [of "(node P)\<lparr>applyCh := reqs\<rparr>" LS req]
    by (simp add: same_ballot_def)
next
  case (replicate_reply p P entries resp)
  then show ?case using replicateOnce_response_cases [of "node P" resp LS SS p entries]
    by (auto simp: same_ballot_def split: if_splits)
next
  case (apply_entry P idx commit r)
  then show ?case using applyEntry_ballot [OF apply_entry.hyps(3)] by (simp add: same_ballot_def)
next
  case (client_apply P way data r future)
  then show ?case using node_Apply_ballot [OF client_apply.hyps(2)] by (simp add: same_ballot_def)
next
  case (shutdown P)
  then show ?case
    using failAll_ballot [of "(node P)\<lparr>shutdownCh := True, state := Follower\<rparr>" ErrShutdown]
    by (simp add: node_Shutdown_def same_ballot_def)
next
  case (leader_shutdown P)
  then show ?case using failPendingFutures_ballot [of "node P"] by (simp add: same_ballot_def)
qed (simp_all add: electionTimeout_def applyExpired_def)

lemma simulated_ballot:
  "simulated ids s i l P \<Longrightarrow> same_ballot (node P) (node P') \<Longrightarrow> phase_of (pc P') = phase_of (pc P) \<Longrightarrow>
    simulated ids s i l P'"
  by (simp add: simulated_def same_ballot_def gained_def)

lemma handleRPC_state:
  assumes "handleRPC LS SS r cmd = Some (r', resp, b)"
  shows "state r' = Follower \<or> state r' = state r \<and> currentTerm r' = currentTerm r"
  using assms
proof (cases rule: handleRPC_cases)
  case (append req resp')
  then show ?thesis using handleAppendEntries_ballot [OF append(2)] by (auto split: if_splits)
next
  case (vote req resp')
  then show ?thesis using handleRequestVote_ballot [OF vote(2)] by (auto simp: max_def split: if_splits)
qed simp

text \<open>The state in which a step begins, and what the step has to establish.\<close>

definition sim_pre :: "string set \<Rightarrow> election \<Rightarrow> string \<Rightarrow> ('l, 's, 'f, 'r) Process \<Rightarrow> bool" where
  "sim_pre ids s i P \<longleftrightarrow>
     einv ids s \<and> shows_node s i (node P) \<and> e_phase s i = phase_of (pc P) \<and>
     member_config ids i (config (node P)) \<and> i \<in> ids \<and> proc_ok i P"

definition sim_post :: "string set \<Rightarrow> election \<Rightarrow> string \<Rightarrow> label \<Rightarrow> ('l, 's, 'f, 'r) Process \<Rightarrow> bool" where
  "sim_post ids s i l P \<longleftrightarrow> simulated ids s i l P \<and> proc_ok i P"

lemma sim_quiet:
  assumes "sim_pre ids s i P" and "same_ballot (node P) (node P')" and "pc P' \<in> {pc P, Top, Stopped}"
    and "label_ok i l (ballots s) (winners s)"
  shows "sim_post ids s i l P'"
proof -
  have "simulated ids s i l P'" using assms by (intro quiet_step) (auto simp: sim_pre_def)
  then show ?thesis
    using assms(1-3) by (auto simp: sim_post_def sim_pre_def proc_ok_def same_ballot_def split: pc.splits)
qed

lemma sim_rpc:
  assumes pre: "sim_pre ids s i P" and rpc: "handleRPC LS SS (node P) cmd = Some (r1, resp, b)"
    and net: "known C s" "admissible C i (ServeRPC cmd resp)"
    and at: "pc P \<in> {InFollower, InLeader} \<or> (\<exists>req voters. pc P = InCandidate req voters)"
    and P': "same_ballot r1 (node P')" "pc P' = Top \<or> pc P' = pc P \<and> (state r1 \<noteq> Follower \<or> pc P = InFollower)"
      "pc P' = InFollower \<Longrightarrow> state r1 = Follower"
  shows "sim_post ids s i (ServeRPC cmd resp) P'"
proof -
  have self: "state (node P) \<noteq> Follower \<Longrightarrow> votedFor (node P) = i"
    using vote_is_self [OF _ _ _ _ at] pre by (auto simp: sim_pre_def)
  have nonempty: "i \<noteq> []" using pre by (simp add: sim_pre_def member_config_def)
  have ph: "phase_of (pc P') = Idle \<or> phase_of (pc P') = e_phase s i \<and> state r1 \<noteq> Follower"
    using P'(2) pre by (auto simp: sim_pre_def)
  have "simulated ids s i (ServeRPC cmd resp) (P\<lparr>node := r1, pc := pc P'\<rparr>)"
    using pre rpc nonempty self ph by (intro simulated_rpc [OF _ _ _ _ net]) (simp_all add: sim_pre_def)
  then have "simulated ids s i (ServeRPC cmd resp) P'"
    by (rule simulated_ballot) (use P'(1) in simp_all)
  moreover have "proc_ok i P'"
    using handleRPC_state [OF rpc] P' pre at by (auto simp: sim_pre_def proc_ok_def same_ballot_def split: pc.splits)
  ultimately show ?thesis by (simp add: sim_post_def)
qed

lemma sim_append_reply:
  assumes pre: "sim_pre ids s i P" and P: "procs C i = P" and fr: "fresh C i (Some (ReceiveAppendReply p entries resp))"
    and P': "P' = P\<lparr>node := replicateOnce_response LS SS (node P) p entries resp\<rparr>"
  shows "sim_post ids s i (ReceiveAppendReply p entries resp) P'"
proof (cases "currentTerm (node P) < aer_Term resp")
  case True
  then have lead: "state (node P) = Leader" and r: "node P' = stepDown SS (aer_Term resp) (node P)"
    using fr P P' replicateOnce_response_cases [of "node P" resp LS SS p entries] by (auto simp: fresh_def)
  have s: "e_role s i = Leader" "e_term s i = currentTerm (node P)" "e_phase s i = phase_of (pc P)"
    using pre lead by (auto simp: sim_pre_def shows_node_def)
  have "e_phase s i \<noteq> Running vs" for vs
    using pre s(1) unfolding sim_pre_def einv_def running_ok_def by metis
  then have idle: "e_phase s i = Idle" by (metis phase.exhaust)
  have "simulated ids s i (ReceiveAppendReply p entries resp) P'"
    using esteps_adopt [of s i "aer_Term resp" ids] True r s idle P'
    by (intro simulatedI) (auto simp: label_ok_def)
  then show ?thesis
    using pre r idle s(3) P' by (auto simp: sim_post_def sim_pre_def proc_ok_def split: pc.splits)
next
  case False
  then have "same_ballot (node P) (node P')"
    using P' replicateOnce_response_cases [of "node P" resp LS SS p entries] by simp
  then show ?thesis using P' by (intro sim_quiet [OF pre]) (simp_all add: label_ok_def)
qed

lemma sim_append_send:
  assumes pre: "sim_pre ids s i P" and req: "replicateOnce_request LS (node P) p = Some (Some req)"
  shows "sim_post ids s i (SendAppend p req) P"
proof -
  have "state (node P) = Leader" "ae_Term req = currentTerm (node P)" "LeaderID req = ServerID (config (node P))"
    using req by (auto simp: replicateOnce_request_def Let_def split: if_splits option.splits)
  then have "\<exists>Q. (ae_Term req, LeaderID req, Q) \<in> winners s"
    using pre unfolding sim_pre_def shows_node_def einv_def leader_ok_def member_config_def by metis
  then show ?thesis by (intro sim_quiet [OF pre]) (simp_all add: label_ok_def)
qed

lemma sim_immediate:
  assumes pre: "sim_pre ids s i P" and pc: "pc P = ElectionStarted req" and imm: "immediateMajority (node P) = (r, won)"
    and P': "P' = P\<lparr>node := r, pc := (if won then Top else candidate_next r req [])\<rparr>"
  shows "sim_post ids s i Internal P'"
proof (cases "quorum (node P) \<le> 1")
  case True
  then have r: "currentTerm r = currentTerm (node P)" "votedFor r = votedFor (node P)" "state r = Leader" won
    using immediateMajority_ballot [OF imm] by simp_all
  have "majority ids (insert i {})"
    using quorum_majority [of ids i "node P" "[]"] True pre by (simp add: sim_pre_def)
  moreover have "(estep ids)\<^sup>*\<^sup>* s (upd i (e_term s i) (e_vote s i) (e_role s i) (Running {}) s)"
    using pre pc upd_same [of i s] by (simp add: sim_pre_def)
  moreover have "e_role s i \<noteq> Leader" using pre pc unfolding sim_pre_def einv_def running_ok_def by (metis phase_of_simps(6))
  ultimately have "simulated ids s i Internal P'"
    using r P' pre by (intro simulated_win) (simp_all add: label_ok_def sim_pre_def shows_node_def)
  then show ?thesis using r P' by (simp add: sim_post_def proc_ok_def)
next
  case False
  then have "r = node P" "\<not> won" using immediateMajority_ballot [OF imm] by simp_all
  moreover have "simulated ids s i Internal P'"
    using pre pc P' calculation by (intro quiet_step) (auto simp: sim_pre_def label_ok_def candidate_next_def)
  ultimately show ?thesis
    using P' pc pre by (auto simp: sim_post_def sim_pre_def proc_ok_def candidate_next_def)
qed

lemma sim_move:
  assumes "sim_pre ids s i P" and "currentTerm (node P') = currentTerm (node P)" and "votedFor (node P') = votedFor (node P)"
    and "state (node P') = state (node P) \<or> state (node P') \<noteq> Leader" and "phase_of (pc P') = Idle \<or> pc P' = pc P"
    and "proc_ok i P'" and "label_ok i l (ballots s) (winners s)"
  shows "sim_post ids s i l P'"
  using assms by (auto simp: sim_post_def sim_pre_def intro!: simulated_quiet)

lemma sim_leader_next:
  assumes "sim_pre ids s i P" and "same_ballot (node P) r1" and "leader_next r1 = (r, pc')"
    and "P' = P\<lparr>node := r, pc := pc'\<rparr>"
  shows "sim_post ids s i Internal P'"
  using assms leader_next_state [OF assms(3)]
  by (intro sim_move [OF assms(1)]) (auto simp: same_ballot_def proc_ok_def label_ok_def)

lemma sim_step:
  assumes "pstep LS SS A P l P'" and "sim_pre ids s i P" and "known C s" and "admissible C i l"
    and "procs C i = P" and "fresh C i (Some l)"
  shows "sim_post ids s i l P'"
  using assms
proof (induction rule: pstep.induct)
  case (run_follower P)
  then show ?case by (intro sim_move [OF run_follower.prems(1)]) (simp_all add: proc_ok_def label_ok_def)
next
  case (run_candidate P r req targets)
  note pre = run_candidate.prems(1) and b = startElection_ballot [OF run_candidate.hyps(3)]
  have "simulated ids s i (SendVoteRequests req) (P\<lparr>node := r, pc := ElectionStarted req\<rparr>)"
    using run_candidate by (intro simulated_stand [where r = "node P"])
      (simp_all add: sim_pre_def member_config_def fresh_def)
  then show ?case using b pre by (auto simp: sim_post_def proc_ok_def sim_pre_def member_config_def)
next
  case (run_leader P)
  then show ?case by (intro sim_move [OF run_leader.prems(1)]) (simp_all add: proc_ok_def label_ok_def)
next
  case (follower_rpc P cmd r resp reset)
  then show ?case by (intro sim_rpc [OF follower_rpc.prems(1)]) (auto simp: follower_next_def split: if_splits)
next
  case (follower_timeout P)
  then show ?case
    by (intro sim_move [OF follower_timeout.prems(1)]) (simp_all add: electionTimeout_def proc_ok_def label_ok_def)
next
  case (candidate_start P req r won)
  then show ?case by (intro sim_immediate) auto
next
  case (candidate_vote P req voters v vote r votes left)
  have net: "(rv_Term req, v, CandidateID req) \<in> ballots s" if "VoteGranted vote"
    using candidate_vote.prems(2-4) candidate_vote.hyps(1) that by (auto simp: admissible_def known_def)
  show ?case
    using candidate_vote.prems(1) net unfolding sim_post_def
    by (intro conjI simulated_receive [where ids = ids, OF _ _ _ _ _ candidate_vote.hyps _ HOL.refl]) (simp_all add: sim_pre_def)
next
  case (candidate_rpc P req voters cmd r resp reset)
  then show ?case by (intro sim_rpc [OF candidate_rpc.prems(1)]) (auto simp: candidate_next_def split: if_splits)
next
  case (leader_start P r pc')
  then show ?case by (intro sim_leader_next [OF leader_start.prems(1) appendNoOp_ballot]) auto
next
  case (leader_rpc P cmd r1 resp reset r pc')
  then show ?case
    using leader_next_state [OF leader_rpc.hyps(3)] by (intro sim_rpc [OF leader_rpc.prems(1)]) auto
next
  case (leader_apply P req reqs r pc')
  have "same_ballot (node P) (handleApplyRequest LS req ((node P)\<lparr>applyCh := reqs\<rparr>))"
    using handleApplyRequest_ballot [of "(node P)\<lparr>applyCh := reqs\<rparr>" LS req] by (simp add: same_ballot_def)
  then show ?case using leader_apply by (intro sim_leader_next) auto
next
  case (replicate_send p P req)
  then show ?case by (intro sim_append_send) auto
next
  case (replicate_reply p P entries resp)
  then show ?case by (intro sim_append_reply) auto
next
  case (shutdown P)
  have "same_ballot ((node P)\<lparr>shutdownCh := True, state := Follower\<rparr>)
      (failAll ErrShutdown ((node P)\<lparr>shutdownCh := True, state := Follower\<rparr>))" by simp
  then show ?case using shutdown.prems(1)
    by (intro sim_move [OF shutdown.prems(1)])
      (auto simp: node_Shutdown_def same_ballot_def label_ok_def proc_ok_def sim_pre_def split: pc.splits)
next
  case (apply_entry P idx commit r)
  then show ?case using applyEntry_ballot [OF apply_entry.hyps(3)]
    by (intro sim_quiet [OF apply_entry.prems(1)]) (auto simp: label_ok_def)
next
  case (client_apply P way data r future)
  then show ?case using node_Apply_ballot [OF client_apply.hyps(2)]
    by (intro sim_quiet [OF client_apply.prems(1)]) (auto simp: label_ok_def)
next
  case (leader_shutdown P)
  then show ?case
    by (intro sim_quiet [OF leader_shutdown.prems(1)]) (auto simp: label_ok_def)
qed (auto intro!: sim_quiet simp: label_ok_def same_ballot_def applyExpired_def)

section \<open>The invariant of the cluster\<close>

definition cinv :: "'s StableStore \<Rightarrow> ('s \<Rightarrow> bool) \<Rightarrow> string set \<Rightarrow> ('l, 's, 'f, 'r) Cluster \<Rightarrow> bool" where
  "cinv SS sinv ids C \<longleftrightarrow>
     (\<forall>i \<in> ids. member_config ids i (config (node (procs C i))) \<and> durable SS sinv (node (procs C i)) \<and>
        proc_ok i (procs C i)) \<and>
     (\<exists>B W. einv ids (view C B W) \<and> known C (view C B W))"

lemma cinv_init: "cluster_init SS sinv ids C \<Longrightarrow> cinv SS sinv ids C"
  by (auto simp: cinv_def cluster_init_def proc_ok_def known_def einit_def
      intro!: exI [of _ "{}"] einv_init)

lemma member_finite: "member_config ids i c \<Longrightarrow> finite ids"
  by (auto simp: member_config_def)

text \<open>The messages of a step are known to the abstract state that follows it.\<close>

lemma known_publish:
  assumes "known C s" and "label_ok i l B W" and "ballots s \<subseteq> B" and "winners s \<subseteq> W"
  shows "known (publish i l (C\<lparr>procs := f\<rparr>)) (view D B W)"
  using assms unfolding known_def publish_def label_ok_def
  by (cases l; simp split: Command.splits RPCResponse.splits; blast)

context stable_store
begin

lemma view_act:
  assumes inv: "cinv SS sinv ids C" and BW: "einv ids (view C B W)" "known C (view C B W)"
    and i: "i \<in> ids" and step: "pstep LS SS A (procs C i) l P" and net: "admissible C i l" "fresh C i (Some l)"
    and C': "C' = publish i l (C\<lparr>procs := (procs C)(i := P)\<rparr>)"
  shows "\<exists>B' W'. einv ids (view C' B' W') \<and> known C' (view C' B' W') \<and> proc_ok i P \<and>
    B \<subseteq> B' \<and> B' \<subseteq> B \<union> cast i l \<and> W \<subseteq> W' \<and> W' \<subseteq> W \<union> gained (view C B W) i P"
proof -
  let ?s = "view C B W"
  have "sim_pre ids ?s i (procs C i)"
    using inv i BW(1) by (auto simp: sim_pre_def cinv_def shows_node_def)
  then have post: "simulated ids ?s i l P" "proc_ok i P"
    using sim_step [OF step _ BW(2) net(1) HOL.refl net(2)] by (auto simp: sim_post_def)
  obtain B' W' where *: "(estep ids)\<^sup>*\<^sup>* ?s (view C' B' W')" "B \<subseteq> B'" "W \<subseteq> W'" "label_ok i l B' W'"
      "B' \<subseteq> B \<union> cast i l" "W' \<subseteq> W \<union> gained ?s i P"
    using post(1) unfolding simulated_def view_upd_sets C' by (auto simp only: view_publish view_fields)
  have "finite ids" using inv i member_finite unfolding cinv_def by blast
  then have "einv ids (view C' B' W')" using einv_steps [OF *(1) _ BW(1)] by simp
  moreover have "known C' (view C' B' W')" using known_publish [OF BW(2) *(4)] *(2,3) unfolding C' by simp
  ultimately show ?thesis using *(2,3,5,6) post(2) by blast
qed

lemma cinv_act:
  assumes inv: "cinv SS sinv ids C" and i: "i \<in> ids" and step: "pstep LS SS A (procs C i) l P"
    and net: "admissible C i l" "fresh C i (Some l)"
  shows "cinv SS sinv ids (publish i l (C\<lparr>procs := (procs C)(i := P)\<rparr>))"
proof -
  obtain B W where BW: "einv ids (view C B W)" "known C (view C B W)" using inv by (auto simp: cinv_def)
  from view_act [OF inv BW i step net HOL.refl] show ?thesis
    using inv config_step [OF step] durable_step [OF step] by (auto simp: cinv_def)
qed

lemma view_crash:
  assumes inv: "cinv SS sinv ids C" and BW: "einv ids (view C B W)" "known C (view C B W)" and i: "i \<in> ids"
    and new: "NewRaftNode SS (config (node (procs C i))) (logStore (node (procs C i)))
      (stableStore (node (procs C i))) f = Ret (Inr r)"
    and C': "C' = C\<lparr>procs := (procs C)(i := start r)\<rparr>"
  shows "einv ids (view C' B W) \<and> known C' (view C' B W)"
proof -
  have d: "durable SS sinv (node (procs C i))" "member_config ids i (config (node (procs C i)))"
    using inv i by (auto simp: cinv_def)
  then have r: "currentTerm r = currentTerm (node (procs C i))" "votedFor r = votedFor (node (procs C i))" "state r = Follower"
    using NewRaftNode_restores(2) [OF _ _ new] by (auto simp: durable_def member_config_def)
  have "(estep ids)\<^sup>*\<^sup>* (view C B W) (view C' B W)"
    using esteps_relax [of Follower "view C B W" i Idle ids] r by (simp add: view_upd start_def C')
  moreover have "finite ids" using d(2) by (rule member_finite)
  ultimately have "einv ids (view C' B W)" using einv_steps BW(1) by blast
  then show ?thesis using BW(2) by (simp add: known_def C')
qed

lemma cinv_crash:
  assumes inv: "cinv SS sinv ids C" and i: "i \<in> ids"
    and new: "NewRaftNode SS (config (node (procs C i))) (logStore (node (procs C i)))
      (stableStore (node (procs C i))) f = Ret (Inr r)"
  shows "cinv SS sinv ids (C\<lparr>procs := (procs C)(i := start r)\<rparr>)"
proof -
  obtain B W where BW: "einv ids (view C B W)" "known C (view C B W)" using inv by (auto simp: cinv_def)
  have d: "durable SS sinv (node (procs C i))" "member_config ids i (config (node (procs C i)))"
    using inv i by (auto simp: cinv_def)
  then have "durable SS sinv r" "config r = config (node (procs C i))"
    using NewRaftNode_restores(2) [OF _ _ new] by (auto simp: durable_def member_config_def)
  then show ?thesis
    using inv view_crash [OF inv BW i new HOL.refl] d(2) by (auto simp: cinv_def start_def proc_ok_def)
qed

lemma cinv_run:
  assumes "cluster_run LS SS A ids C D" and "cinv SS sinv ids C"
  shows "cinv SS sinv ids D"
  using assms
proof (induction rule: cluster_run.induct)
  case (step D i l E)
  have inv: "cinv SS sinv ids D" using step by simp
  from step.hyps(2) show ?case
  proof cases
    case (act l P)
    then show ?thesis using cinv_act [OF inv] step.hyps(3) by simp
  next
    case (crash f r)
    then show ?thesis using cinv_crash [OF inv] by simp
  qed
qed

lemma leader_of_term:
  assumes "cinv SS sinv ids C" and "i \<in> ids" "j \<in> ids"
    and "state (node (procs C i)) = Leader" "state (node (procs C j)) = Leader"
    and "currentTerm (node (procs C i)) = currentTerm (node (procs C j))"
  shows "i = j"
proof -
  obtain B W where "einv ids (view C B W)" using assms(1) by (auto simp: cinv_def)
  moreover have "finite ids" using assms(1,2) member_finite unfolding cinv_def by blast
  ultimately show ?thesis using leader_unique [of ids "view C B W" i j] assms(4-6) by simp
qed

lemma append_leader_of_term:
  assumes "cinv SS sinv ids C" and "i \<in> ids" and "req \<in> sentAppends C" "req' \<in> sentAppends C" and "ae_Term req = ae_Term req'"
  shows "LeaderID req = LeaderID req'"
proof -
  obtain B W where "einv ids (view C B W)" "known C (view C B W)" using assms(1) by (auto simp: cinv_def)
  moreover have "finite ids" using assms(1,2) member_finite unfolding cinv_def by blast
  moreover from calculation assms(3,4) obtain Q Q' where
    "(ae_Term req, LeaderID req, Q) \<in> W" "(ae_Term req', LeaderID req', Q') \<in> W"
    unfolding known_def view_fields by blast
  ultimately show ?thesis
    using winner_unique [of ids "view C B W" "ae_Term req" "LeaderID req'" Q' "LeaderID req" Q] assms(5) by simp
qed

end

section \<open>Election safety\<close>

text \<open>
  C6. Election safety of the cluster, restricted to runs that satisfy \<open>fresh\<close> in each step: no reply to
  \<open>AppendEntries\<close> whose term is later than that of the node is handled by a node that is not (or no longer) the leader, and
  no node stands for election in the largest term, \<open>2 ^ 64 - 1\<close>. In every such run from the start of the cluster, two leaders of the
  same term are the same node, and two \<open>AppendEntries\<close> requests of the same term that were ever sent name the same
  leader; requests and votes may be delayed, lost, repeated and reordered, and nodes may crash and start
  again on their stores. The program has runs that are not \<open>fresh\<close>, and of these the theorem says nothing: in them a node can become leader of a term in which it was not
  elected (\<open>late_vote_elects_in_later_term\<close>, theory \<open>Raft_Laws\<close>).
\<close>

theorem election_safety:
  assumes "stable_store SS sinv" and "cluster_init SS sinv ids C" and "cluster_run LS SS A ids C D" and "i \<in> ids"
  shows "(\<forall>j \<in> ids. state (node (procs D i)) = Leader \<longrightarrow> state (node (procs D j)) = Leader \<longrightarrow>
        currentTerm (node (procs D i)) = currentTerm (node (procs D j)) \<longrightarrow> i = j) \<and>
    (\<forall>req \<in> sentAppends D. \<forall>req' \<in> sentAppends D. ae_Term req = ae_Term req' \<longrightarrow> LeaderID req = LeaderID req')"
proof -
  have inv: "cinv SS sinv ids D"
    using stable_store.cinv_run [OF assms(1,3) cinv_init [OF assms(2)]] .
  show ?thesis
    using stable_store.leader_of_term [OF assms(1) inv assms(4)]
      stable_store.append_leader_of_term [OF assms(1) inv assms(4)] by blast
qed

text \<open>Three nodes, of which \<open>b\<close> times out, stands, gets the vote of \<open>a\<close> and leads term 1.\<close>

definition sample_cluster :: "(InmemLogStore, InmemStableStore, nat, nat) Cluster" where
  "sample_cluster =
     \<lparr>procs = \<lambda>i. start (sample_node i []), sentVotes = {}, voteReplies = {}, sentAppends = {}\<rparr>"

definition sample_elector :: "(InmemLogStore, InmemStableStore, nat, nat) RaftNode" where
  "sample_elector = fst (handleRequestVote InmemLog InmemStable (sample_node ''a'' []) (sample_vote ''b'' 1))"

definition sample_elected :: "(InmemLogStore, InmemStableStore, nat, nat) RaftNode" where
  "sample_elected = fst (receiveVote InmemStable sample_candidate 1 \<lparr>rvr_Term = 1, VoteGranted = True\<rparr>)"

definition sample_stands :: "pc \<Rightarrow> (InmemLogStore, InmemStableStore, nat, nat) Process" where
  "sample_stands p = \<lparr>node = sample_candidate, pc = p, applying = None\<rparr>"

definition sample_after :: "(InmemLogStore, InmemStableStore, nat, nat) Cluster" where
  "sample_after =
     \<lparr>procs = (procs sample_cluster)(''a'' := \<lparr>node = sample_elector, pc = InFollower, applying = None\<rparr>,
        ''b'' := \<lparr>node = sample_elected, pc = Top, applying = None\<rparr>),
      sentVotes = {sample_vote ''b'' 1},
      voteReplies = {(''a'', sample_vote ''b'' 1, \<lparr>rvr_Term = 1, VoteGranted = True\<rparr>)}, sentAppends = {}\<rparr>"

text \<open>Up to then no node has written to its log or begun its leadership, and the only messages are those of the election.\<close>

definition election_label :: "label \<Rightarrow> bool" where
  "election_label l =
     (case l of
        Internal \<Rightarrow> True | SendVoteRequests req \<Rightarrow> True | ReceiveVote v vote \<Rightarrow> True
      | ServeRPC cmd resp \<Rightarrow> (case cmd of CmdRequestVote req \<Rightarrow> True | _ \<Rightarrow> False)
      | _ \<Rightarrow> False)"

definition sample_quiet :: "(InmemLogStore, InmemStableStore, nat, nat) Cluster \<Rightarrow> bool" where
  "sample_quiet D \<longleftrightarrow>
     (\<forall>i. logStore (node (procs D i)) = NewInmemLogStore \<and> pc (procs D i) \<noteq> LeaderReady)"

lemma sample_start_election:
  "startElection InmemLog InmemStable (electionTimeout (sample_node ''b'' [])) =
     (sample_candidate, sample_vote ''b'' 1, [''A'', ''C''])"
  using sample_voter_log
  by (simp add: sample_candidate_def startElection_def electionTimeout_def sample_vote_def split_beta Let_def sample_voter_def)
    (simp add: sample_node_def sample_config_def)

lemma sample_grant:
  "handleRequestVote InmemLog InmemStable (sample_node ''a'' []) (sample_vote ''b'' 1) =
     (sample_elector, \<lparr>rvr_Term = 1, VoteGranted = True\<rparr>, True) \<and> state sample_elector = Follower"
proof -
  have "lastLogInfo InmemLog (logStore (sample_node ''a'' [])) = (0, 0)"
    using inmem_log.lastLogInfo_repr [OF sample_repr [OF log_ok_Nil]] by (simp add: last_of_def)
  then show ?thesis
    by (simp add: sample_elector_def sample_vote_def handleRequestVote_def isLogUpToDate_def Let_def)
      (simp add: sample_node_def)
qed

lemma sample_wins:
  "receiveVote InmemStable sample_candidate (Suc 0) \<lparr>rvr_Term = 1, VoteGranted = True\<rparr> = (sample_elected, 2, True)"
  "state sample_elected = Leader" "currentTerm sample_elected = 1"
  by (simp_all add: sample_elected_def receiveVote_def checkVoteTerm_def countVote_def sample_candidate_fields
      quorum_def sample_config_def)

lemma max_word: "(0 :: u64) < - 1"
  by (simp add: word_gt_0)

lemma sample_logs:
  "logStore (sample_node i []) = NewInmemLogStore" "logStore sample_candidate = NewInmemLogStore"
  "logStore sample_elector = NewInmemLogStore" "logStore sample_elected = NewInmemLogStore"
proof -
  show n: "logStore (sample_node i []) = NewInmemLogStore" for i by (simp add: sample_node_def inmem_StoreLogs_def)
  show c: "logStore sample_candidate = NewInmemLogStore" by (simp add: sample_candidate_fields n)
  show "logStore sample_elector = NewInmemLogStore" by (simp add: sample_elector_def n)
  show "logStore sample_elected = NewInmemLogStore"
    by (simp add: sample_elected_def receiveVote_def checkVoteTerm_def countVote_def c)
qed

lemma sample_quietI:
  "logStore (node P) = NewInmemLogStore \<Longrightarrow> pc P \<noteq> LeaderReady \<Longrightarrow> logStore (node Q) = NewInmemLogStore \<Longrightarrow> pc Q \<noteq> LeaderReady \<Longrightarrow>
   sample_quiet \<lparr>procs = (procs sample_cluster)(''a'' := P, ''b'' := Q), sentVotes = V, voteReplies = R, sentAppends = S\<rparr>"
  by (simp add: sample_quiet_def sample_cluster_def start_def sample_logs)

text \<open>The run, for every property of clusters that holds at the start and that each of its steps keeps.\<close>

lemma sample_scenario:
  assumes start: "run sample_cluster"
    and step: "\<And>D i l P. run D \<Longrightarrow> sample_quiet D \<Longrightarrow> election_label l \<Longrightarrow> i \<in> {''a'', ''b'', ''c''} \<Longrightarrow>
      pstep InmemLog InmemStable sample_fsm (procs D i) l P \<Longrightarrow> admissible D i l \<Longrightarrow> fresh D i (Some l) \<Longrightarrow>
      run (publish i l (D\<lparr>procs := (procs D)(i := P)\<rparr>))"
  shows "run sample_after"
proof -
  let ?f = "\<lambda>P Q. (procs sample_cluster)(''a'' := P, ''b'' := Q)"
  let ?a = "start (sample_node ''a'' [])" and ?b = "start (sample_node ''b'' [])"
  let ?req = "sample_vote ''b'' 1" and ?vote = "\<lparr>rvr_Term = 1, VoteGranted = True\<rparr>"
  have act: "run E" if "run D" "i \<in> {''a'', ''b'', ''c''}" "pstep InmemLog InmemStable sample_fsm (procs D i) l P"
      "admissible D i l" "fresh D i (Some l)" "sample_quiet D" "election_label l"
      "E = publish i l (D\<lparr>procs := (procs D)(i := P)\<rparr>)" for D E i l P
    using step [OF that(1,6,7,2-5)] that(8) by simp
  have 0: "run \<lparr>procs = ?f ?a ?b, sentVotes = {}, voteReplies = {}, sentAppends = {}\<rparr>"
    using start by (simp add: sample_cluster_def fun_upd_idem)
  have 1: "run \<lparr>procs = ?f (?a\<lparr>pc := InFollower\<rparr>) ?b, sentVotes = {}, voteReplies = {}, sentAppends = {}\<rparr>"
    by (rule act [OF 0 _ _ _ _ sample_quietI, where i = "''a''" and l = Internal], simp, rule run_follower)
      (simp_all add: start_def sample_node_def inmem_StoreLogs_def election_label_def admissible_def fresh_def publish_def fun_upd_twist)
  have 2: "run \<lparr>procs = ?f (?a\<lparr>pc := InFollower\<rparr>) (?b\<lparr>pc := InFollower\<rparr>), sentVotes = {}, voteReplies = {}, sentAppends = {}\<rparr>"
    by (rule act [OF 1 _ _ _ _ sample_quietI, where i = "''b''" and l = Internal], simp, rule run_follower)
      (simp_all add: start_def sample_node_def inmem_StoreLogs_def election_label_def admissible_def fresh_def publish_def)
  have 3: "run \<lparr>procs = ?f (?a\<lparr>pc := InFollower\<rparr>) (?b\<lparr>node := electionTimeout (sample_node ''b'' []), pc := Top\<rparr>),
      sentVotes = {}, voteReplies = {}, sentAppends = {}\<rparr>"
    by (rule act [OF 2 _ _ _ _ sample_quietI, where i = "''b''" and l = Internal], simp, rule follower_timeout)
      (simp_all add: start_def sample_logs election_label_def admissible_def fresh_def publish_def)
  have 4: "run \<lparr>procs = ?f (?a\<lparr>pc := InFollower\<rparr>) (sample_stands (ElectionStarted ?req)),
      sentVotes = {?req}, voteReplies = {}, sentAppends = {}\<rparr>"
    by (rule act [OF 3 _ _ _ _ sample_quietI, where i = "''b''" and l = "SendVoteRequests ?req"], simp,
        rule run_candidate [where r = sample_candidate and targets = "[''A'', ''C'']"])
      (simp_all add: start_def sample_stands_def sample_start_election sample_logs election_label_def admissible_def fresh_def publish_def,
        simp_all add: electionTimeout_def sample_node_def inmem_StoreLogs_def max_word)
  have 5: "run \<lparr>procs = ?f (?a\<lparr>pc := InFollower\<rparr>) (sample_stands (InCandidate ?req [])),
      sentVotes = {?req}, voteReplies = {}, sentAppends = {}\<rparr>"
    by (rule act [OF 4 _ _ _ _ sample_quietI, where i = "''b''" and l = Internal], simp,
        rule candidate_start [where r = sample_candidate and won = False])
      (simp_all add: start_def sample_stands_def immediateMajority_def quorum_def candidate_next_def sample_candidate_fields
        sample_config_def sample_logs election_label_def admissible_def fresh_def publish_def)
  have 6: "run \<lparr>procs = ?f \<lparr>node = sample_elector, pc = InFollower, applying = None\<rparr> (sample_stands (InCandidate ?req [])),
      sentVotes = {?req}, voteReplies = {(''a'', ?req, ?vote)}, sentAppends = {}\<rparr>"
    by (rule act [OF 5 _ _ _ _ sample_quietI, where i = "''a''" and l = "ServeRPC (CmdRequestVote ?req) (RespRequestVote ?vote)"], simp,
        rule follower_rpc [where r = sample_elector and reset = True])
      (simp_all add: start_def sample_stands_def handleRPC_def sample_grant follower_next_def sample_logs election_label_def admissible_def fresh_def publish_def fun_upd_twist,
        simp_all add: sample_vote_def)
  show ?thesis
    by (rule act [OF 6 _ _ _ _ sample_quietI, where i = "''b''" and l = "ReceiveVote ''a'' ?vote"], simp,
        rule candidate_vote [where r = sample_elected and votes = 2 and left = True and voters = "[]" and req = ?req])
      (simp_all add: start_def sample_stands_def sample_wins peer_ids_def sample_candidate_fields sample_config_def
        sample_logs election_label_def admissible_def fresh_def publish_def sample_after_def)
qed

lemma sample_cluster_run:
  "cluster_run InmemLog InmemStable sample_fsm {''a'', ''b'', ''c''} sample_cluster sample_after"
  by (rule sample_scenario) (auto intro: cluster_run.intros cstep.intros)

lemma sample_cluster_init: "cluster_init InmemStable (\<lambda>s. True) {''a'', ''b'', ''c''} sample_cluster"
proof -
  have "durable InmemStable (\<lambda>s. True) (sample_node i [])" for i
    by (simp add: durable_def persisted_def sample_node_def InmemStable_def
        inmem_GetUint64_def inmem_Get_def NewInmemStableStore_def)
  then show ?thesis
    by (auto simp: cluster_init_def sample_cluster_def start_def member_config_def)
      (auto simp: sample_node_def sample_config_def validate_def DefaultConfig_def Millisecond_def)
qed

lemma election_safety_witness:
  "cluster_run InmemLog InmemStable sample_fsm {''a'', ''b'', ''c''} sample_cluster sample_after \<and>
   {j \<in> {''a'', ''b'', ''c''}. state (node (procs sample_after j)) = Leader \<and>
      currentTerm (node (procs sample_after j)) = 1} = {''b''}"
  using election_safety [OF inmem_stable.stable_store_axioms sample_cluster_init sample_cluster_run, of "''b''"]
    sample_cluster_run by (auto simp: sample_after_def sample_wins)

end
