(* ===== verification/Raft_Matching.thy ===== *)
theory Raft_Matching
  imports Raft_Cluster
begin

text \<open>
  Log matching in a cluster: where two nodes have an entry of the same term at the same index, their
  logs are the same up to there. The runs are those of theory \<open>Raft_Cluster\<close>, from empty logs, in
  which no deposed leader appends its first entry (\<open>steady\<close>). The invariant speaks of a set of logs: all
  that the nodes hold and all that requests were cut from.
\<close>

section \<open>Sets of logs\<close>

definition matching :: "LogEntry list set \<Rightarrow> bool" where
  "matching H \<longleftrightarrow> (\<forall>xs \<in> H. log_ok xs \<and> (\<forall>ys \<in> H. log_matching xs ys))"

text \<open>Every entry is of a term that somebody has won.\<close>

definition authored :: "(u64 \<times> string \<times> string set) set \<Rightarrow> LogEntry list set \<Rightarrow> bool" where
  "authored W H \<longleftrightarrow> (\<forall>xs \<in> H. \<forall>e \<in> set xs. \<exists>L Q. (Term e, L, Q) \<in> W)"

text \<open>The log \<open>ys\<close> has all the entries of term \<open>t\<close>.\<close>

definition leads :: "LogEntry list set \<Rightarrow> u64 \<Rightarrow> LogEntry list \<Rightarrow> bool" where
  "leads H t ys \<longleftrightarrow>
     (\<forall>xs \<in> H. \<forall>k < length xs. Term (xs ! k) = t \<longrightarrow> k < length ys \<and> Term (ys ! k) = t)"

text \<open>The entries of a request are the rest of one of the logs after the previous entry it names.\<close>

definition carried :: "LogEntry list set \<Rightarrow> AppendEntriesRequest \<Rightarrow> bool" where
  "carried H req \<longleftrightarrow>
     Entries req = [] \<or>
     (\<exists>ys \<in> H. unat (PrevLogIndex req) \<le> length ys \<and> Entries req = drop (unat (PrevLogIndex req)) ys \<and>
        PrevLogTerm req = term_at ys (unat (PrevLogIndex req)))"

lemma log_matching_sym: "log_matching xs ys \<Longrightarrow> log_matching ys xs"
  unfolding log_matching_def by metis

lemma log_matching_refl [simp]: "log_matching xs xs"
  by (simp add: log_matching_def)

lemma log_matching_snoc:
  assumes "log_matching xs ys" and "length xs < length ys \<Longrightarrow> Term (ys ! length xs) \<noteq> Term e"
  shows "log_matching (xs @ [e]) ys"
  unfolding log_matching_def
proof (intro allI impI)
  fix k
  assume k: "k < length (xs @ [e]) \<and> k < length ys \<and> Term ((xs @ [e]) ! k) = Term (ys ! k)"
  then have "k < length xs" using assms(2) by (cases "k = length xs") auto
  then show "take (Suc k) (xs @ [e]) = take (Suc k) ys"
    using k assms(1) by (auto simp: nth_append dest: log_matchingD)
qed

text \<open>The leader of a term appends an entry of it.\<close>

lemma matching_append:
  assumes "matching H" and "xs \<in> H" and "leads H (Term e) xs" and "log_ok (xs @ [e])"
  shows "matching (insert (xs @ [e]) H)" and "leads (insert (xs @ [e]) H) (Term e) (xs @ [e])"
proof -
  have "log_matching (xs @ [e]) ys" if "ys \<in> H" for ys
  proof (rule log_matching_snoc)
    show "log_matching xs ys" using assms(1,2) that by (simp add: matching_def)
    show "length xs < length ys \<Longrightarrow> Term (ys ! length xs) \<noteq> Term e"
      using assms(3) that unfolding leads_def by blast
  qed
  then show "matching (insert (xs @ [e]) H)"
    using assms(1,4) log_matching_sym by (auto simp: matching_def)
  show "leads (insert (xs @ [e]) H) (Term e) (xs @ [e])"
    using assms(3) unfolding leads_def by (auto simp: nth_append less_Suc_eq)
qed

lemma leads_other:
  assumes "leads H t ys" and "xs \<in> H" and "Term e \<noteq> t"
  shows "leads (insert (xs @ [e]) H) t ys"
  using assms unfolding leads_def by (auto simp: nth_append less_Suc_eq)

lemma leads_new: "authored W H \<Longrightarrow> (\<And>L Q. (t, L, Q) \<notin> W) \<Longrightarrow> leads H t ys"
  unfolding leads_def authored_def by (metis nth_mem)

lemma authored_mono: "authored W H \<Longrightarrow> W \<subseteq> W' \<Longrightarrow> authored W' H"
  unfolding authored_def by blast

lemma carried_mono: "carried H req \<Longrightarrow> H \<subseteq> H' \<Longrightarrow> carried H' req"
  unfolding carried_def by blast

text \<open>A request that passes the consistency check gives one of the logs again.\<close>

lemma carried_merge:
  assumes "matching H" and "xs \<in> H" and "carried H req" and "prev_ok xs req"
  shows "mergeLog (unat (PrevLogIndex req)) xs (Entries req) \<in> H"
    and "Entries req \<noteq> [] \<Longrightarrow> unat (PrevLogIndex req) \<le> length xs \<and>
      log_ok (take (unat (PrevLogIndex req)) xs @ Entries req)"
proof -
  let ?n = "unat (PrevLogIndex req)"
  have "mergeLog ?n xs (Entries req) \<in> H \<and> (Entries req \<noteq> [] \<longrightarrow> ?n \<le> length xs \<and> log_ok (take ?n xs @ Entries req))"
  proof (cases "Entries req = []")
    case True
    then show ?thesis using assms(2) by simp
  next
    case False
    then obtain ys where ys: "ys \<in> H" "?n \<le> length ys" "Entries req = drop ?n ys" "PrevLogTerm req = term_at ys ?n"
      using assms(3) by (auto simp: carried_def)
    have m: "log_matching xs ys" "log_ok ys" using assms(1,2) ys(1) by (auto simp: matching_def)
    have n: "?n \<le> length xs" using assms(4) by (auto simp: prev_ok_def)
    have "take ?n xs = take ?n ys"
    proof (cases ?n)
      case (Suc k)
      then have "Term (xs ! k) = Term (ys ! k)"
        using assms(4) ys(2,4) n by (auto simp: prev_ok_def term_at_def)
      then show ?thesis using log_matchingD [OF m(1), of k] Suc n ys(2) by simp
    qed simp
    then show ?thesis using mergeLog_leader [OF m(1) _ n ys(2)] ys(1,3) m(2) n assms(2) by auto
  qed
  then show "mergeLog ?n xs (Entries req) \<in> H" "Entries req \<noteq> [] \<Longrightarrow> ?n \<le> length xs \<and> log_ok (take ?n xs @ Entries req)"
    by auto
qed

lemma log_ok_small:
  assumes "log_ok xs" and "last_of xs < - 2"
  shows "Suc (length xs) < 2 ^ 64 - 1"
proof -
  have "(- 2 :: u64) = 18446744073709551614" by simp
  then show ?thesis using assms by (simp add: word_less_nat_alt)
qed

section \<open>What a step does to the log and to the role\<close>

lemma failAll_log [simp]: "logStore (failAll e r) = logStore r"
proof -
  have "logStore (foldl (\<lambda>q p. respondFuture p e None q) r ps) = logStore r" for e ps
    by (induction ps arbitrary: r) simp_all
  then show ?thesis by (simp add: failAll_def)
qed

lemma leader_next_log: "leader_next r = (r', p) \<Longrightarrow> logStore r' = logStore r"
  by (auto simp: leader_next_def split: if_splits)

lemma applyEntry_log: "applyEntry LS A idx r = Some (Ret r') \<Longrightarrow> logStore r' = logStore r"
  by (auto simp: applyEntry_def Let_def split: sum.splits option.splits outcome.splits prod.splits if_splits)

lemma node_Apply_log: "node_Apply r data w = (r', f) \<Longrightarrow> logStore r' = logStore r"
  by (auto simp: node_Apply_def Let_def split: if_splits applyWay.splits)

lemma replicateOnce_response_log: "logStore (replicateOnce_response LS SS r p entries resp) = logStore r"
  by (simp add: replicateOnce_response_def)

lemma election_log:
  "startElection LS SS r = (r', req, targets) \<Longrightarrow> logStore r' = logStore r"
  "immediateMajority r = (r', won) \<Longrightarrow> logStore r' = logStore r"
  "receiveVote SS r n vote = (r', n', left) \<Longrightarrow> logStore r' = logStore r"
  by (auto simp: startElection_def immediateMajority_def receiveVote_def checkVoteTerm_def countVote_def Let_def
      split: prod.splits if_splits)

lemmas log_kept = leader_next_log applyEntry_log node_Apply_log replicateOnce_response_log election_log

lemma role_step:
  assumes "pstep LS SS A P l P'" and "state (node P') = Leader"
  shows "currentTerm (node P') = currentTerm (node P) \<and> (state (node P) = Leader \<or> phase_of (pc P) \<noteq> Idle)"
  using assms
proof (induction rule: pstep.induct)
  case (run_candidate P r req targets)
  then show ?case using startElection_ballot [OF run_candidate.hyps(3)] by simp
next
  case (follower_rpc P cmd r resp reset)
  then show ?case using handleRPC_state [OF follower_rpc.hyps(2)] by auto
next
  case (candidate_start P req r won)
  then show ?case using immediateMajority_ballot [OF candidate_start.hyps(2)] by auto
next
  case (candidate_vote P req voters v vote r votes left)
  then show ?case using receiveVote_ballot [OF candidate_vote.hyps(4)] by (auto split: if_splits)
next
  case (candidate_rpc P req voters cmd r resp reset)
  then show ?case using handleRPC_state [OF candidate_rpc.hyps(2)] by auto
next
  case (leader_start P r pc')
  then show ?case using leader_next_state [OF leader_start.hyps(2)] appendNoOp_ballot [of "node P" LS] by (auto simp: same_ballot_def)
next
  case (leader_rpc P cmd r1 resp reset r pc')
  then show ?case using leader_next_state [OF leader_rpc.hyps(3)] handleRPC_state [OF leader_rpc.hyps(2)] by (auto simp: same_ballot_def)
next
  case (leader_apply P req reqs r pc')
  then show ?case
    using leader_next_state [OF leader_apply.hyps(3)] handleApplyRequest_ballot [of "(node P)\<lparr>applyCh := reqs\<rparr>" LS req]
    by (auto simp: same_ballot_def)
next
  case (replicate_reply p P entries resp)
  then show ?case using replicateOnce_response_cases [of "node P" resp LS SS p entries]
    by (auto simp: same_ballot_def split: if_splits)
next
  case (apply_entry P idx commit r)
  then show ?case using applyEntry_ballot [OF apply_entry.hyps(3)] by (auto simp: same_ballot_def)
next
  case (client_apply P way data r future)
  then show ?case using node_Apply_ballot [OF client_apply.hyps(2)] by (auto simp: same_ballot_def)
next
  case (shutdown P)
  then show ?case
    using failAll_ballot [of "(node P)\<lparr>shutdownCh := True, state := Follower\<rparr>" ErrShutdown]
    by (auto simp: node_Shutdown_def same_ballot_def split: if_splits)
next
  case (leader_shutdown P)
  then show ?case using failPendingFutures_ballot [of "node P"] by (auto simp: same_ballot_def)
qed (simp_all add: electionTimeout_def applyExpired_def)

text \<open>Both stores of a node.\<close>

locale raft_stores = log_store LS linv lmap + stable_store SS sinv
  for LS :: "'l LogStore" and linv lmap and SS :: "'s StableStore" and sinv

interpretation inmem_stores: raft_stores InmemLog inmem_linv inmem_lmap InmemStable "\<lambda>s. True"
  by unfold_locales

context raft_stores
begin

lemma appendNoOp_repr:
  assumes "repr linv lmap (logStore r) xs" and "Suc (length xs) < 2 ^ 64 - 1"
  shows "\<exists>e. Term e = currentTerm r \<and> repr linv lmap (logStore (appendNoOp LS r)) (xs @ [e])"
proof -
  let ?e = "\<lparr>Index = last_of xs + 1, Term = currentTerm r, Data = []\<rparr>"
  obtain l where "StoreLogs LS (logStore r) [?e] = (l, None)" "repr linv lmap l (xs @ [?e])"
    using repr_store_next [OF assms] by blast
  then show ?thesis
    using repr_last [OF assms(1)] by (intro exI [of _ ?e]) (simp add: appendNoOp_def StoreLog_def Let_def)
qed

lemma handleApplyRequest_repr:
  assumes "repr linv lmap (logStore r) xs" and "Suc (length xs) < 2 ^ 64 - 1"
  shows "if state r = Leader
    then \<exists>e. Term e = currentTerm r \<and> repr linv lmap (logStore (handleApplyRequest LS req r)) (xs @ [e])
    else logStore (handleApplyRequest LS req r) = logStore r"
proof -
  let ?e = "\<lparr>Index = last_of xs + 1, Term = currentTerm r, Data = req_data req\<rparr>"
  obtain l where "StoreLogs LS (logStore r) [?e] = (l, None)" "repr linv lmap l (xs @ [?e])"
    using repr_store_next [OF assms] by blast
  then have "state r = Leader \<Longrightarrow> Term ?e = currentTerm r \<and> repr linv lmap (logStore (handleApplyRequest LS req r)) (xs @ [?e])"
    using repr_last [OF assms(1)] by (simp add: handleApplyRequest_def StoreLog_def Let_def)
  moreover have "state r \<noteq> Leader \<Longrightarrow> logStore (handleApplyRequest LS req r) = logStore r"
    by (simp add: handleApplyRequest_def)
  ultimately show ?thesis by (simp only: split: if_split) blast
qed

text \<open>Serving a request leaves the log alone, or puts one of the known logs in its place.\<close>

lemma handleRPC_log:
  assumes rpc: "handleRPC LS SS r cmd = Some (r', resp, b)" and xs: "repr linv lmap (logStore r) xs"
    and H: "matching H" "xs \<in> H" and net: "\<And>req. cmd = CmdAppendEntries req \<Longrightarrow> carried H req"
  shows "\<exists>ys \<in> H. repr linv lmap (logStore r') ys \<and> (state r' = Leader \<longrightarrow> ys = xs)"
  using rpc
proof (cases rule: handleRPC_cases)
  case (append req resp')
  show ?thesis
  proof (cases "ae_Term req < currentTerm r")
    case True
    then show ?thesis using append(2) xs H(2) by (auto simp: handleAppendEntries_def)
  next
    case fresh: False
    have follower: "state r' = Follower" using handleAppendEntries_ballot [OF append(2)] fresh by simp
    show ?thesis
    proof (cases "prev_ok xs req")
      case True
      note merge = carried_merge [OF H net [OF append(1)] True]
      have "log_ok (take (unat (PrevLogIndex req)) xs @ Entries req)"
        using merge(2) xs log_ok_take by (cases "Entries req = []") (auto simp: repr_def)
      from handleAppendEntries_accept [where SS = SS, OF xs fresh True this] append(2) merge(1) show ?thesis
        using follower by auto
    next
      case False
      from handleAppendEntries_reject [where SS = SS, OF xs fresh False] append(2) show ?thesis
        using follower xs H(2) by auto
    qed
  qed
next
  case (vote req resp')
  then show ?thesis using handleRequestVote_log [of LS SS r req] xs H(2) by auto
next
  case unknown
  then show ?thesis using xs H(2) by auto
qed

text \<open>
  A step of a node whose log is one of the known logs: it holds a known log again, the same one if it
  leads, or it is the leader and has appended an entry of its term.
\<close>

lemma log_step:
  assumes "pstep LS SS A P l P'" and xs: "repr linv lmap (logStore (node P)) xs" "Suc (length xs) < 2 ^ 64 - 1"
    and H: "matching H" "xs \<in> H" and net: "\<forall>req resp. l = ServeRPC (CmdAppendEntries req) resp \<longrightarrow> carried H req"
    and steady: "pc P = LeaderReady \<and> state (node P) \<noteq> Leader \<longrightarrow> logStore (node P') = logStore (node P)"
  shows "(\<exists>ys \<in> H. repr linv lmap (logStore (node P')) ys \<and> (state (node P') = Leader \<longrightarrow> ys = xs)) \<or>
    (\<exists>e. Term e = currentTerm (node P) \<and> state (node P) = Leader \<and> same_ballot (node P) (node P') \<and>
       repr linv lmap (logStore (node P')) (xs @ [e]))"
  using assms
proof (induction rule: pstep.induct)
  case (follower_rpc P cmd r resp reset)
  then show ?case using handleRPC_log [OF follower_rpc.hyps(2) follower_rpc.prems(1,3,4)] by simp
next
  case (candidate_rpc P req voters cmd r resp reset)
  then show ?case using handleRPC_log [OF candidate_rpc.hyps(2) candidate_rpc.prems(1,3,4)] by simp
next
  case (leader_rpc P cmd r1 resp reset r pc')
  have "logStore r = logStore r1" "state r = state r1"
    using leader_next_log [OF leader_rpc.hyps(3)] leader_next_state [OF leader_rpc.hyps(3)] by (simp_all add: same_ballot_def)
  then show ?case
    using leader_rpc.prems(5) handleRPC_log [OF leader_rpc.hyps(2) leader_rpc.prems(1,3,4)] by simp
next
  case (leader_start P r pc')
  obtain e where e: "Term e = currentTerm (node P)" "repr linv lmap (logStore r) (xs @ [e])"
    using appendNoOp_repr [OF leader_start.prems(1,2)] leader_next_log [OF leader_start.hyps(2)] by auto
  have b: "same_ballot (node P) r"
    using leader_next_state [OF leader_start.hyps(2)] appendNoOp_ballot [of "node P" LS] by (auto simp: same_ballot_def)
  show ?case
  proof (cases "state (node P) = Leader")
    case True
    then show ?thesis using e b by auto
  next
    case False
    then show ?thesis using leader_start by auto
  qed
next
  case (leader_apply P req reqs r pc')
  let ?q = "(node P)\<lparr>applyCh := reqs\<rparr>"
  have q: "repr linv lmap (logStore ?q) xs" using leader_apply.prems(1) by simp
  have b: "same_ballot (node P) r" "logStore r = logStore (handleApplyRequest LS req ?q)"
    using leader_next_state [OF leader_apply.hyps(3)] handleApplyRequest_ballot [of ?q LS req] leader_next_log [OF leader_apply.hyps(3)]
    by (auto simp: same_ballot_def)
  show ?case
    using handleApplyRequest_repr [OF q leader_apply.prems(2), of req] b leader_apply.prems(1,4)
    by (cases "state (node P) = Leader") auto
next
  case (run_leader P)
  then show ?case by auto
qed (auto simp: log_kept electionTimeout_def applyExpired_def node_Shutdown_def failPendingFutures_def split: if_splits)

text \<open>The request of a leader carries its log.\<close>

lemma request_carried:
  assumes "replicateOnce_request LS r p = Some (Some req)" and "repr linv lmap (logStore r) ys" and "ys \<in> H"
  shows "carried H req"
proof -
  let ?n = "nextIndex (peer_heap r ! p)"
  have lead: "state r = Leader" using assms(1) by (simp add: replicateOnce_request_def split: if_splits)
  have ok: "log_ok ys" using assms(2) by (simp add: repr_def)
  show ?thesis
  proof (cases "?n \<noteq> 0 \<and> unat ?n \<le> Suc (length ys)")
    case True
    then obtain req' where req: "replicateOnce_request LS r p = Some (Some req')"
      "Suc (unat (PrevLogIndex req')) = unat ?n" "PrevLogTerm req' = term_at ys (unat (PrevLogIndex req'))"
      "Entries req' = drop (unat (PrevLogIndex req')) ys"
      using replicateOnce_request_repr [OF assms(2) lead, of p] by blast
    moreover have "unat (PrevLogIndex req') \<le> length ys" using req(2) True by simp
    ultimately show ?thesis using assms(1,3) unfolding carried_def by (intro disjI2 bexI [of _ ys]) simp_all
  next
    case False
    have "(if ?n \<le> last_of ys then collect LS (logStore r) ?n (last_of ys) [] else Some []) = Some []"
    proof (cases "?n = 0")
      case True
      then obtain err where "GetLog LS (logStore r) ?n = Inl err" using repr_get_None [OF assms(2), of 0] by auto
      then show ?thesis by (subst collect.simps) simp
    next
      case nz: False
      then have "\<not> ?n \<le> last_of ys" using False ok by (auto simp: word_le_nat_alt)
      then show ?thesis by simp
    qed
    then have "Entries req = []"
      using assms(1) lead repr_last [OF assms(2)] by (auto simp: replicateOnce_request_def Let_def)
    then show ?thesis by (simp add: carried_def)
  qed
qed

end

section \<open>Steady runs\<close>

text \<open>
  No node that was deposed between the start of its leadership and its first entry writes that entry,
  and no log grows to the largest index.
\<close>

definition steady :: "'l LogStore \<Rightarrow> string set \<Rightarrow> ('l, 's, 'f, 'r) Cluster \<Rightarrow> string \<Rightarrow> ('l, 's, 'f, 'r) Cluster \<Rightarrow> bool" where
  "steady LS ids C i D \<longleftrightarrow>
     (pc (procs C i) = LeaderReady \<and> state (node (procs C i)) \<noteq> Leader \<longrightarrow>
        logStore (node (procs D i)) = logStore (node (procs C i))) \<and>
     (\<forall>j \<in> ids. fst (LastIndex LS (logStore (node (procs C j)))) < - 2)"

inductive steady_run :: "'l LogStore \<Rightarrow> 's StableStore \<Rightarrow> ('f, 'r) FSM \<Rightarrow> string set \<Rightarrow>
    ('l, 's, 'f, 'r) Cluster \<Rightarrow> ('l, 's, 'f, 'r) Cluster \<Rightarrow> bool"
  for LS SS A ids C where
  here: "steady_run LS SS A ids C C"
| step: "steady_run LS SS A ids C D \<Longrightarrow> cstep LS SS A ids D i l E \<Longrightarrow> fresh D i l \<Longrightarrow> steady LS ids D i E \<Longrightarrow>
    steady_run LS SS A ids C E"

section \<open>The invariant\<close>

definition logs_inv :: "string set \<Rightarrow> ('l, 's, 'f, 'r) Cluster \<Rightarrow> (u64 \<times> string \<times> string set) set \<Rightarrow>
    LogEntry list set \<Rightarrow> (string \<Rightarrow> LogEntry list) \<Rightarrow> bool" where
  "logs_inv ids C W H Lg \<longleftrightarrow>
     matching H \<and> authored W H \<and>
     (\<forall>i \<in> ids. Lg i \<in> H \<and>
        (state (node (procs C i)) = Leader \<longrightarrow> leads H (currentTerm (node (procs C i))) (Lg i))) \<and>
     (\<forall>req \<in> sentAppends C. carried H req)"

text \<open>A node holds a known log: the others keep their logs and their terms.\<close>

lemma logs_inv_known:
  assumes inv: "logs_inv ids C W H Lg" and "W \<subseteq> W'" and "ys \<in> H"
    and lead: "state (node P) = Leader \<Longrightarrow> leads H (currentTerm (node P)) ys"
    and D: "procs D = (procs C)(i := P)" "\<And>req. req \<in> sentAppends D \<Longrightarrow> carried H req"
  shows "logs_inv ids D W' H (Lg(i := ys))"
  using assms authored_mono [of W H W'] by (auto simp: logs_inv_def)

text \<open>The leader \<open>i\<close> has appended an entry of its term.\<close>

lemma logs_inv_append:
  assumes inv: "logs_inv ids C W H Lg" and "W \<subseteq> W'" and i: "i \<in> ids"
    and e: "Term e = currentTerm (node (procs C i))" "log_ok (Lg i @ [e])" "(Term e, L, Q) \<in> W'"
    and lead: "state (node (procs C i)) = Leader" "currentTerm (node P) = currentTerm (node (procs C i))"
    and one: "\<And>j. j \<in> ids \<Longrightarrow> j \<noteq> i \<Longrightarrow> state (node (procs C j)) = Leader \<Longrightarrow> currentTerm (node (procs C j)) \<noteq> Term e"
    and D: "procs D = (procs C)(i := P)" "sentAppends D = sentAppends C"
  shows "logs_inv ids D W' (insert (Lg i @ [e]) H) (Lg(i := Lg i @ [e]))"
proof -
  let ?H = "insert (Lg i @ [e]) H"
  have h: "matching H" "Lg i \<in> H" "leads H (Term e) (Lg i)" using inv i e(1) lead(1) by (auto simp: logs_inv_def)
  note m = matching_append [OF h e(2)]
  have "authored W' ?H"
    using inv h(2) e(3) authored_mono [of W H W'] assms(2) unfolding logs_inv_def authored_def by auto
  moreover have "leads ?H (currentTerm (node (procs C j))) (Lg j)"
    if "j \<in> ids" "j \<noteq> i" "state (node (procs C j)) = Leader" for j
    using inv that one [OF that] h(2) by (intro leads_other) (auto simp: logs_inv_def)
  moreover have "carried ?H req" if "req \<in> sentAppends C" for req
    using inv that carried_mono [of H req ?H] by (auto simp: logs_inv_def)
  ultimately show ?thesis using inv m e(1) lead(2) D by (auto simp: logs_inv_def)
qed

context raft_stores
begin

definition minv :: "string set \<Rightarrow> ('l, 's, 'f, 'r) Cluster \<Rightarrow> bool" where
  "minv ids C \<longleftrightarrow> cinv SS sinv ids C \<and>
     (\<exists>B W H Lg. einv ids (view C B W) \<and> known C (view C B W) \<and> logs_inv ids C W H Lg \<and>
        (\<forall>i \<in> ids. repr linv lmap (logStore (node (procs C i))) (Lg i)))"

lemma minv_init:
  assumes "cluster_init SS sinv ids C" and "\<forall>i \<in> ids. repr linv lmap (logStore (node (procs C i))) []"
  shows "minv ids C"
proof -
  have "logs_inv ids C {} {[]} (\<lambda>i. [])"
    using assms(1) by (auto simp: logs_inv_def cluster_init_def matching_def authored_def)
  moreover have "einv ids (view C {} {})" "known C (view C {} {})"
    using assms(1) by (auto simp: cluster_init_def einit_def known_def intro!: einv_init)
  ultimately show ?thesis using cinv_init [OF assms(1)] assms(2) unfolding minv_def by blast
qed

lemma minv_crash:
  assumes inv: "minv ids C" and i: "i \<in> ids"
    and new: "NewRaftNode SS (config (node (procs C i))) (logStore (node (procs C i)))
      (stableStore (node (procs C i))) f = Ret (Inr r)"
  shows "minv ids (C\<lparr>procs := (procs C)(i := start r)\<rparr>)" (is "minv ids ?D")
proof -
  obtain B W H Lg where BW: "einv ids (view C B W)" "known C (view C B W)" and L: "logs_inv ids C W H Lg"
    "\<forall>i \<in> ids. repr linv lmap (logStore (node (procs C i))) (Lg i)" and c: "cinv SS sinv ids C"
    using inv by (auto simp: minv_def)
  have r: "logStore r = logStore (node (procs C i))" "state r = Follower"
    using new by (auto simp: NewRaftNode_def restoreState_def bind_outcome_eq_Ret
        split: option.splits sum.splits prod.splits)
  have "logs_inv ids ?D W H (Lg(i := Lg i))"
    using L(1) i r(2) by (intro logs_inv_known [OF L(1), of W "Lg i" "start r"]) (auto simp: logs_inv_def start_def)
  moreover have "\<forall>j \<in> ids. repr linv lmap (logStore (node (procs ?D j))) (Lg j)"
    using L(2) r(1) by (auto simp: start_def)
  ultimately show ?thesis
    using view_crash [OF c BW i new HOL.refl] cinv_crash [OF c i new] unfolding minv_def by (metis fun_upd_triv)
qed

text \<open>A node that has just won a term: nobody has won it before, so no entry is of that term.\<close>

lemma new_leader_leads:
  assumes "finite ids" and "einv ids (view C B W)" and "einv ids (view D B' W')" and "W \<subseteq> W'" and "authored W H"
    and "phase_of (pc (procs C i)) \<noteq> Idle" and "state (node (procs D i)) = Leader"
    and t: "currentTerm (node (procs D i)) = currentTerm (node (procs C i))"
  shows "leads H (currentTerm (node (procs D i))) ys"
proof (rule leads_new [OF assms(5)])
  fix L Q
  obtain vs where "phase_of (pc (procs C i)) = Running vs" using assms(6) by (cases "phase_of (pc (procs C i))") auto
  then have no: "(currentTerm (node (procs C i)), i, Q') \<notin> W" for Q'
    using assms(2) unfolding einv_def running_ok_def view_fields by blast
  obtain Q' where "(currentTerm (node (procs D i)), i, Q') \<in> W'"
    using assms(3,7) unfolding einv_def leader_ok_def view_fields by blast
  then show "(currentTerm (node (procs D i)), L, Q) \<notin> W"
    using winner_unique [OF assms(1,3), of "currentTerm (node (procs D i))" i Q' L Q] assms(4) no t by auto
qed

end

inductive_cases SendAppend_step: "pstep LS SS A P (SendAppend p req) P'"

lemma publish_appends:
  "sentAppends (publish i l C) = (case l of SendAppend p req \<Rightarrow> insert req (sentAppends C) | _ \<Rightarrow> sentAppends C)"
  by (simp add: publish_def split: label.split Command.split RPCResponse.split)

context raft_stores
begin

text \<open>A step that ends with a log that is known already.\<close>

lemma logs_known_step:
  assumes L: "logs_inv ids C W H Lg" and view: "einv ids (view C B W)" "einv ids (view D B' W')" "W \<subseteq> W'" and fin: "finite ids"
    and i: "i \<in> ids" and step: "pstep LS SS A (procs C i) l P" and D: "D = publish i l (C\<lparr>procs := (procs C)(i := P)\<rparr>)"
    and R: "repr linv lmap (logStore (node (procs C i))) (Lg i)" and ys: "ys \<in> H" "state (node P) = Leader \<longrightarrow> ys = Lg i"
  shows "logs_inv ids D W' H (Lg(i := ys))"
proof -
  have h: "authored W H" "Lg i \<in> H" "\<And>req. req \<in> sentAppends C \<Longrightarrow> carried H req" using L i by (auto simp: logs_inv_def)
  have procs: "procs D = (procs C)(i := P)" by (simp add: D)
  have "leads H (currentTerm (node P)) ys" if "state (node P) = Leader"
    using role_step [OF step that]
  proof (elim conjE disjE)
    assume "currentTerm (node P) = currentTerm (node (procs C i))" "state (node (procs C i)) = Leader"
    then show ?thesis using L i ys(2) that by (auto simp: logs_inv_def)
  next
    assume "currentTerm (node P) = currentTerm (node (procs C i))" "phase_of (pc (procs C i)) \<noteq> Idle"
    then show ?thesis using new_leader_leads [OF fin view h(1), of i ys] that procs by simp
  qed
  moreover have "carried H req" if "req \<in> sentAppends D" for req
    using that h(2,3) request_carried [OF _ R] step
    by (auto simp: D publish_appends split: label.splits elim!: SendAppend_step)
  ultimately show ?thesis by (intro logs_inv_known [OF L view(3) ys(1) _ procs]) simp_all
qed

text \<open>A step in which the leader adds an entry.\<close>

lemma logs_append_step:
  assumes L: "logs_inv ids C W H Lg" and c: "cinv SS sinv ids C" and view: "einv ids (view D B' W')" "W \<subseteq> W'"
    and i: "i \<in> ids" and step: "pstep LS SS A (procs C i) l P" and D: "D = publish i l (C\<lparr>procs := (procs C)(i := P)\<rparr>)"
    and R: "repr linv lmap (logStore (node (procs C i))) (Lg i)" "repr linv lmap (logStore (node P)) (Lg i @ [e])"
    and e: "Term e = currentTerm (node (procs C i))" "state (node (procs C i)) = Leader" "same_ballot (node (procs C i)) (node P)"
  shows "logs_inv ids D W' (insert (Lg i @ [e]) H) (Lg(i := Lg i @ [e]))"
proof -
  have procs: "procs D = (procs C)(i := P)" by (simp add: D)
  have "state (node (procs D i)) = Leader" "currentTerm (node (procs D i)) = Term e"
    using e procs by (simp_all add: same_ballot_def)
  then obtain Q where Q: "(Term e, i, Q) \<in> W'"
    using view(1) unfolding einv_def leader_ok_def view_fields by metis
  have one: "currentTerm (node (procs C j)) \<noteq> Term e" if "j \<in> ids" "j \<noteq> i" "state (node (procs C j)) = Leader" for j
    using leader_of_term [OF c that(1) i that(3) e(2)] that(2) e(1) by auto
  have "unat (last_of (Lg i)) = length (Lg i)" "unat (last_of (Lg i @ [e])) = Suc (length (Lg i))"
    using R unat_last_of [of "Lg i"] unat_last_of [of "Lg i @ [e]"] by (simp_all add: repr_def)
  then have "P \<noteq> procs C i" using repr_last [OF R(2)] repr_last [OF R(1)] by auto
  then have "sentAppends D = sentAppends C" using step by (auto simp: D publish_appends split: label.splits elim!: SendAppend_step)
  moreover have "log_ok (Lg i @ [e])" using R(2) by (simp add: repr_def)
  moreover have "currentTerm (node P) = currentTerm (node (procs C i))" using e(3) by (simp add: same_ballot_def)
  ultimately show ?thesis using one by (intro logs_inv_append [OF L view(2) i e(1) _ Q e(2) _ _ procs]) simp_all
qed

lemma minv_act:
  assumes inv: "minv ids C" and i: "i \<in> ids" and step: "pstep LS SS A (procs C i) l P"
    and net: "admissible C i l" "fresh C i (Some l)" and D: "D = publish i l (C\<lparr>procs := (procs C)(i := P)\<rparr>)"
    and steady: "steady LS ids C i D"
  shows "minv ids D"
proof -
  obtain B W H Lg where BW: "einv ids (view C B W)" "known C (view C B W)" and L: "logs_inv ids C W H Lg"
    and R: "\<And>i. i \<in> ids \<Longrightarrow> repr linv lmap (logStore (node (procs C i))) (Lg i)" and c: "cinv SS sinv ids C"
    using inv by (auto simp: minv_def)
  obtain B' W' where BW': "einv ids (view D B' W')" "known D (view D B' W')" "W \<subseteq> W'"
    using view_act [OF c BW i step net D] by blast
  have h: "matching H" "Lg i \<in> H" "\<forall>req resp. l = ServeRPC (CmdAppendEntries req) resp \<longrightarrow> carried H req"
    using L i net(1) by (auto simp: logs_inv_def admissible_def)
  have fin: "finite ids" using c i member_finite unfolding cinv_def by blast
  have "last_of (Lg i) < - 2" using steady i repr_last [OF R [OF i]] unfolding steady_def by fastforce
  then have room: "Suc (length (Lg i)) < 2 ^ 64 - 1" using R [OF i] by (simp only: repr_def log_ok_small)
  have st: "pc (procs C i) = LeaderReady \<and> state (node (procs C i)) \<noteq> Leader \<longrightarrow> logStore (node P) = logStore (node (procs C i))"
    using steady by (simp add: steady_def D)
  have "\<exists>H' ys. logs_inv ids D W' H' (Lg(i := ys)) \<and> repr linv lmap (logStore (node P)) ys"
    using log_step [OF step R [OF i] room h st] logs_known_step [OF L BW(1) BW'(1,3) fin i step D R [OF i]]
      logs_append_step [OF L c BW'(1,3) i step D R [OF i]] by metis
  then obtain H' ys where "logs_inv ids D W' H' (Lg(i := ys))" "\<forall>j \<in> ids. repr linv lmap (logStore (node (procs D j))) ((Lg(i := ys)) j)"
    using R D by auto
  then show ?thesis using BW' cinv_act [OF c i step net] D unfolding minv_def by blast
qed

lemma minv_run:
  assumes "steady_run LS SS A ids C D" and "minv ids C"
  shows "minv ids D"
  using assms
proof (induction rule: steady_run.induct)
  case (step D i l E)
  have inv: "minv ids D" using step by simp
  from step.hyps(2) show ?case
  proof cases
    case (act l P)
    then show ?thesis using minv_act [OF inv act(3,4,5)] step.hyps(3,4) by simp
  next
    case (crash f r)
    then show ?thesis using minv_crash [OF inv] by simp
  qed
qed

lemma minv_matching:
  assumes "minv ids C" and "i \<in> ids" and "j \<in> ids"
  obtains xs ys where "repr linv lmap (logStore (node (procs C i))) xs" "repr linv lmap (logStore (node (procs C j))) ys"
    "log_matching xs ys"
  using assms unfolding minv_def logs_inv_def matching_def by blast

text \<open>Matching logs, as the stores show them.\<close>

lemma matching_get:
  assumes "repr linv lmap l xs" and "repr linv lmap l' ys" and "log_matching xs ys"
    and "GetLog LS l n = Inr e" and "GetLog LS l' n = Inr e'" and "Term e = Term e'" and "0 < m" and "m \<le> n"
  shows "\<exists>d. GetLog LS l m = Inr d \<and> GetLog LS l' m = Inr d"
proof -
  have n: "n \<noteq> 0" "unat n \<le> length xs" "unat n \<le> length ys"
    using repr_get_None [OF assms(1), of n] repr_get_None [OF assms(2), of n] assms(4,5) by force+
  have m: "m \<noteq> 0" "0 < unat m" "unat m \<le> unat n" using assms(7,8) by (auto simp: word_le_nat_alt word_less_nat_alt)
  have "take (unat n) xs = take (unat n) ys"
    using log_matchingD [OF assms(3), of "unat n - 1"] repr_get [OF assms(1) n(1,2)] repr_get [OF assms(2) n(1,3)] assms(4-6) n m
    by (simp add: unat_pos)
  then have "xs ! (unat m - 1) = ys ! (unat m - 1)"
    using m nth_take [of "unat m - 1" "unat n" xs] nth_take [of "unat m - 1" "unat n" ys] by simp
  then show ?thesis using repr_get [OF assms(1) m(1)] repr_get [OF assms(2) m(1)] m n by simp
qed

end

end
