(* ===== verification/Commit_Spec.thy ===== *)
theory Commit_Spec
  imports Election_Spec Raft_Replication "HOL-Library.Sublist"
begin

text \<open>
  The abstract argument for the safety of commitment, on logs as lists: what every node has as term and
  log, the ballots and winners of theory \<open>Election_Spec\<close>, for every term that was won the log of its
  leader, for every candidacy the log it was based on, and which node has ever held which log that
  ends in an entry of the node's own term. A log that a majority has held in this way is committed;
  every later leader has it. No quantifier of the invariant looks into the future: where a voter
  no longer holds what it has once held, an earlier leader without it is to blame (\<open>lost\<close>).
\<close>

record history =
  h_term :: "string \<Rightarrow> u64"
  h_log :: "string \<Rightarrow> LogEntry list"
  h_ballots :: "(u64 \<times> string \<times> string) set"
  h_won :: "(u64 \<times> string \<times> string set) set"
  h_lead :: "u64 \<Rightarrow> LogEntry list"
  h_stood :: "u64 \<Rightarrow> string \<Rightarrow> LogEntry list"
  h_held :: "(string \<times> LogEntry list) set"

definition won :: "history \<Rightarrow> u64 \<Rightarrow> bool" where
  "won s t \<longleftrightarrow> (\<exists>L Q. (t, L, Q) \<in> h_won s)"

text \<open>The entries of each term are those of its leader, and the terms do not fall.\<close>

definition genuine :: "history \<Rightarrow> LogEntry list \<Rightarrow> bool" where
  "genuine s xs \<longleftrightarrow> log_ok xs \<and> sorted (map Term xs) \<and>
     (\<forall>k < length xs. won s (Term (xs ! k)) \<and> prefix (take (Suc k) xs) (h_lead s (Term (xs ! k))))"

definition bounded :: "u64 \<Rightarrow> LogEntry list \<Rightarrow> bool" where
  "bounded t xs \<longleftrightarrow> (\<forall>e \<in> set xs. Term e \<le> t)"

text \<open>A later leader, of one of the terms \<open>S\<close>, does not have the log \<open>p\<close>.\<close>

definition lost :: "history \<Rightarrow> u64 set \<Rightarrow> LogEntry list \<Rightarrow> bool" where
  "lost s S p \<longleftrightarrow> (\<exists>t \<in> S. won s t \<and> Term (last p) < t \<and> \<not> prefix p (h_lead s t))"

definition kept :: "history \<Rightarrow> u64 set \<Rightarrow> LogEntry list \<Rightarrow> LogEntry list \<Rightarrow> bool" where
  "kept s S p xs \<longleftrightarrow> prefix p xs \<or> lost s S p"

definition lead_ok :: "history \<Rightarrow> bool" where
  "lead_ok s \<longleftrightarrow> (\<forall>t. won s t \<longrightarrow> genuine s (h_lead s t) \<and> bounded t (h_lead s t))"

definition logs_ok :: "string set \<Rightarrow> history \<Rightarrow> bool" where
  "logs_ok ids s \<longleftrightarrow>
     (\<forall>i \<in> ids. genuine s (h_log s i) \<and> bounded (h_term s i) (h_log s i) \<and>
        (\<forall>p. prefix p (h_log s i) \<longrightarrow> p \<noteq> [] \<longrightarrow> Term (last p) = h_term s i \<longrightarrow> (i, p) \<in> h_held s))"

definition held_ok :: "string set \<Rightarrow> history \<Rightarrow> bool" where
  "held_ok ids s \<longleftrightarrow>
     (\<forall>j p. (j, p) \<in> h_held s \<longrightarrow> j \<in> ids \<and> p \<noteq> [] \<and> genuine s p \<and> Term (last p) \<le> h_term s j \<and>
        kept s {..h_term s j} p (h_log s j))"

definition votes_ok :: "history \<Rightarrow> bool" where
  "votes_ok s \<longleftrightarrow>
     (\<forall>t v c p. (t, v, c) \<in> h_ballots s \<longrightarrow> (v, p) \<in> h_held s \<longrightarrow> Term (last p) < t \<longrightarrow> kept s {..t} p (h_stood s t c))"

definition quorums_ok :: "history \<Rightarrow> bool" where
  "quorums_ok s \<longleftrightarrow>
     (\<forall>t L Q v p. (t, L, Q) \<in> h_won s \<longrightarrow> v \<in> Q \<longrightarrow> (v, p) \<in> h_held s \<longrightarrow> Term (last p) < t \<longrightarrow>
        kept s {..<t} p (h_lead s t))"

text \<open>What election safety gives.\<close>

definition elected :: "string set \<Rightarrow> history \<Rightarrow> bool" where
  "elected ids s \<longleftrightarrow>
     (\<forall>t L Q. (t, L, Q) \<in> h_won s \<longrightarrow> majority ids Q \<and> (\<forall>v \<in> Q. (t, v, L) \<in> h_ballots s)) \<and>
     (\<forall>t v c. (t, v, c) \<in> h_ballots s \<longrightarrow> t \<le> h_term s v)"

definition hinv :: "string set \<Rightarrow> history \<Rightarrow> bool" where
  "hinv ids s \<longleftrightarrow> lead_ok s \<and> logs_ok ids s \<and> held_ok ids s \<and> votes_ok s \<and> quorums_ok s \<and> elected ids s"

section \<open>Genuine logs\<close>

lemma genuine_prefix: "genuine s xs \<Longrightarrow> prefix p xs \<Longrightarrow> genuine s p"
proof -
  assume g: "genuine s xs" and "prefix p xs"
  then obtain n where p: "p = take n xs" by (metis append_eq_conv_conj prefix_def)
  then show ?thesis using g log_ok_take [of xs n]
    by (auto simp: genuine_def take_map [symmetric] sorted_wrt_take)
qed

lemma genuine_matching: "genuine s xs \<Longrightarrow> genuine s ys \<Longrightarrow> log_matching xs ys"
  unfolding log_matching_def genuine_def
proof (intro allI impI, elim conjE)
  fix k
  assume xs: "\<forall>k < length xs. won s (Term (xs ! k)) \<and> prefix (take (Suc k) xs) (h_lead s (Term (xs ! k)))"
    and ys: "\<forall>k < length ys. won s (Term (ys ! k)) \<and> prefix (take (Suc k) ys) (h_lead s (Term (ys ! k)))"
    and k: "k < length xs" "k < length ys" "Term (xs ! k) = Term (ys ! k)"
  then have "prefix (take (Suc k) xs) (h_lead s (Term (xs ! k)))" "prefix (take (Suc k) ys) (h_lead s (Term (xs ! k)))"
    by auto
  then show "take (Suc k) xs = take (Suc k) ys"
    using k by (auto dest!: prefix_same_cases [of "take (Suc k) xs" _ "take (Suc k) ys"] simp: prefix_def)
qed

lemma genuine_last:
  assumes "genuine s xs" and "xs \<noteq> []"
  shows "won s (Term (last xs)) \<and> prefix xs (h_lead s (Term (last xs)))"
proof -
  have "length xs - 1 < length xs" using assms(2) by simp
  then have "won s (Term (xs ! (length xs - 1))) \<and> prefix (take (Suc (length xs - 1)) xs) (h_lead s (Term (xs ! (length xs - 1))))"
    using assms(1) unfolding genuine_def by blast
  then show ?thesis using assms(2) by (simp add: last_conv_nth)
qed

lemma genuine_last_le: "genuine s xs \<Longrightarrow> prefix p xs \<Longrightarrow> p \<noteq> [] \<Longrightarrow> Term (last p) \<le> Term (last xs)"
  by (auto simp: genuine_def prefix_def sorted_append last_append)

text \<open>Two logs within the log of one leader: a log that ends in an earlier term is within one that ends in a later one.\<close>

lemma earlier_within:
  assumes "genuine s ys" and "prefix p ys" and "prefix q ys" and "p \<noteq> []" "q \<noteq> []" and "Term (last p) < Term (last q)"
  shows "prefix p q"
proof (rule ccontr)
  assume "\<not> prefix p q"
  then have "prefix q p" using prefix_same_cases [OF assms(2,3)] by blast
  then show False using genuine_last_le [OF genuine_prefix [OF assms(1,2)] _ assms(5)] assms(6) by auto
qed

text \<open>The heart of the vote: a candidate whose log is at least as recent has what the voter has.\<close>

lemma recent_keeps:
  assumes lead: "lead_ok s" and xs: "genuine s xs" "prefix p xs" "p \<noteq> []" and cs: "genuine s cs" "cs \<noteq> []" "Term (last cs) < t"
    and recent: "Term (last xs) < Term (last cs) \<or> Term (last xs) = Term (last cs) \<and> length xs \<le> length cs"
  shows "kept s {..<t} p cs"
  using recent
proof (elim disjE conjE)
  have ne: "xs \<noteq> []" using xs(2,3) by auto
  note c = genuine_last [OF cs(1,2)]
  {
    assume *: "Term (last xs) < Term (last cs)"
    then have less: "Term (last p) < Term (last cs)" using genuine_last_le [OF xs] by simp
    show ?thesis
    proof (cases "prefix p (h_lead s (Term (last cs)))")
      case True
      then have "prefix p cs" using earlier_within [OF _ True _ xs(3) cs(2) less] c lead unfolding lead_ok_def by blast
      then show ?thesis by (simp add: kept_def)
    next
      case False
      then have "lost s {..<t} p" using c less cs(3) by (auto simp: lost_def)
      then show ?thesis by (simp add: kept_def)
    qed
  next
    assume "Term (last xs) = Term (last cs)" "length xs \<le> length cs"
    then have "prefix xs cs" using genuine_last [OF xs(1) ne] c prefix_length_prefix by metis
    then show ?thesis using xs(2) by (auto simp: kept_def intro: prefix_order.trans)
  }
qed

section \<open>Committed logs\<close>

definition committed :: "string set \<Rightarrow> history \<Rightarrow> LogEntry list \<Rightarrow> bool" where
  "committed ids s p \<longleftrightarrow> (\<exists>Q. majority ids Q \<and> (\<forall>j \<in> Q. (j, p) \<in> h_held s))"

text \<open>A log that is part of a committed one of a term up to \<open>b\<close>.\<close>

definition settled :: "string set \<Rightarrow> history \<Rightarrow> u64 \<Rightarrow> LogEntry list \<Rightarrow> bool" where
  "settled ids s b q \<longleftrightarrow> q = [] \<or> (\<exists>p. committed ids s p \<and> prefix q p \<and> Term (last p) \<le> b)"

text \<open>Leader completeness.\<close>

lemma leader_complete:
  assumes "finite ids" and inv: "hinv ids s" and p: "committed ids s p" and "won s t" and "Term (last p) < t"
  shows "prefix p (h_lead s t)"
  using assms(4,5)
proof (induction t rule: less_induct)
  case (less t)
  obtain L Q' where w: "(t, L, Q') \<in> h_won s" using less.prems(1) by (auto simp: won_def)
  obtain Q where Q: "majority ids Q" "\<And>j. j \<in> Q \<Longrightarrow> (j, p) \<in> h_held s" using p by (auto simp: committed_def)
  have "majority ids Q'" using inv w unfolding hinv_def elected_def by blast
  then obtain v where v: "v \<in> Q" "v \<in> Q'" using majorities_meet [OF assms(1) Q(1)] by blast
  have "kept s {..<t} p (h_lead s t)"
    using inv w v(2) Q(2) [OF v(1)] less.prems(2) unfolding hinv_def quorums_ok_def by blast
  moreover have "\<not> lost s {..<t} p" using less.IH by (auto simp: lost_def)
  ultimately show ?case by (simp add: kept_def)
qed

lemma committed_held:
  assumes "hinv ids s" and "committed ids s p" and "finite ids"
  shows "p \<noteq> [] \<and> genuine s p"
proof -
  obtain Q where Q: "majority ids Q" "\<And>j. j \<in> Q \<Longrightarrow> (j, p) \<in> h_held s" using assms(2) by (auto simp: committed_def)
  then obtain j where "j \<in> Q" using majorities_meet [OF assms(3) Q(1) Q(1)] by blast
  then show ?thesis using Q(2) assms(1) unfolding hinv_def held_ok_def by blast
qed

lemma settled_lead:
  assumes "finite ids" and inv: "hinv ids s" and "settled ids s b q" and "won s t" and "b \<le> t"
  shows "prefix q (h_lead s t)"
proof (cases "q = []")
  case False
  then obtain p where p: "committed ids s p" "prefix q p" "Term (last p) \<le> t"
    using assms(3,5) by (auto simp: settled_def)
  note g = committed_held [OF inv p(1) assms(1)]
  have "prefix p (h_lead s t)"
  proof (cases "Term (last p) = t")
    case True
    then show ?thesis using genuine_last [of s p] g by simp
  next
    case False
    then show ?thesis using leader_complete [OF assms(1,2) p(1) assms(4)] p(3) by simp
  qed
  then show ?thesis using p(2) by (rule prefix_order.trans [rotated])
qed simp

text \<open>Any two settled logs agree.\<close>

lemma settled_agree:
  assumes "finite ids" and inv: "hinv ids s" and "settled ids s b q" and "settled ids s b' q'"
  shows "prefix q q' \<or> prefix q' q"
proof (cases "q = [] \<or> q' = []")
  case False
  then obtain p p' where p: "committed ids s p" "prefix q p" and p': "committed ids s p'" "prefix q' p'"
    using assms(3,4) by (auto simp: settled_def)
  let ?t = "max (Term (last p)) (Term (last p'))"
  note g = committed_held [OF inv p(1) assms(1)] committed_held [OF inv p'(1) assms(1)]
  have "won s ?t" using g genuine_last by (metis max_def)
  moreover have "settled ids s (Term (last p)) q" "settled ids s (Term (last p')) q'"
    using p p' by (auto simp: settled_def)
  ultimately have "prefix q (h_lead s ?t)" "prefix q' (h_lead s ?t)"
    using settled_lead [OF assms(1,2), of _ _ ?t] by simp_all
  then show ?thesis by (rule prefix_same_cases)
qed auto

section \<open>Steps\<close>

text \<open>Histories grow: leaders append entries of their own term.\<close>

definition grows :: "history \<Rightarrow> history \<Rightarrow> bool" where
  "grows s s' \<longleftrightarrow> h_won s \<subseteq> h_won s' \<and>
     (\<forall>t. won s t \<longrightarrow> (\<exists>es. h_lead s' t = h_lead s t @ es \<and> (\<forall>e \<in> set es. Term e = t)))"

lemma grows_won: "grows s s' \<Longrightarrow> won s t \<Longrightarrow> won s' t"
  by (auto simp: grows_def won_def)

lemma grows_lead: "grows s s' \<Longrightarrow> won s t \<Longrightarrow> prefix p (h_lead s t) \<Longrightarrow> prefix p (h_lead s' t)"
  unfolding grows_def by fastforce

lemma grows_genuine: "grows s s' \<Longrightarrow> genuine s xs \<Longrightarrow> genuine s' xs"
  using grows_won grows_lead by (auto simp: genuine_def)

lemma prefix_last: "prefix us es \<Longrightarrow> us \<noteq> [] \<Longrightarrow> last us \<in> set es"
  by (meson last_in_set set_mono_prefix subsetD)

lemma grows_lost:
  assumes "grows s s'" and "lost s S p" and "S \<subseteq> S'"
  shows "lost s' S' p"
proof -
  obtain t where t: "t \<in> S'" "won s t" "Term (last p) < t" "\<not> prefix p (h_lead s t)"
    using assms(2,3) by (auto simp: lost_def)
  obtain es where es: "h_lead s' t = h_lead s t @ es" "\<forall>e \<in> set es. Term e = t"
    using assms(1) t(2) by (auto simp: grows_def)
  have "\<not> prefix p (h_lead s' t)"
  proof
    assume "prefix p (h_lead s' t)"
    then obtain us where "p = h_lead s t @ us" "prefix us es" "us \<noteq> []"
      using t(4) es(1) by (auto simp: prefix_append)
    then have "last p \<in> set es" using prefix_last by (simp add: last_append)
    then show False using es(2) t(3) by auto
  qed
  then show ?thesis using t(1-3) grows_won [OF assms(1)] by (auto simp: lost_def)
qed

lemma grows_kept: "grows s s' \<Longrightarrow> kept s S p xs \<Longrightarrow> S \<subseteq> S' \<Longrightarrow> kept s' S' p xs"
  using grows_lost by (auto simp: kept_def)

lemma settled_grows: "h_held s \<subseteq> h_held s' \<Longrightarrow> b \<le> b' \<Longrightarrow> settled ids s b q \<Longrightarrow> settled ids s' b' q"
  unfolding settled_def committed_def by (meson order.trans subsetD)

text \<open>
  A node takes over the log \<open>ys\<close> that the leader of term \<open>t\<close> had when it sent it: everything the node has
  held is still there or was lost before, and what is settled stays.
\<close>

definition snapshot :: "history \<Rightarrow> u64 \<Rightarrow> LogEntry list \<Rightarrow> bool" where
  "snapshot s t ys \<longleftrightarrow> won s t \<and> (\<exists>es. h_lead s t = ys @ es \<and> (\<forall>e \<in> set es. Term e = t))"

definition takeover :: "LogEntry list \<Rightarrow> LogEntry list \<Rightarrow> LogEntry list" where
  "takeover xs ys = (if prefix ys xs then xs else ys)"

lemma snapshot_grows: "grows s s' \<Longrightarrow> snapshot s t ys \<Longrightarrow> snapshot s' t ys"
proof -
  assume g: "grows s s'" and "snapshot s t ys"
  then obtain es where es: "won s t" "h_lead s t = ys @ es" "\<forall>e \<in> set es. Term e = t" by (auto simp: snapshot_def)
  then obtain es' where "h_lead s' t = h_lead s t @ es'" "\<forall>e \<in> set es'. Term e = t" using g by (auto simp: grows_def)
  then show ?thesis using es grows_won [OF g] unfolding snapshot_def by (intro conjI exI [of _ "es @ es'"]) auto
qed

lemma snapshot_prefix:
  assumes "snapshot s t ys" and "prefix p (h_lead s t)" and "p \<noteq> []" and "Term (last p) < t"
  shows "prefix p ys"
proof (rule ccontr)
  assume no: "\<not> prefix p ys"
  obtain es where es: "h_lead s t = ys @ es" "\<forall>e \<in> set es. Term e = t" using assms(1) by (auto simp: snapshot_def)
  then obtain us where "p = ys @ us" "prefix us es" "us \<noteq> []" using no assms(2) by (auto simp: prefix_append)
  then have "last p \<in> set es" using prefix_last by (simp add: last_append)
  then show False using es(2) assms(4) by auto
qed

lemma takeover_prefix:
  assumes "prefix q xs" and "prefix q L" and "prefix ys L"
  shows "prefix q (takeover xs ys)"
proof (cases "prefix ys xs")
  case False
  then have "\<not> prefix ys q" using assms(1) by (auto intro: prefix_order.trans)
  then show ?thesis using prefix_same_cases [OF assms(2,3)] False by (auto simp: takeover_def)
qed (use assms in \<open>simp add: takeover_def\<close>)

lemma takeover_keeps:
  assumes inv: "hinv ids s" and "(i, p) \<in> h_held s" and "snapshot s t ys" and "h_term s i \<le> t"
  shows "kept s {..t} p (takeover (h_log s i) ys)"
proof -
  have p: "p \<noteq> []" "genuine s p" "Term (last p) \<le> h_term s i" "kept s {..h_term s i} p (h_log s i)"
    using inv assms(2) unfolding hinv_def held_ok_def by blast+
  have sn: "won s t" "prefix ys (h_lead s t)" using assms(3) by (auto simp: snapshot_def)
  show ?thesis
  proof (cases "prefix p (h_log s i)")
    case True
    consider "prefix p (h_lead s t)" | "\<not> prefix p (h_lead s t)" "Term (last p) < t"
      using p(3) assms(4) genuine_last [OF p(2,1)] by (metis dual_order.trans order_less_le)
    then show ?thesis
    proof cases
      case 1
      then show ?thesis using takeover_prefix [OF True _ sn(2)] by (simp add: kept_def)
    next
      case 2
      then show ?thesis using sn(1) by (auto simp: kept_def lost_def)
    qed
  next
    case False
    then show ?thesis using p(4) assms(4) by (auto simp: kept_def lost_def intro: order.trans)
  qed
qed

lemma takeover_settled:
  assumes "finite ids" and "hinv ids s" and "settled ids s (h_term s i) q" and "snapshot s t ys" and "h_term s i \<le> t"
    and "prefix q (h_log s i)"
  shows "prefix q (takeover (h_log s i) ys)"
proof -
  have "won s t" "prefix ys (h_lead s t)" using assms(4) by (auto simp: snapshot_def)
  then show ?thesis using takeover_prefix [OF assms(6)] settled_lead [OF assms(1-3)] assms(5) by blast
qed

text \<open>
  A step of node \<open>i\<close>, whose term becomes \<open>t\<close> and whose log becomes \<open>zs\<close>. It may cast ballots of that term,
  and win it.
\<close>

definition noted :: "string \<Rightarrow> u64 \<Rightarrow> LogEntry list \<Rightarrow> (string \<times> LogEntry list) set" where
  "noted i t zs = {(i, p) |p. prefix p zs \<and> p \<noteq> [] \<and> Term (last p) = t}"

inductive history_step :: "string set \<Rightarrow> history \<Rightarrow> string \<Rightarrow> u64 \<Rightarrow> LogEntry list \<Rightarrow> history \<Rightarrow> bool"
  for ids s i t zs s' where
  step: "hinv ids s \<Longrightarrow> elected ids s' \<Longrightarrow> i \<in> ids \<Longrightarrow> grows s s' \<Longrightarrow>
    h_term s' = (h_term s)(i := t) \<Longrightarrow> h_term s i \<le> t \<Longrightarrow>
    h_log s' = (h_log s)(i := zs) \<Longrightarrow> genuine s' zs \<Longrightarrow> bounded t zs \<Longrightarrow>
    h_held s' = h_held s \<union> noted i t zs \<Longrightarrow>
    (\<And>p. (i, p) \<in> h_held s \<Longrightarrow> kept s' {..t} p zs) \<Longrightarrow>
    (\<And>u. won s u \<Longrightarrow> h_lead s' u \<noteq> h_lead s u \<Longrightarrow> genuine s' (h_lead s' u) \<and> bounded u (h_lead s' u)) \<Longrightarrow>
    (\<And>u v c. (u, v, c) \<in> h_ballots s \<Longrightarrow> h_stood s' u c = h_stood s u c) \<Longrightarrow>
    (\<And>u v c. (u, v, c) \<in> h_ballots s' - h_ballots s \<Longrightarrow> v = i \<and> u = t) \<Longrightarrow>
    (\<And>v c p. (t, v, c) \<in> h_ballots s' - h_ballots s \<Longrightarrow> (i, p) \<in> h_held s \<Longrightarrow> Term (last p) < t \<Longrightarrow>
      kept s' {..t} p (h_stood s' t c)) \<Longrightarrow>
    (\<And>u L Q. (u, L, Q) \<in> h_won s' - h_won s \<Longrightarrow> \<not> won s u \<and> genuine s' (h_lead s' u) \<and> bounded u (h_lead s' u) \<and>
      h_stood s u L = h_lead s' u \<and> (\<forall>v \<in> Q. (u, v, L) \<in> h_ballots s)) \<Longrightarrow>
    history_step ids s i t zs s'"

lemma old_held:
  assumes "history_step ids s i t zs s'" and v: "(v, p) \<in> h_held s'" "(u, v, c) \<in> h_ballots s" "Term (last p) < u"
  shows "(v, p) \<in> h_held s"
  using assms(1)
proof cases
  case step
  have "u \<le> h_term s v" using step(1) v(2) unfolding hinv_def elected_def by blast
  then have "(v, p) \<notin> noted i t zs" using v(3) step(6) by (auto simp: noted_def)
  then show ?thesis using v(1) step(10) by simp
qed

lemma lead_ok_step:
  assumes "history_step ids s i t zs s'"
  shows "lead_ok s'"
  using assms
proof cases
  case step
  have "genuine s' (h_lead s' u) \<and> bounded u (h_lead s' u)" if u: "won s' u" for u
  proof (cases "won s u")
    case True
    then have "genuine s (h_lead s u) \<and> bounded u (h_lead s u)" using step(1) by (simp add: hinv_def lead_ok_def)
    then show ?thesis using step(12) [OF True] grows_genuine [OF step(4)] by (cases "h_lead s' u = h_lead s u") auto
  next
    case False
    then show ?thesis using u step(16) unfolding won_def by blast
  qed
  then show ?thesis by (simp add: lead_ok_def)
qed

lemma logs_ok_step:
  assumes "history_step ids s i t zs s'"
  shows "logs_ok ids s'"
  using assms
proof cases
  case step
  show ?thesis
    unfolding logs_ok_def
  proof (intro ballI conjI allI impI)
    fix j assume j: "j \<in> ids"
    have old: "genuine s (h_log s j)" "bounded (h_term s j) (h_log s j)" using step(1) j by (auto simp: hinv_def logs_ok_def)
    show "genuine s' (h_log s' j)" using step(7,8) old(1) grows_genuine [OF step(4)] by simp
    show "bounded (h_term s' j) (h_log s' j)" using step(5,7,9) old(2) by simp
    fix p assume p: "prefix p (h_log s' j)" "p \<noteq> []" "Term (last p) = h_term s' j"
    show "(j, p) \<in> h_held s'"
    proof (cases "j = i")
      case True
      then show ?thesis using p step(5,7,10) by (auto simp: noted_def)
    next
      case False
      then show ?thesis using p step(1,5,7,10) j by (auto simp: hinv_def logs_ok_def)
    qed
  qed
qed

lemma held_ok_step:
  assumes "history_step ids s i t zs s'"
  shows "held_ok ids s'"
  using assms
proof cases
  case step
  show ?thesis
    unfolding held_ok_def
  proof (intro allI impI)
    fix j p assume "(j, p) \<in> h_held s'"
    then consider "(j, p) \<in> h_held s" | "(j, p) \<in> noted i t zs" using step(10) by blast
    then show "j \<in> ids \<and> p \<noteq> [] \<and> genuine s' p \<and> Term (last p) \<le> h_term s' j \<and> kept s' {..h_term s' j} p (h_log s' j)"
    proof cases
      case 1
      then have "j \<in> ids" "p \<noteq> []" "genuine s p" "Term (last p) \<le> h_term s j" "kept s {..h_term s j} p (h_log s j)"
        using step(1) unfolding hinv_def held_ok_def by blast+
      then show ?thesis
        using step(11) [of p] 1 step(5-7) grows_genuine [OF step(4)] grows_kept [OF step(4)] by (cases "j = i") auto
    next
      case 2
      then show ?thesis using step(3,5,7) genuine_prefix [OF step(8)] by (auto simp: noted_def kept_def)
    qed
  qed
qed

lemma votes_ok_step:
  assumes "history_step ids s i t zs s'"
  shows "votes_ok s'"
  using assms
proof cases
  case step
  have "kept s' {..u} p (h_stood s' u c)"
    if v: "(u, v, c) \<in> h_ballots s'" "(v, p) \<in> h_held s'" "Term (last p) < u" for u v c p
  proof (cases "(u, v, c) \<in> h_ballots s")
    case True
    then have "kept s {..u} p (h_stood s u c)"
      using step(1) old_held [OF assms v(2) True v(3)] v(3) unfolding hinv_def votes_ok_def by blast
    then show ?thesis using grows_kept [OF step(4)] step(13) [OF True] by auto
  next
    case False
    then have u: "v = i" "u = t" using step(14) v(1) by auto
    then have "(i, p) \<in> h_held s" using v(2,3) step(10) by (auto simp: noted_def)
    then show ?thesis using step(15) [of v c p] v(1,3) False u by simp
  qed
  then show ?thesis unfolding votes_ok_def by blast
qed

lemma quorums_ok_step:
  assumes "history_step ids s i t zs s'"
  shows "quorums_ok s'"
  using assms
proof cases
  case step
  have "kept s' {..<u} p (h_lead s' u)"
    if w: "(u, L, Q) \<in> h_won s'" and v: "v \<in> Q" "(v, p) \<in> h_held s'" "Term (last p) < u" for u L Q v p
  proof (cases "(u, L, Q) \<in> h_won s")
    case True
    then have b: "(u, v, L) \<in> h_ballots s" "won s u" using step(1) v(1) unfolding hinv_def elected_def won_def by blast+
    then have "kept s {..<u} p (h_lead s u)"
      using True step(1) old_held [OF assms v(2) b(1) v(3)] v unfolding hinv_def quorums_ok_def by blast
    then show ?thesis
      using grows_lost [OF step(4) _ order.refl] grows_lead [OF step(4) b(2)] by (auto simp: kept_def)
  next
    case False
    then have n: "\<not> won s u" "h_stood s u L = h_lead s' u" "(u, v, L) \<in> h_ballots s" using step(16) w v(1) by auto
    then have "kept s {..u} p (h_lead s' u)"
      using step(1) old_held [OF assms v(2) n(3) v(3)] v(3) unfolding hinv_def votes_ok_def by metis
    moreover have "lost s {..u} p \<longleftrightarrow> lost s {..<u} p"
      using n(1) by (auto simp: lost_def le_less)
    ultimately have "kept s {..<u} p (h_lead s' u)" by (auto simp: kept_def)
    then show ?thesis using grows_kept [OF step(4)] by blast
  qed
  then show ?thesis unfolding quorums_ok_def by blast
qed

lemma hinv_step:
  assumes "history_step ids s i t zs s'"
  shows "hinv ids s'"
proof -
  have "elected ids s'" using assms by cases
  then show ?thesis
    using lead_ok_step [OF assms] logs_ok_step [OF assms] held_ok_step [OF assms] votes_ok_step [OF assms]
      quorums_ok_step [OF assms] by (simp add: hinv_def)
qed

lemma settled_step:
  assumes "history_step ids s i t zs s'" and "b \<le> b'" and "settled ids s b q"
  shows "settled ids s' b' q"
proof -
  have "h_held s' = h_held s \<union> noted i t zs" using assms(1) by cases
  then have "h_held s \<subseteq> h_held s'" by blast
  then show ?thesis using settled_grows assms(2,3) by blast
qed

end
