(* ===== verification/Raft_Effects.thy ===== *)
theory Raft_Effects
  imports Raft_Matching Commit_Spec
begin

text \<open>
  What a step of a process does to the parts of a node on which commitment rests: the log, the commit
  index, what the leader knows of its peers, and the state machine. Nearly all steps leave them alone;
  the others are named one by one (\<open>step_effects\<close>).
\<close>

section \<open>Steps that leave them alone\<close>

text \<open>What the leader knows of a peer and relies on for commitment: who it is and how far it has matched.\<close>

definition peer_view :: "peerState \<Rightarrow> string \<times> u64" where
  "peer_view p = (ps_id p, matchIndex p)"

definition undisturbed :: "('l, 's, 'f, 'r) RaftNode \<Rightarrow> ('l, 's, 'f, 'r) RaftNode \<Rightarrow> bool" where
  "undisturbed r r' \<longleftrightarrow>
     logStore r' = logStore r \<and> commitIndex r' = commitIndex r \<and> peers r' = peers r \<and>
     map peer_view (peer_heap r') = map peer_view (peer_heap r) \<and>
     lastApplied r' = lastApplied r \<and> node_fsm r' = node_fsm r"

lemma undisturbed_refl [simp]: "undisturbed r r"
  by (simp add: undisturbed_def)

lemma undisturbed_trans: "undisturbed r r1 \<Longrightarrow> undisturbed r1 r2 \<Longrightarrow> undisturbed r r2"
  by (simp add: undisturbed_def)

lemma undisturbed_stepDown [simp]: "undisturbed r (stepDown SS t r)"
  by (simp add: undisturbed_def)

lemma becomeLeader_peers: "peers (becomeLeader r) = peers r" "peer_heap (becomeLeader r) = peer_heap r"
  by (simp_all add: becomeLeader_def)

lemma undisturbed_failAll [simp]: "undisturbed r (failAll e r)"
proof -
  have "undisturbed r (foldl (\<lambda>q p. respondFuture p (Some e) None q) r ps)" for ps
  proof (induction ps arbitrary: r)
    case (Cons p ps)
    then show ?case using Cons [of "respondFuture p (Some e) None r"] by (simp add: undisturbed_def)
  qed simp
  then show ?thesis by (simp add: failAll_def undisturbed_def)
qed

lemma undisturbed_election:
  "startElection LS SS r = (r', req, targets) \<Longrightarrow> undisturbed r r'"
  "immediateMajority r = (r', w) \<Longrightarrow> undisturbed r r'"
  "receiveVote SS r n vote = (r', n', left) \<Longrightarrow> undisturbed r r'"
  "handleRequestVote LS SS r rv = (r', resp, b) \<Longrightarrow> undisturbed r r'"
  by (auto simp: undisturbed_def startElection_def immediateMajority_def receiveVote_def checkVoteTerm_def
      countVote_def handleRequestVote_def becomeLeader_peers Let_def split: prod.splits if_splits)

lemma undisturbed_clients:
  "node_Apply r data way = (r', f) \<Longrightarrow> undisturbed r r'" "undisturbed r (applyExpired fut timedOut r)"
  "undisturbed r (node_Shutdown r)" "leader_next r = (r', p) \<Longrightarrow> undisturbed r r'"
proof -
  show "node_Apply r data way = (r', f) \<Longrightarrow> undisturbed r r'"
    by (auto simp: undisturbed_def node_Apply_def Let_def split: if_splits applyWay.splits)
  show "undisturbed r (applyExpired fut timedOut r)" by (simp add: undisturbed_def applyExpired_def)
  show "undisturbed r (node_Shutdown r)"
    using undisturbed_failAll [of "r\<lparr>shutdownCh := True, state := Follower\<rparr>" ErrShutdown]
    by (auto simp: node_Shutdown_def undisturbed_def)
  show "leader_next r = (r', p) \<Longrightarrow> undisturbed r r'"
    by (auto simp: leader_next_def failPendingFutures_def split: if_splits)
qed

lemma peer_view_trigger: "map peer_view (peer_heap (triggerReplication r)) = map peer_view (peer_heap r)"
proof -
  have "map peer_view (foldl (\<lambda>h p. h[p := (h ! p)\<lparr>triggerCh := True\<rparr>]) h ps) = map peer_view h" for h ps
  proof (induction ps arbitrary: h)
    case (Cons p ps)
    have "map peer_view (h[p := (h ! p)\<lparr>triggerCh := True\<rparr>]) = map peer_view h"
      by (cases "p < length h") (simp_all add: map_update peer_view_def list_update_same_conv list_update_beyond)
    then show ?case by (simp add: Cons)
  qed simp
  then show ?thesis by (simp add: triggerReplication_def)
qed

text \<open>Appending an entry touches only the log.\<close>

lemma undisturbed_append:
  "undisturbed (r\<lparr>logStore := logStore (appendNoOp LS r)\<rparr>) (appendNoOp LS r)"
  "undisturbed (r\<lparr>logStore := logStore (handleApplyRequest LS req r)\<rparr>) (handleApplyRequest LS req r)"
  by (auto simp: undisturbed_def appendNoOp_def handleApplyRequest_def Let_def peer_view_trigger split: prod.split option.split)

text \<open>A failed reply only moves \<open>nextIndex\<close>.\<close>

lemma undisturbed_failure:
  assumes "currentTerm r < aer_Term resp \<or> \<not> Success resp"
  shows "undisturbed r (replicateOnce_response LS SS r p entries resp)"
proof -
  have "map peer_view ((peer_heap r)[p := backUp LS (logStore r) resp (peer_heap r ! p)]) = map peer_view (peer_heap r)"
    by (cases "p < length (peer_heap r)")
      (simp_all add: map_update peer_view_def backUp_def Let_def list_update_same_conv list_update_beyond)
  then show ?thesis using assms by (auto simp: replicateOnce_response_def undisturbed_def)
qed

section \<open>The effects of a step\<close>

text \<open>All three loops serve a request in the same way.\<close>

lemma serve_step:
  assumes "pstep LS SS A P (ServeRPC cmd resp) P'"
  obtains r b where "handleRPC LS SS (node P) cmd = Some (r, resp, b)" "undisturbed r (node P')" "same_ballot r (node P')"
    "applying P' = applying P" "pc P' \<noteq> LeaderReady" "pc P' = InLeader \<Longrightarrow> pc P = InLeader"
    "phase_of (pc P') \<noteq> Idle \<Longrightarrow> state r = Candidate"
  using assms
proof (cases rule: pstep.cases)
  case (follower_rpc r reset)
  then show ?thesis by (intro that [of r reset]) (simp_all add: follower_next_def split: if_splits)
next
  case (candidate_rpc req voters r reset)
  then show ?thesis by (intro that [of r reset]) (simp_all add: candidate_next_def split: if_splits)
next
  case (leader_rpc r1 reset r pc')
  then show ?thesis using leader_next_cases [OF leader_rpc(4)] undisturbed_clients(4) [OF leader_rpc(4)]
    by (intro that [of r1 reset]) (auto split: if_splits)
qed

lemma serve_effects:
  assumes "pstep LS SS A P (ServeRPC cmd a) P'"
  obtains (append) req resp r b where "cmd = CmdAppendEntries req" "a = RespAppendEntries resp"
      "handleAppendEntries LS SS (node P) req = Some (r, resp, b)" "undisturbed r (node P')" "same_ballot r (node P')"
      "applying P' = applying P" "pc P' \<noteq> LeaderReady" "pc P' = InLeader \<Longrightarrow> pc P = InLeader" "phase_of (pc P') \<noteq> Idle \<Longrightarrow> state r = Candidate"
  | (other) "undisturbed (node P) (node P')" "applying P' = applying P" "pc P' = LeaderReady \<or> pc P' = InLeader \<Longrightarrow> pc P' = pc P"
      "\<And>req. cmd \<noteq> CmdAppendEntries req"
proof (rule serve_step [OF assms])
  fix r b
  assume s: "handleRPC LS SS (node P) cmd = Some (r, a, b)" "undisturbed r (node P')" "same_ballot r (node P')" "applying P' = applying P"
    "pc P' \<noteq> LeaderReady" "pc P' = InLeader \<Longrightarrow> pc P = InLeader" "phase_of (pc P') \<noteq> Idle \<Longrightarrow> state r = Candidate"
  from s(1) show thesis
  proof (cases rule: handleRPC_cases)
    case append
    then show ?thesis using s by (intro that(1))
  next
    case (vote req resp)
    then show ?thesis using s undisturbed_trans [OF undisturbed_election(4) [OF vote(2)] s(2)] by (intro other) auto
  next
    case unknown
    then show ?thesis using s by (intro other) auto
  qed
qed

lemma step_effects:
  assumes "pstep LS SS A P l P'"
  obtains (quiet) "undisturbed (node P) (node P')" "applying P' = applying P"
      "pc P' = LeaderReady \<or> pc P' = InLeader \<Longrightarrow> pc P' = pc P"
      "\<And>req resp. l \<noteq> ServeRPC (CmdAppendEntries req) resp"
  | (serve) req resp r b where "l = ServeRPC (CmdAppendEntries req) (RespAppendEntries resp)"
      "handleAppendEntries LS SS (node P) req = Some (r, resp, b)" "undisturbed r (node P')" "same_ballot r (node P')"
      "applying P' = applying P" "pc P' \<noteq> LeaderReady" "pc P' = InLeader \<Longrightarrow> pc P = InLeader" "phase_of (pc P') \<noteq> Idle \<Longrightarrow> state r = Candidate"
  | (append) r where "r = appendNoOp LS (node P) \<and> pc P = LeaderReady \<or>
        (\<exists>req reqs. r = handleApplyRequest LS req ((node P)\<lparr>applyCh := reqs\<rparr>) \<and> pc P = InLeader)"
      "undisturbed r (node P')" "same_ballot (node P) (node P')" "applying P' = applying P" "l = Internal"
      "pc P' \<noteq> LeaderReady" "phase_of (pc P') = Idle"
  | (init) "pc P = Top" "state (node P) = Leader" "P' = P\<lparr>node := initLeader LS (node P), pc := LeaderReady\<rparr>" "l = Internal"
  | (success) p entries resp where "l = ReceiveAppendReply p entries resp" "p < length (peer_heap (node P))" "Success resp"
      "aer_Term resp \<le> currentTerm (node P)"
      "P' = P\<lparr>node := advanceCommitIndex LS ((node P)\<lparr>peer_heap := (peer_heap (node P))[p := recordMatch entries (peer_heap (node P) ! p)]\<rparr>)\<rparr>"
  | (apply_start) "applying P = None" "l = Internal"
      "P' = P\<lparr>node := (node P)\<lparr>commitNotifyCh := False\<rparr>, applying := Some (lastApplied (node P) + 1, commitIndex (node P))\<rparr>"
  | (entry) idx commit r where "applying P = Some (idx, commit)" "idx \<le> commit" "applyEntry LS A idx (node P) = Some (Ret r)"
      "P' = P\<lparr>node := r, applying := Some (idx + 1, commit)\<rparr>" "l = Internal"
  | (apply_done) "P' = P\<lparr>applying := None\<rparr>" "l = Internal"
proof -
  have served: thesis if l: "l = ServeRPC cmd a" for cmd a
    by (rule serve_effects [OF assms [unfolded l]], rule serve) (simp_all add: l, intro quiet, simp_all add: l)
  from assms show thesis
  proof (cases rule: pstep.cases)
    case (leader_start r pc')
    then show ?thesis
      using leader_next_cases [OF leader_start(4)] undisturbed_clients(4) [OF leader_start(4)] appendNoOp_ballot [of "node P" LS]
      by (intro append [of "appendNoOp LS (node P)"]) (auto simp: same_ballot_def split: if_splits)
  next
    case (leader_apply req reqs r pc')
    then show ?thesis
      using leader_next_cases [OF leader_apply(5)] undisturbed_clients(4) [OF leader_apply(5)]
        handleApplyRequest_ballot [of "(node P)\<lparr>applyCh := reqs\<rparr>" LS req]
      by (intro append [of "handleApplyRequest LS req ((node P)\<lparr>applyCh := reqs\<rparr>)"]) (auto simp: same_ballot_def split: if_splits)
  next
    case (replicate_reply p entries resp)
    then show ?thesis
      using undisturbed_failure [of "node P" resp LS SS p entries] quiet success [of p entries resp]
      by (cases "currentTerm (node P) < aer_Term resp \<or> \<not> Success resp") (auto simp: not_less replicateOnce_response_def)
  next
    case (run_candidate r req targets)
    then show ?thesis using undisturbed_election(1) [OF run_candidate(5)] by (intro quiet) simp_all
  next
    case (candidate_start req r won)
    then show ?thesis using undisturbed_election(2) [OF candidate_start(4)] by (intro quiet) (simp_all add: candidate_next_def split: if_splits)
  next
    case (candidate_vote req voters v vote r votes left)
    then show ?thesis using undisturbed_election(3) [OF candidate_vote(6)] by (intro quiet) (simp_all add: candidate_next_def split: if_splits)
  next
    case (client_apply way data r future)
    then show ?thesis using undisturbed_clients(1) [OF client_apply(4)] by (intro quiet) simp_all
  next
    case run_leader
    then show ?thesis by (intro init)
  next
    case apply_start
    then show ?thesis by (intro that(6))
  next
    case (apply_entry idx commit r)
    then show ?thesis by (intro entry)
  next
    case (apply_done idx commit)
    then show ?thesis by (intro that(8))
  qed ((erule served | (rule quiet; simp add: undisturbed_clients failPendingFutures_def electionTimeout_def; simp add: undisturbed_def))+)
qed

section \<open>Serving an append request\<close>

text \<open>The request was cut from the log \<open>ys\<close> of its leader, all of it after the previous entry.\<close>

definition cut :: "LogEntry list \<Rightarrow> AppendEntriesRequest \<Rightarrow> bool" where
  "cut ys req \<longleftrightarrow>
     unat (PrevLogIndex req) \<le> length ys \<and> Entries req = drop (unat (PrevLogIndex req)) ys \<and>
     PrevLogTerm req = term_at ys (unat (PrevLogIndex req)) \<and> unat (LeaderCommit req) \<le> length ys"

text \<open>A request from beyond the end of the leader's log, which no follower can accept.\<close>

definition void :: "AppendEntriesRequest \<Rightarrow> bool" where
  "void req \<longleftrightarrow> PrevLogIndex req \<noteq> 0 \<and> PrevLogTerm req = 0"

lemma takeover_take: "takeover xs ys = (if take (length ys) xs = ys then xs else ys)"
  unfolding takeover_def by (metis append_eq_conv_conj prefix_def take_is_prefix)

lemma takeover_has: "prefix ys (takeover xs ys)"
  by (simp add: takeover_def)

lemma handleAppendEntries_keeps:
  assumes "handleAppendEntries LS SS r req = Some (r', resp, b)"
  shows "peers r' = peers r \<and> peer_heap r' = peer_heap r \<and> lastApplied r' = lastApplied r \<and> node_fsm r' = node_fsm r"
proof -
  have "node_fsm (updateCommit LS c q) = node_fsm q" for c and q :: "('a, 'b, 'c, 'd) RaftNode"
    by (simp add: updateCommit_def Let_def notifyCommit_def)
  then show ?thesis using assms
    by (auto simp: handleAppendEntries_def Let_def split: if_splits option.splits prod.splits bool.splits)
qed

context raft_stores
begin

lemma serve_refused:
  assumes rpc: "handleAppendEntries LS SS r req = Some (r', resp, b)" and xs: "repr linv lmap (logStore r) xs"
    and no: "ae_Term req < currentTerm r \<or> \<not> prev_ok xs req"
  shows "\<not> Success resp \<and> undisturbed r r'"
proof (cases "ae_Term req < currentTerm r")
  case True
  then show ?thesis using rpc by (auto simp: handleAppendEntries_def)
next
  case False
  with no have "\<not> prev_ok xs req" by simp
  from handleAppendEntries_reject [where SS = SS, OF xs False this] rpc show ?thesis
    by (auto simp: undisturbed_def)
qed

lemma void_refused:
  assumes "handleAppendEntries LS SS r req = Some (r', resp, b)" and "repr linv lmap (logStore r) xs"
    and "void req" and "\<forall>e \<in> set xs. Term e \<noteq> 0"
  shows "\<not> Success resp \<and> undisturbed r r'"
proof (rule serve_refused [OF assms(1,2)])
  have "term_at xs n \<noteq> 0" if "0 < n" "n \<le> length xs" for n
    using assms(4) that by (simp add: term_at_def)
  then have "\<not> prev_ok xs req" using assms(3) by (auto simp: prev_ok_def void_def unat_pos)
  then show "ae_Term req < currentTerm r \<or> \<not> prev_ok xs req" by simp
qed

lemma serve_accepted:
  assumes rpc: "handleAppendEntries LS SS r req = Some (r', resp, b)" and xs: "repr linv lmap (logStore r) xs"
    and ys: "cut ys req" "log_ok ys" "log_matching xs ys" and yes: "\<not> ae_Term req < currentTerm r" "prev_ok xs req"
  shows "Success resp \<and> repr linv lmap (logStore r') (takeover xs ys) \<and> commitIndex r' = max (commitIndex r) (LeaderCommit req)"
proof -
  let ?n = "unat (PrevLogIndex req)"
  have n: "?n \<le> length ys" "?n \<le> length xs" using ys(1) yes(2) by (auto simp: cut_def prev_ok_def)
  have "take ?n xs = take ?n ys"
  proof (cases ?n)
    case (Suc k)
    then have "Term (xs ! k) = Term (ys ! k)"
      using ys(1) yes(2) n by (auto simp: prev_ok_def term_at_def cut_def)
    then show ?thesis using log_matchingD [OF ys(3), of k] Suc n by simp
  qed simp
  then have m: "mergeLog ?n xs (Entries req) = takeover xs ys" "log_ok (take ?n xs @ Entries req)"
    using mergeLog_leader [OF ys(3) _ n(2,1)] ys(1,2) by (simp_all add: takeover_take cut_def)
  obtain l where l: "r' = updateCommit LS (LeaderCommit req) ((acceptLeader SS req r)\<lparr>logStore := l\<rparr>)" "Success resp"
    "repr linv lmap l (takeover xs ys)"
    using handleAppendEntries_accept [where SS = SS, OF xs yes m(2)] rpc m(1) by auto
  have "length ys \<le> length (takeover xs ys)" using takeover_has prefix_length_le by blast
  then have "LeaderCommit req \<le> last_of (takeover xs ys)"
    using l(3) ys(1) by (simp add: word_le_nat_alt cut_def repr_def)
  then show ?thesis
    using l repr_last [OF l(3)] by (auto simp: updateCommit_def Let_def max_def not_less)
qed

text \<open>The request of a leader is cut from its log, or void.\<close>

lemma request_cut:
  assumes "replicateOnce_request LS r p = Some (Some req)" and "repr linv lmap (logStore r) ys"
    and "unat (commitIndex r) \<le> length ys"
  shows "void req \<or> cut ys req"
proof -
  let ?n = "nextIndex (peer_heap r ! p)"
  have lead: "state r = Leader" using assms(1) by (simp add: replicateOnce_request_def split: if_splits)
  have ok: "log_ok ys" using assms(2) by (simp add: repr_def)
  show ?thesis
  proof (cases "?n \<noteq> 0 \<and> unat ?n \<le> Suc (length ys)")
    case True
    then obtain req' where req: "replicateOnce_request LS r p = Some (Some req')" "LeaderCommit req' = commitIndex r"
      "Suc (unat (PrevLogIndex req')) = unat ?n" "PrevLogTerm req' = term_at ys (unat (PrevLogIndex req'))"
      "Entries req' = drop (unat (PrevLogIndex req')) ys"
      using replicateOnce_request_repr [OF assms(2) lead, of p] by blast
    moreover have "unat (PrevLogIndex req') \<le> length ys" using req(3) True by simp
    ultimately show ?thesis using assms(1,3) by (simp add: cut_def)
  next
    case False
    have "?n - 1 \<noteq> 0 \<and> (\<exists>err. GetLog LS (logStore r) (?n - 1) = Inl err)"
    proof (cases "?n = 0")
      case True
      then have "unat (?n - 1) = 2 ^ 64 - 1" by (simp add: unsigned_minus_1_eq_mask mask_eq_exp_minus_1)
      then show ?thesis using True repr_get_None [OF assms(2), of "?n - 1"] ok by (auto simp: log_ok_def)
    next
      case nz: False
      then have "1 \<le> ?n" by (simp add: word_le_nat_alt unat_pos Suc_le_eq)
      then have "unat (?n - 1) = unat ?n - 1" using word_sub1 [of ?n] by linarith
      then have "length ys < unat (?n - 1)" using nz False by simp
      then show ?thesis using repr_get_None [OF assms(2), of "?n - 1"] by (auto simp: unat_pos)
    qed
    then have "void req"
      using assms(1) lead by (auto simp: replicateOnce_request_def Let_def void_def split: option.splits)
    then show ?thesis ..
  qed
qed

end

section \<open>Terms, ballots and candidacies\<close>

lemma handleRPC_term: "handleRPC LS SS r cmd = Some (r', resp, b) \<Longrightarrow> currentTerm r \<le> currentTerm r'"
proof (erule handleRPC_cases)
  fix req resp'
  assume "handleAppendEntries LS SS r req = Some (r', resp', b)"
  from handleAppendEntries_ballot [OF this] show ?thesis by (auto split: if_splits)
next
  fix req resp'
  assume "handleRequestVote LS SS r req = (r', resp', b)"
  from handleRequestVote_ballot [OF this] show ?thesis by (simp add: max_def)
qed simp

lemma term_step:
  assumes "pstep LS SS A P l P'" and "\<forall>req. l = SendVoteRequests req \<longrightarrow> currentTerm (node P) < - 1"
  shows "currentTerm (node P) \<le> currentTerm (node P')"
  using assms
proof (induction rule: pstep.induct)
  case (run_candidate P r req targets)
  then show ?case using startElection_ballot [OF run_candidate.hyps(3)] less_add1 [of "currentTerm (node P)" "- 1"] by (simp add: less_imp_le)
next
  case (follower_rpc P cmd r resp reset)
  then show ?case using handleRPC_term [OF follower_rpc.hyps(2)] by simp
next
  case (candidate_start P req r won)
  then show ?case using immediateMajority_ballot [OF candidate_start.hyps(2)] by simp
next
  case (candidate_vote P req voters v vote r votes left)
  then show ?case using receiveVote_ballot [OF candidate_vote.hyps(4)] by (auto split: if_splits)
next
  case (candidate_rpc P req voters cmd r resp reset)
  then show ?case using handleRPC_term [OF candidate_rpc.hyps(2)] by simp
next
  case (leader_start P r pc')
  then show ?case using leader_next_state [OF leader_start.hyps(2)] appendNoOp_ballot [of "node P" LS] by (auto simp: same_ballot_def)
next
  case (leader_rpc P cmd r1 resp reset r pc')
  then show ?case using leader_next_state [OF leader_rpc.hyps(3)] handleRPC_term [OF leader_rpc.hyps(2)] by (auto simp: same_ballot_def)
next
  case (leader_apply P req reqs r pc')
  then show ?case
    using leader_next_state [OF leader_apply.hyps(3)] handleApplyRequest_ballot [of "(node P)\<lparr>applyCh := reqs\<rparr>" LS req]
    by (auto simp: same_ballot_def)
next
  case (replicate_reply p P entries resp)
  then show ?case using replicateOnce_response_cases [of "node P" resp LS SS p entries]
    by (auto simp: same_ballot_def split: if_splits)
next
  case (apply_entry P idx commit r)
  then show ?case using applyEntry_ballot [OF apply_entry.hyps(3)] by (auto simp: same_ballot_def)
next
  case (client_apply P way data r future)
  then show ?case using node_Apply_ballot [OF client_apply.hyps(2)] by (auto simp: same_ballot_def)
next
  case (shutdown P)
  then show ?case
    using failAll_ballot [of "(node P)\<lparr>shutdownCh := True, state := Follower\<rparr>" ErrShutdown]
    by (auto simp: node_Shutdown_def same_ballot_def split: if_splits)
next
  case (leader_shutdown P)
  then show ?case using failPendingFutures_ballot [of "node P"] by (auto simp: same_ballot_def)
qed (simp_all add: electionTimeout_def applyExpired_def)

inductive_cases SendVote_step: "pstep LS SS A P (SendVoteRequests req) P'"
inductive_cases ServeVote_step: "pstep LS SS A P (ServeRPC (CmdRequestVote req) (RespRequestVote vote)) P'"

lemma stand_step:
  assumes "pstep LS SS A P (SendVoteRequests req) P'"
  shows "currentTerm (node P') = currentTerm (node P) + 1" "rv_Term req = currentTerm (node P) + 1"
    "CandidateID req = ServerID (config (node P))" "(LastLogIndex req, LastLogTerm req) = lastLogInfo LS (logStore (node P))"
    "state (node P') = Candidate" "logStore (node P') = logStore (node P)"
  using assms by (auto elim!: SendVote_step simp: startElection_def Let_def split: prod.splits)

lemma leader_next_keeps: "leader_next r = (r', p) \<Longrightarrow> same_ballot r r' \<and> logStore r' = logStore r"
  using leader_next_cases leader_next_log by blast

lemma grant_step:
  assumes "pstep LS SS A P (ServeRPC (CmdRequestVote req) (RespRequestVote vote)) P'" and "VoteGranted vote"
  shows "currentTerm (node P') = rv_Term req" "state (node P') = Leader \<Longrightarrow> state (node P) = Leader"
    "logStore (node P') = logStore (node P)"
    "case lastLogInfo LS (logStore (node P)) of (n, t) \<Rightarrow> t < LastLogTerm req \<or> t = LastLogTerm req \<and> n \<le> LastLogIndex req"
proof -
  obtain r resp b where r: "handleRequestVote LS SS (node P) req = (r, vote, b)" "same_ballot r (node P')" "logStore (node P') = logStore r"
    using assms(1) by (auto elim!: ServeVote_step simp: handleRPC_def split: prod.splits dest!: leader_next_keeps)
  note v = handleRequestVote_ballot [OF r(1)]
  show "currentTerm (node P') = rv_Term req" "state (node P') = Leader \<Longrightarrow> state (node P) = Leader"
    using v r(2) assms(2) by (auto simp: same_ballot_def split: if_splits)
  show "logStore (node P') = logStore (node P)"
    using undisturbed_election(4) [OF r(1)] r(3) by (simp add: undisturbed_def)
  show "case lastLogInfo LS (logStore (node P)) of (n, t) \<Rightarrow> t < LastLogTerm req \<or> t = LastLogTerm req \<and> n \<le> LastLogIndex req"
    using handleRequestVote_granted [of LS SS "node P" req] r(1) assms(2) by (simp add: Let_def)
qed

text \<open>Every ballot that a step casts is of the term in which the step ends, and the step does not win it.\<close>

lemma cast_step:
  assumes "pstep LS SS A P l P'" and "(t, v, c) \<in> cast i l"
  shows "v = i" "t = currentTerm (node P')" "logStore (node P') = logStore (node P)"
    "state (node P') = Leader \<Longrightarrow> state (node P) = Leader"
proof -
  consider (stand) req where "l = SendVoteRequests req" "t = rv_Term req" "v = i"
    | (vote) req vote where "l = ServeRPC (CmdRequestVote req) (RespRequestVote vote)" "VoteGranted vote" "t = rv_Term req" "v = i"
    using assms(2) by (auto simp: cast_def split: label.splits Command.splits RPCResponse.splits if_splits)
  then have "v = i \<and> t = currentTerm (node P') \<and> logStore (node P') = logStore (node P) \<and>
      (state (node P') = Leader \<longrightarrow> state (node P) = Leader)"
  proof cases
    case stand
    then show ?thesis using stand_step [OF assms(1) [unfolded stand(1)]] by simp
  next
    case vote
    then show ?thesis using grant_step [OF assms(1) [unfolded vote(1)] vote(2)] by auto
  qed
  then show "v = i" "t = currentTerm (node P')" "logStore (node P') = logStore (node P)"
    "state (node P') = Leader \<Longrightarrow> state (node P) = Leader" by auto
qed

end
