(* ===== verification/Raft_History.thy ===== *)
theory Raft_History
  imports Raft_Effects
begin

text \<open>
  The runs for which commitment is safe, and the invariant behind it. The runs are those of theory
  \<open>Raft_Matching\<close>, in which moreover the replies that a replicator receives are those that its peer gave
  to its own requests, and no node that has lost its leadership counts a successful reply (\<open>honest\<close>).
  The invariant relates the cluster to a history of theory \<open>Commit_Spec\<close>. Here every step of a node is
  shown to be a step of the history, and to keep what the invariant says of messages and of the
  other nodes.
\<close>

section \<open>The connections between replicators and peers\<close>

text \<open>The requests of a node that wait for a reply, by the address of the peer's state, and the replies ever given.\<close>

record Wire =
  inFlight :: "string \<Rightarrow> (nat \<times> AppendEntriesRequest) set"
  answered :: "(string \<times> AppendEntriesRequest \<times> AppendEntriesResponse) set"

definition silent :: Wire where
  "silent = \<lparr>inFlight = \<lambda>i. {}, answered = {}\<rparr>"

definition transmit :: "string \<Rightarrow> label option \<Rightarrow> Wire \<Rightarrow> Wire" where
  "transmit i l w =
     (case l of
        None \<Rightarrow> w\<lparr>inFlight := (inFlight w)(i := {})\<rparr>
      | Some (SendAppend p req) \<Rightarrow> w\<lparr>inFlight := (inFlight w)(i := insert (p, req) (inFlight w i))\<rparr>
      | Some (ServeRPC cmd resp) \<Rightarrow>
          (case (cmd, resp) of
             (CmdAppendEntries req, RespAppendEntries a) \<Rightarrow> w\<lparr>answered := insert (i, req, a) (answered w)\<rparr>
           | _ \<Rightarrow> w)
      | _ \<Rightarrow> w)"

definition honest :: "('l, 's, 'f, 'r) Cluster \<Rightarrow> Wire \<Rightarrow> string \<Rightarrow> label option \<Rightarrow> bool" where
  "honest C w i l =
     (case l of
        Some (ReceiveAppendReply p entries resp) \<Rightarrow>
          (\<exists>req. (p, req) \<in> inFlight w i \<and> Entries req = entries \<and>
             (ps_id (peer_heap (node (procs C i)) ! p), req, resp) \<in> answered w) \<and>
          (Success resp \<longrightarrow> state (node (procs C i)) = Leader)
      | _ \<Rightarrow> True)"

text \<open>A node that starts again begins with the initial state machine \<open>f\<close>.\<close>

inductive safe_run :: "'l LogStore \<Rightarrow> 's StableStore \<Rightarrow> ('f, 'r) FSM \<Rightarrow> string set \<Rightarrow> 'f \<Rightarrow>
    ('l, 's, 'f, 'r) Cluster \<Rightarrow> Wire \<Rightarrow> ('l, 's, 'f, 'r) Cluster \<Rightarrow> Wire \<Rightarrow> bool"
  for LS SS A ids f C w where
  here: "safe_run LS SS A ids f C w C w"
| step: "safe_run LS SS A ids f C w D u \<Longrightarrow> cstep LS SS A ids D i l E \<Longrightarrow> fresh D i l \<Longrightarrow> steady LS ids D i E \<Longrightarrow>
    honest D u i l \<Longrightarrow> (l = None \<longrightarrow> node_fsm (node (procs E i)) = f) \<Longrightarrow>
    safe_run LS SS A ids f C w E (transmit i l u)"

section \<open>The invariant\<close>

text \<open>Node \<open>j\<close> has held all of the first \<open>n\<close> entries of \<open>xs\<close>, as far as they end in term \<open>t\<close>.\<close>

definition reached :: "history \<Rightarrow> string \<Rightarrow> u64 \<Rightarrow> LogEntry list \<Rightarrow> nat \<Rightarrow> bool" where
  "reached s j t xs n \<longleftrightarrow>
     (\<forall>p. prefix p xs \<longrightarrow> p \<noteq> [] \<longrightarrow> Term (last p) = t \<longrightarrow> length p \<le> n \<longrightarrow> (j, p) \<in> h_held s)"

text \<open>The leader's knowledge of its peers is right, and the requests in flight are of this leadership.\<close>

definition tracked :: "string set \<Rightarrow> history \<Rightarrow> string \<Rightarrow> ('l, 's, 'f, 'r) RaftNode \<Rightarrow>
    (nat \<times> AppendEntriesRequest) set \<Rightarrow> bool" where
  "tracked ids s i r F \<longleftrightarrow>
     distinct (map fst (peers r)) \<and> fst ` set (peers r) = ids - {i} \<and>
     (\<forall>j a. (j, a) \<in> set (peers r) \<longrightarrow>
        (\<exists>m. a < length (peer_heap r) \<and> map peer_view (peer_heap r) ! a = (j, m) \<and> unat m \<le> length (h_log s i) \<and>
           reached s j (h_term s i) (h_log s i) (unat m))) \<and>
     (\<forall>a req. (a, req) \<in> F \<longrightarrow> a \<in> snd ` set (peers r) \<longrightarrow> ae_Term req = h_term s i)"

definition leader_inv :: "string set \<Rightarrow> history \<Rightarrow> string \<Rightarrow> ('l, 's, 'f, 'r) Process \<Rightarrow>
    (nat \<times> AppendEntriesRequest) set \<Rightarrow> bool" where
  "leader_inv ids s i P F \<longleftrightarrow>
     (state (node P) = Leader \<longrightarrow> h_log s i = h_lead s (h_term s i) \<and>
        (tracked ids s i (node P) F \<or>
         pc P \<noteq> LeaderReady \<and> pc P \<noteq> InLeader \<and> (\<forall>e \<in> set (h_log s i). Term e \<noteq> h_term s i)))"

definition commit_inv :: "string set \<Rightarrow> history \<Rightarrow> string \<Rightarrow> ('l, 's, 'f, 'r) RaftNode \<Rightarrow> bool" where
  "commit_inv ids s i r \<longleftrightarrow>
     unat (commitIndex r) \<le> length (h_log s i) \<and>
     settled ids s (h_term s i) (take (unat (commitIndex r)) (h_log s i))"

definition fsm_inv :: "('f, 'r) FSM \<Rightarrow> 'f \<Rightarrow> history \<Rightarrow> string \<Rightarrow> ('l, 's, 'f, 'r) Process \<Rightarrow> bool" where
  "fsm_inv A f s i P \<longleftrightarrow>
     applied A f (h_log s i) (node P) \<and> lastApplied (node P) \<le> commitIndex (node P) \<and>
     (case applying P of
        None \<Rightarrow> True
      | Some (idx, commit) \<Rightarrow>
          unat idx = Suc (unat (lastApplied (node P))) \<and> commit \<le> commitIndex (node P))"

definition proc_inv :: "('f, 'r) FSM \<Rightarrow> string set \<Rightarrow> 'f \<Rightarrow> history \<Rightarrow> string \<Rightarrow> ('l, 's, 'f, 'r) Process \<Rightarrow>
    (nat \<times> AppendEntriesRequest) set \<Rightarrow> bool" where
  "proc_inv A ids f s i P F \<longleftrightarrow>
     leader_inv ids s i P F \<and> commit_inv ids s i (node P) \<and> fsm_inv A f s i P \<and>
     (phase_of (pc P) \<noteq> Idle \<longrightarrow> h_log s i = h_stood s (h_term s i) i) \<and>
     (\<forall>a req. (a, req) \<in> F \<longrightarrow> a < length (peer_heap (node P)))"

text \<open>The messages.\<close>

definition stood_ok :: "history \<Rightarrow> bool" where
  "stood_ok s \<longleftrightarrow>
     (\<forall>t v c. (t, v, c) \<in> h_ballots s \<longrightarrow>
        t \<noteq> 0 \<and> (t, c, c) \<in> h_ballots s \<and> genuine s (h_stood s t c) \<and> (\<forall>e \<in> set (h_stood s t c). Term e < t))"

definition last_term :: "LogEntry list \<Rightarrow> u64" where
  "last_term xs = (if xs = [] then 0 else Term (last xs))"

definition vote_ok :: "history \<Rightarrow> RequestVoteRequest \<Rightarrow> bool" where
  "vote_ok s req \<longleftrightarrow>
     (rv_Term req, CandidateID req, CandidateID req) \<in> h_ballots s \<and>
     LastLogIndex req = last_of (h_stood s (rv_Term req) (CandidateID req)) \<and>
     LastLogTerm req = last_term (h_stood s (rv_Term req) (CandidateID req))"

definition request_ok :: "string set \<Rightarrow> history \<Rightarrow> AppendEntriesRequest \<Rightarrow> bool" where
  "request_ok ids s req \<longleftrightarrow>
     void req \<or>
     (\<exists>ys. snapshot s (ae_Term req) ys \<and> cut ys req \<and> settled ids s (ae_Term req) (take (unat (LeaderCommit req)) ys))"

definition answer_ok :: "history \<Rightarrow> string \<Rightarrow> AppendEntriesRequest \<Rightarrow> AppendEntriesResponse \<Rightarrow> bool" where
  "answer_ok s j req resp \<longleftrightarrow>
     (Success resp \<longrightarrow>
        (let n = unat (PrevLogIndex req) + length (Entries req) in
         won s (ae_Term req) \<and> n \<le> length (h_lead s (ae_Term req)) \<and>
         (Entries req \<noteq> [] \<longrightarrow> unat (Index (last (Entries req))) = n) \<and>
         reached s j (ae_Term req) (h_lead s (ae_Term req)) n))"

definition net_inv :: "string set \<Rightarrow> history \<Rightarrow> ('l, 's, 'f, 'r) Cluster \<Rightarrow> Wire \<Rightarrow> bool" where
  "net_inv ids s C w \<longleftrightarrow>
     (\<forall>req \<in> sentVotes C. vote_ok s req) \<and> (\<forall>req \<in> sentAppends C. request_ok ids s req) \<and>
     (\<forall>(j, req, resp) \<in> answered w. answer_ok s j req resp)"

section \<open>What a growing history keeps\<close>

lemma reached_grows: "reached s j t xs n \<Longrightarrow> h_held s \<subseteq> h_held s' \<Longrightarrow> reached s' j t xs n"
  unfolding reached_def by blast

text \<open>What has been reached of a log has been reached of its extensions.\<close>

lemma reached_extends:
  assumes "reached s j t xs n" and "n \<le> length xs"
  shows "reached s j t (xs @ es) n"
  unfolding reached_def
proof (intro allI impI)
  fix p assume p: "prefix p (xs @ es)" "p \<noteq> []" "Term (last p) = t" "length p \<le> n"
  then have "prefix p xs" using assms(2) prefix_length_prefix [of p "xs @ es" xs] by auto
  then show "(j, p) \<in> h_held s" using assms(1) p unfolding reached_def by blast
qed

lemma tracked_grows:
  assumes "tracked ids s i r F" and "peers r' = peers r" "map peer_view (peer_heap r') = map peer_view (peer_heap r)"
    and "h_held s \<subseteq> h_held s'" and "h_term s' i = h_term s i" and "h_log s' i = h_log s i @ es"
    and "\<And>a req. (a, req) \<in> F' \<Longrightarrow> (a, req) \<in> F \<or> ae_Term req = h_term s i"
  shows "tracked ids s' i r' F'"
proof -
  have "length (peer_heap r') = length (peer_heap r)" using assms(3) by (rule map_eq_imp_length_eq)
  moreover have "reached s' j (h_term s i) (h_log s i @ es) n"
    if "reached s j (h_term s i) (h_log s i) n" "n \<le> length (h_log s i)" for j n
    using reached_extends reached_grows [OF _ assms(4)] that by blast
  ultimately show ?thesis
    using assms(1-3,5-7) unfolding tracked_def by (simp only: length_append) (meson trans_le_add1)
qed

lemma answer_grows:
  assumes "grows s s'" and "h_held s \<subseteq> h_held s'" and "answer_ok s j req resp"
  shows "answer_ok s' j req resp"
proof (cases "Success resp")
  case True
  let ?t = "ae_Term req" and ?n = "unat (PrevLogIndex req) + length (Entries req)"
  have a: "won s ?t" "?n \<le> length (h_lead s ?t)" "Entries req \<noteq> [] \<longrightarrow> unat (Index (last (Entries req))) = ?n"
    "reached s j ?t (h_lead s ?t) ?n"
    using assms(3) True by (simp_all add: answer_ok_def Let_def)
  obtain es where "h_lead s' ?t = h_lead s ?t @ es" using assms(1) a(1) unfolding grows_def by blast
  then show ?thesis
    using a grows_won [OF assms(1) a(1)] reached_extends [OF reached_grows [OF a(4) assms(2)] a(2)]
    by (simp add: answer_ok_def Let_def)
qed (simp add: answer_ok_def)

lemma request_grows:
  assumes "grows s s'" and "h_held s \<subseteq> h_held s'" and "request_ok ids s req"
  shows "request_ok ids s' req"
  using assms(3) snapshot_grows [OF assms(1)] settled_grows [OF assms(2) order.refl] unfolding request_ok_def by blast

section \<open>The history of a step\<close>

text \<open>Node \<open>i\<close> takes the step \<open>l\<close> to \<open>P\<close> and then has the log \<open>zs\<close>.\<close>

definition advance :: "string \<Rightarrow> label \<Rightarrow> ('l, 's, 'f, 'r) Process \<Rightarrow> LogEntry list \<Rightarrow>
    (u64 \<times> string \<times> string) set \<Rightarrow> (u64 \<times> string \<times> string set) set \<Rightarrow> history \<Rightarrow> history" where
  "advance i l P zs B W s =
     s\<lparr>h_term := (h_term s)(i := currentTerm (node P)), h_log := (h_log s)(i := zs), h_ballots := B, h_won := W,
       h_lead := (if state (node P) = Leader then (h_lead s)(currentTerm (node P) := zs) else h_lead s),
       h_stood := (case l of SendVoteRequests req \<Rightarrow> (h_stood s)(rv_Term req := (h_stood s (rv_Term req))(i := zs)) | _ \<Rightarrow> h_stood s),
       h_held := h_held s \<union> noted i (currentTerm (node P)) zs\<rparr>"

lemma advance_fields [simp]:
  "h_term (advance i l P zs B W s) = (h_term s)(i := currentTerm (node P))"
  "h_log (advance i l P zs B W s) = (h_log s)(i := zs)" "h_ballots (advance i l P zs B W s) = B" "h_won (advance i l P zs B W s) = W"
  "h_lead (advance i l P zs B W s) = (if state (node P) = Leader then (h_lead s)(currentTerm (node P) := zs) else h_lead s)"
  "h_held (advance i l P zs B W s) = h_held s \<union> noted i (currentTerm (node P)) zs"
  by (simp_all add: advance_def)

text \<open>The log stays, or it is taken over from the leader of the term, or the leader has appended an entry.\<close>

definition log_change :: "history \<Rightarrow> string \<Rightarrow> ('l, 's, 'f, 'r) Process \<Rightarrow> ('l, 's, 'f, 'r) Process \<Rightarrow> LogEntry list \<Rightarrow> bool" where
  "log_change s i P P' zs \<longleftrightarrow>
     zs = h_log s i \<or>
     (\<exists>ys. snapshot s (currentTerm (node P')) ys \<and> zs = takeover (h_log s i) ys \<and> state (node P') \<noteq> Leader) \<or>
     (\<exists>e. zs = h_log s i @ [e] \<and> Term e = currentTerm (node P) \<and> log_ok zs \<and> state (node P) = Leader \<and> same_ballot (node P) (node P'))"

definition related :: "'s StableStore \<Rightarrow> ('s \<Rightarrow> bool) \<Rightarrow> ('l \<Rightarrow> LogEntry list \<Rightarrow> bool) \<Rightarrow> ('f, 'r) FSM \<Rightarrow> string set \<Rightarrow> 'f \<Rightarrow>
    ('l, 's, 'f, 'r) Cluster \<Rightarrow> Wire \<Rightarrow> history \<Rightarrow> bool" where
  "related SS sinv rep A ids f C w s \<longleftrightarrow>
     cinv SS sinv ids C \<and> einv ids (view C (h_ballots s) (h_won s)) \<and> known C (view C (h_ballots s) (h_won s)) \<and>
     h_term s = (\<lambda>i. currentTerm (node (procs C i))) \<and> hinv ids s \<and> stood_ok s \<and> net_inv ids s C w \<and>
     (\<forall>i \<in> ids. rep (logStore (node (procs C i))) (h_log s i) \<and> proc_inv A ids f s i (procs C i) (inFlight w i))"

lemma einv_elected: "einv ids (view C B W) \<Longrightarrow> h_term s = (\<lambda>i. currentTerm (node (procs C i))) \<Longrightarrow> h_ballots s = B \<Longrightarrow> h_won s = W \<Longrightarrow>
    elected ids s"
  unfolding elected_def einv_def winners_ok_def ballots_ok_def view_fields by metis

lemma einv_leader: "einv ids (view C B W) \<Longrightarrow> state (node (procs C i)) = Leader \<Longrightarrow> \<exists>Q. (currentTerm (node (procs C i)), i, Q) \<in> W"
  unfolding einv_def leader_ok_def view_fields by blast

lemma einv_running:
  assumes "einv ids (view C B W)" and "phase_of (pc (procs C i)) \<noteq> Idle"
  shows "(currentTerm (node (procs C i)), i, i) \<in> B" "(currentTerm (node (procs C i)), i, Q) \<notin> W"
proof -
  obtain vs where "phase_of (pc (procs C i)) = Running vs" using assms(2) by (cases "phase_of (pc (procs C i))") auto
  then show "(currentTerm (node (procs C i)), i, i) \<in> B" "(currentTerm (node (procs C i)), i, Q) \<notin> W"
    using assms(1) unfolding einv_def running_ok_def view_fields by blast+
qed

text \<open>A step of node \<open>i\<close> to \<open>P\<close>, with its log, and the ballots and winners after it.\<close>

definition acting :: "'l LogStore \<Rightarrow> 's StableStore \<Rightarrow> ('s \<Rightarrow> bool) \<Rightarrow> ('l \<Rightarrow> LogEntry list \<Rightarrow> bool) \<Rightarrow> ('f, 'r) FSM \<Rightarrow> string set \<Rightarrow> 'f \<Rightarrow>
    ('l, 's, 'f, 'r) Cluster \<Rightarrow> Wire \<Rightarrow> history \<Rightarrow> string \<Rightarrow> label \<Rightarrow> ('l, 's, 'f, 'r) Process \<Rightarrow> LogEntry list \<Rightarrow>
    (u64 \<times> string \<times> string) set \<Rightarrow> (u64 \<times> string \<times> string set) set \<Rightarrow> ('l, 's, 'f, 'r) Cluster \<Rightarrow> bool" where
  "acting LS SS sinv rep A ids f C w s i l P zs B W D \<longleftrightarrow>
     related SS sinv rep A ids f C w s \<and> i \<in> ids \<and> pstep LS SS A (procs C i) l P \<and> admissible C i l \<and>
     fresh C i (Some l) \<and> D = publish i l (C\<lparr>procs := (procs C)(i := P)\<rparr>) \<and>
     einv ids (view D B W) \<and> h_ballots s \<subseteq> B \<and> B \<subseteq> h_ballots s \<union> cast i l \<and>
     h_won s \<subseteq> W \<and> W \<subseteq> h_won s \<union> gained (view C (h_ballots s) (h_won s)) i P \<and>
     log_change s i (procs C i) P zs \<and> rep (logStore (node P)) zs"

lemma actingD:
  assumes "acting LS SS sinv rep A ids f C w s i l P zs B W D"
  shows "related SS sinv rep A ids f C w s" "i \<in> ids" "pstep LS SS A (procs C i) l P" "admissible C i l"
    "fresh C i (Some l)" "D = publish i l (C\<lparr>procs := (procs C)(i := P)\<rparr>)"
    "einv ids (view D B W)" "h_ballots s \<subseteq> B" "B \<subseteq> h_ballots s \<union> cast i l"
    "h_won s \<subseteq> W" "W \<subseteq> h_won s \<union> gained (view C (h_ballots s) (h_won s)) i P"
    "log_change s i (procs C i) P zs" "rep (logStore (node P)) zs"
  using assms unfolding acting_def by blast+

lemma acting_facts:
  assumes "acting LS SS sinv rep A ids f C w s i l P zs B W D"
  shows "cinv SS sinv ids C" "einv ids (view C (h_ballots s) (h_won s))" "h_term s = (\<lambda>i. currentTerm (node (procs C i)))"
    "hinv ids s" "stood_ok s" "net_inv ids s C w" "proc_inv A ids f s i (procs C i) (inFlight w i)"
    "rep (logStore (node (procs C i))) (h_log s i)" "finite ids" "h_term s i \<le> currentTerm (node P)"
    "procs D = (procs C)(i := P)"
proof -
  note act = actingD [OF assms]
  then show c: "cinv SS sinv ids C" and "einv ids (view C (h_ballots s) (h_won s))"
    and t: "h_term s = (\<lambda>i. currentTerm (node (procs C i)))" and "hinv ids s" "stood_ok s" "net_inv ids s C w"
    "proc_inv A ids f s i (procs C i) (inFlight w i)" "rep (logStore (node (procs C i))) (h_log s i)"
    unfolding related_def by blast+
  show "finite ids" using c act(2) member_finite unfolding cinv_def by blast
  show "h_term s i \<le> currentTerm (node P)" using term_step [OF act(3)] act(5) t by (simp add: fresh_def split: label.splits)
  show "procs D = (procs C)(i := P)" by (simp add: act(6))
qed

text \<open>The three cases: it leads as before, it has just won, or it does not lead.\<close>

lemma acting_leader:
  assumes "acting LS SS sinv rep A ids f C w s i l P zs B W D" and lead: "state (node P) = Leader" "state (node (procs C i)) = Leader"
  shows "currentTerm (node P) = h_term s i" "h_lead s (h_term s i) = h_log s i" "won s (h_term s i)" "W = h_won s"
proof -
  note act = actingD [OF assms(1)] and f = acting_facts [OF assms(1)]
  show "currentTerm (node P) = h_term s i" using role_step [OF act(3) lead(1)] f(3) by simp
  show "h_lead s (h_term s i) = h_log s i" using f(7) lead(2) by (simp add: proc_inv_def leader_inv_def)
  show "won s (h_term s i)" using einv_leader [OF f(2) lead(2)] f(3) unfolding won_def by auto
  show "W = h_won s" using act(10,11) lead(2) by (auto simp: gained_def)
qed

lemma acting_wins:
  assumes "acting LS SS sinv rep A ids f C w s i l P zs B W D" and lead: "state (node P) = Leader" "state (node (procs C i)) \<noteq> Leader"
  shows "currentTerm (node P) = h_term s i" "h_log s i = h_stood s (h_term s i) i" "\<not> won s (h_term s i)" "zs = h_log s i"
    "B = h_ballots s" "(h_term s i, i, i) \<in> h_ballots s" "phase_of (pc (procs C i)) \<noteq> Idle"
    "\<And>t L Q. (t, L, Q) \<in> W \<Longrightarrow> (t, L, Q) \<in> h_won s \<or> t = h_term s i \<and> L = i"
proof -
  note act = actingD [OF assms(1)] and f = acting_facts [OF assms(1)]
  have ph: "phase_of (pc (procs C i)) \<noteq> Idle" and t: "currentTerm (node P) = h_term s i"
    using role_step [OF act(3) lead(1)] f(3) lead(2) by auto
  have run: "(h_term s i, i, i) \<in> h_ballots s" "\<And>Q. (h_term s i, i, Q) \<notin> h_won s"
    using einv_running [OF f(2) ph] f(3) by auto
  show "currentTerm (node P) = h_term s i" "phase_of (pc (procs C i)) \<noteq> Idle" "(h_term s i, i, i) \<in> h_ballots s" by fact+
  show "h_log s i = h_stood s (h_term s i) i" using f(7) ph by (simp add: proc_inv_def)
  show new: "\<And>t L Q. (t, L, Q) \<in> W \<Longrightarrow> (t, L, Q) \<in> h_won s \<or> t = h_term s i \<and> L = i" using act(11) t by (auto simp: gained_def)
  obtain Q where "(h_term s i, i, Q) \<in> W"
    using einv_leader [OF act(7), of i] lead(1) t f(11) by auto
  then show "\<not> won s (h_term s i)"
    using winner_unique [OF f(9) act(7), of "h_term s i" i Q] run(2) act(10) unfolding won_def view_fields by blast
  show "zs = h_log s i" using act(12) lead by (auto simp: log_change_def)
  have "cast i l = {}" using cast_step(4) [OF act(3) _ lead(1)] lead(2) by (metis ex_in_conv prod_cases3)
  then show "B = h_ballots s" using act(8,9) by auto
qed

lemma acting_follows:
  assumes "acting LS SS sinv rep A ids f C w s i l P zs B W D" and "state (node P) \<noteq> Leader"
  shows "W = h_won s"
  using actingD(10,11) [OF assms(1)] assms(2) by (auto simp: gained_def)

lemma acting_grows:
  assumes a: "acting LS SS sinv rep A ids f C w s i l P zs B W D"
  shows "grows s (advance i l P zs B W s)"
proof -
  note sub = actingD(10) [OF a]
  show ?thesis
  proof (cases "state (node P) = Leader \<and> won s (currentTerm (node P))")
    case True
    then have lead: "state (node (procs C i)) = Leader" using acting_wins(1,3) [OF a] by metis
    note l = acting_leader [OF a _ lead]
    obtain es where "zs = h_log s i @ es" "\<forall>e \<in> set es. Term e = h_term s i"
      using True acting_facts(3) [OF a] actingD(12) [OF a] by (auto simp: log_change_def)
    then show ?thesis using sub True l by (auto simp: grows_def)
  next
    case False
    then show ?thesis using sub by (auto simp: grows_def)
  qed
qed

text \<open>The log after the step.\<close>

lemma acting_log:
  assumes a: "acting LS SS sinv rep A ids f C w s i l P zs B W D" and ok: "\<And>l xs. rep l xs \<Longrightarrow> log_ok xs"
  shows "genuine (advance i l P zs B W s) zs" "bounded (currentTerm (node P)) zs"
    "\<And>p. (i, p) \<in> h_held s \<Longrightarrow> kept (advance i l P zs B W s) {..currentTerm (node P)} p zs"
proof -
  let ?s = "advance i l P zs B W s" and ?t = "currentTerm (node P)"
  note f = acting_facts [OF a] and g = acting_grows [OF a]
  have xs: "genuine s (h_log s i)" "bounded (h_term s i) (h_log s i)" using f(4) actingD(2) [OF a] by (auto simp: hinv_def logs_ok_def)
  have held: "kept s {..h_term s i} p (h_log s i)" if "(i, p) \<in> h_held s" for p
    using f(4) that unfolding hinv_def held_ok_def by blast
  have same: "kept ?s {..?t} p (h_log s i)" if "(i, p) \<in> h_held s" for p
    using grows_kept [OF g held [OF that]] f(10) by auto
  consider (same) "zs = h_log s i"
    | (taken) ys where "snapshot s ?t ys" "zs = takeover (h_log s i) ys"
    | (append) e where "zs = h_log s i @ [e]" "Term e = h_term s i" "log_ok zs" "state (node (procs C i)) = Leader"
        "same_ballot (node (procs C i)) (node P)"
    using actingD(12) [OF a] f(3) by (auto simp: log_change_def)
  then have "genuine ?s zs \<and> bounded ?t zs \<and> (\<forall>p. (i, p) \<in> h_held s \<longrightarrow> kept ?s {..?t} p zs)"
  proof cases
    case same
    then show ?thesis using xs f(10) \<open>\<And>p. (i, p) \<in> h_held s \<Longrightarrow> kept ?s {..?t} p (h_log s i)\<close> grows_genuine [OF g]
      by (auto simp: bounded_def intro: order.trans)
  next
    case taken
    have "genuine s (h_lead s ?t)" "bounded ?t (h_lead s ?t)" "prefix ys (h_lead s ?t)"
      using f(4) taken(1) by (auto simp: hinv_def lead_ok_def snapshot_def)
    then have "genuine s ys" "bounded ?t ys" using genuine_prefix by (auto simp: bounded_def dest: set_mono_prefix)
    then have "genuine s zs" "bounded ?t zs" using taken(2) xs f(10) by (auto simp: takeover_def bounded_def intro: order.trans)
    moreover have "kept ?s {..?t} p zs" if "(i, p) \<in> h_held s" for p
      using grows_kept [OF g takeover_keeps [OF f(4) that taken(1) f(10)] order.refl] taken(2) by simp
    ultimately show ?thesis using grows_genuine [OF g] by blast
  next
    case append
    have lead: "state (node P) = Leader" "?t = h_term s i" using append(4,5) f(3) by (auto simp: same_ballot_def)
    have w: "won ?s ?t" using acting_leader(3) [OF a lead(1) append(4)] grows_won [OF g] lead(2) by simp
    have gs: "genuine ?s (h_log s i)" using grows_genuine [OF g xs(1)] .
    have "sorted (map Term zs)" using append(1,2) xs by (simp add: sorted_append genuine_def bounded_def)
    moreover have "won ?s (Term (zs ! k)) \<and> prefix (take (Suc k) zs) (h_lead ?s (Term (zs ! k)))" if k: "k < length zs" for k
    proof (cases "k < length (h_log s i)")
      case True
      then show ?thesis using gs append(1) by (auto simp: genuine_def nth_append)
    next
      case False
      then have "k = length (h_log s i)" using k append(1) by simp
      then show ?thesis using w lead append(1,2) by (simp add: nth_append)
    qed
    ultimately have "genuine ?s zs" using append(3) by (simp add: genuine_def)
    moreover have "bounded ?t zs" using xs(2) append(1,2) lead(2) by (auto simp: bounded_def)
    moreover have "kept ?s {..?t} p zs" if "(i, p) \<in> h_held s" for p
      using same [OF that] append(1) by (auto simp: kept_def)
    ultimately show ?thesis by blast
  qed
  then show "genuine ?s zs" "bounded ?t zs" "\<And>p. (i, p) \<in> h_held s \<Longrightarrow> kept ?s {..?t} p zs" by blast+
qed

lemma advance_stood:
  assumes "pstep LS SS A (procs C i) l P"
  shows "h_stood (advance i l P zs B W s) t c = (if (\<exists>req. l = SendVoteRequests req) \<and> t = currentTerm (node P) \<and> c = i then zs else h_stood s t c)"
  using stand_step [of LS SS A "procs C i" _ P] assms by (auto simp: advance_def split: label.splits)

text \<open>The logs behind old ballots stay as they were.\<close>

lemma acting_stood:
  assumes a: "acting LS SS sinv rep A ids f C w s i l P zs B W D" and b: "(t, v, c) \<in> h_ballots s"
  shows "h_stood (advance i l P zs B W s) t c = h_stood s t c"
proof (cases "(\<exists>req. l = SendVoteRequests req) \<and> t = currentTerm (node P) \<and> c = i")
  case True
  note f = acting_facts [OF a] and act = actingD [OF a]
  obtain req where req: "l = SendVoteRequests req" "t = currentTerm (node P)" "c = i" using True by blast
  have "h_term s i < t"
    using stand_step(1) [OF act(3) [unfolded req(1)]] act(5) req f(3) less_add1 [of "h_term s i" "- 1"] by (simp add: fresh_def)
  moreover have "(t, i, i) \<in> h_ballots s" using f(5) b req(3) unfolding stood_ok_def by blast
  then have "t \<le> h_term s i" using f(4) unfolding hinv_def elected_def by blast
  ultimately show ?thesis by simp
next
  case False
  then show ?thesis using advance_stood [OF actingD(3) [OF a]] by (simp only: if_False)
qed

context raft_stores
begin

text \<open>A ballot is cast only for a candidate that has what the voter has held, or what an earlier leader has lost.\<close>

lemma acting_vote:
  assumes a: "acting LS SS sinv (repr linv lmap) A ids f C w s i l P zs B W D"
    and b: "(t, v, c) \<in> B - h_ballots s" and p: "(i, p) \<in> h_held s" "Term (last p) < t"
  shows "kept (advance i l P zs B W s) {..t} p (h_stood (advance i l P zs B W s) t c)"
proof -
  let ?s = "advance i l P zs B W s"
  note f = acting_facts [OF a] and act = actingD [OF a] and g = acting_grows [OF a]
  have cst: "(t, v, c) \<in> cast i l" using act(9) b by auto
  note cs = cast_step [OF act(3) cst]
  have held: "p \<noteq> []" "kept s {..h_term s i} p (h_log s i)" using f(4) p(1) unfolding hinv_def held_ok_def by blast+
  have old: "kept ?s {..t} p (h_log s i)" using grows_kept [OF g held(2)] f(10) cs(2) by auto
  show ?thesis
  proof (cases "\<exists>req. l = SendVoteRequests req")
    case True
    then have "c = i" using cst by (auto simp: cast_def)
    moreover have "kept ?s {..t} p zs" using acting_log(3) [OF a _ p(1)] cs(2) by (simp add: repr_def)
    ultimately show ?thesis using True cs(2) by (simp add: advance_stood [OF act(3)])
  next
    case False
    then obtain req vote where req: "l = ServeRPC (CmdRequestVote req) (RespRequestVote vote)" "VoteGranted vote" "t = rv_Term req" "c = CandidateID req"
      using cst by (auto simp: cast_def split: label.splits Command.splits RPCResponse.splits if_splits)
    let ?c = "h_stood s t c"
    have v: "vote_ok s req" using act(4) f(6) req(1) by (auto simp: admissible_def net_inv_def)
    then have c: "genuine s ?c" "\<forall>e \<in> set ?c. Term e < t" using f(5) req(3,4) unfolding stood_ok_def vote_ok_def by metis+
    have "lastLogInfo LS (logStore (node (procs C i))) = (last_of (h_log s i), last_term (h_log s i))"
      using lastLogInfo_repr [OF f(8)] by (simp add: last_term_def)
    then have up: "last_term (h_log s i) < last_term ?c \<or> last_term (h_log s i) = last_term ?c \<and> last_of (h_log s i) \<le> last_of ?c"
      using grant_step(4) [OF act(3) [unfolded req(1)] req(2)] v req(3,4) by (simp add: vote_ok_def)
    have "kept s {..t} p ?c" if pre: "prefix p (h_log s i)"
    proof -
      have xs: "genuine s (h_log s i)" "log_ok (h_log s i)" "h_log s i \<noteq> []"
        using f(4,8) act(2) pre held(1) by (auto simp: hinv_def logs_ok_def repr_def)
      have ok: "log_ok ?c" using c(1) by (simp add: genuine_def)
      have "?c \<noteq> []"
      proof
        assume "?c = []"
        then have "last_of (h_log s i) \<le> 0" using up by (auto simp: last_term_def last_of_def)
        then show False using xs(2,3) by (simp add: word_le_nat_alt)
      qed
      moreover have "Term (last (h_log s i)) < Term (last ?c) \<or> Term (last (h_log s i)) = Term (last ?c) \<and> length (h_log s i) \<le> length ?c"
        using up xs ok calculation by (auto simp: last_term_def word_le_nat_alt)
      moreover have "lead_ok s" "Term (last ?c) < t" using f(4) c(2) calculation(1) by (auto simp: hinv_def)
      ultimately have "kept s {..<t} p ?c" using recent_keeps [OF _ xs(1) pre held(1) c(1)] by blast
      then show ?thesis by (auto simp: kept_def lost_def)
    qed
    then have "kept ?s {..t} p ?c" using old grows_kept [OF g] by (auto simp: kept_def)
    then show ?thesis using False by (simp add: advance_stood [OF act(3)])
  qed
qed

lemma history_act:
  assumes a: "acting LS SS sinv (repr linv lmap) A ids f C w s i l P zs B W D"
  shows "history_step ids s i (currentTerm (node P)) zs (advance i l P zs B W s)"
proof -
  let ?s = "advance i l P zs B W s" and ?t = "currentTerm (node P)"
  note f = acting_facts [OF a] and act = actingD [OF a]
  have ok: "\<And>l xs. repr linv lmap l xs \<Longrightarrow> log_ok xs" by (simp add: repr_def)
  note lg = acting_log [OF a ok]
  show ?thesis
  proof (rule history_step.step [OF f(4) _ act(2) acting_grows [OF a] _ f(10) _ lg(1,2) _ lg(3)])
    show "elected ids ?s" using einv_elected [OF act(7)] f(3,11) by (simp add: fun_eq_iff)
    show "genuine ?s (h_lead ?s u) \<and> bounded u (h_lead ?s u)" if "h_lead ?s u \<noteq> h_lead s u" for u
      using that lg(1,2) by (auto split: if_splits)
    show "h_stood ?s u c = h_stood s u c" if "(u, v, c) \<in> h_ballots s" for u v c using acting_stood [OF a that] .
    show "v = i \<and> u = ?t" if "(u, v, c) \<in> h_ballots ?s - h_ballots s" for u v c
      using cast_step(1,2) [OF act(3)] act(9) that by auto
    show "kept ?s {..?t} p (h_stood ?s ?t c)"
      if "(?t, v, c) \<in> h_ballots ?s - h_ballots s" "(i, p) \<in> h_held s" "Term (last p) < ?t" for v c p
      using acting_vote [OF a _ that(2,3)] that(1) by simp
    fix u L Q assume new: "(u, L, Q) \<in> h_won ?s - h_won s"
    then have lead: "state (node P) = Leader" "state (node (procs C i)) \<noteq> Leader"
      using acting_follows [OF a] acting_leader(4) [OF a] by auto
    note win = acting_wins [OF a lead]
    have u: "u = h_term s i" "L = i" using win(8) new by auto
    have "\<forall>v \<in> Q. (u, v, L) \<in> B" using act(7) new unfolding einv_def winners_ok_def view_fields by auto
    then show "\<not> won s u \<and> genuine ?s (h_lead ?s u) \<and> bounded u (h_lead ?s u) \<and>
        h_stood s u L = h_lead ?s u \<and> (\<forall>v \<in> Q. (u, v, L) \<in> h_ballots s)"
      using u win(1-5) lead(1) lg(1,2) by auto
  qed simp_all
qed

end

section \<open>Serving a request of a leader\<close>

lemma repr_unique:
  assumes "repr linv lmap l xs" and "repr linv lmap l ys"
  shows "xs = ys"
proof (rule nth_equalityI)
  have ok: "log_ok xs" "log_ok ys" "log_map xs = log_map ys" using assms by (auto simp: repr_def)
  then have "last_of xs = last_of ys" using max_key_log_map by metis
  then show len: "length xs = length ys" using ok unat_last_of by metis
  fix k assume k: "k < length xs"
  then have u: "unat (of_nat (Suc k) :: u64) = Suc k" using ok(1) by (intro unat_of_nat_less) (simp add: log_ok_def)
  then have "log_map xs (of_nat (Suc k)) = Some (xs ! k)" "log_map ys (of_nat (Suc k)) = Some (ys ! k)"
    using k len unfolding log_map_def unat_pos by simp_all
  then show "xs ! k = ys ! k" using ok(3) by simp
qed

lemma genuine_terms:
  assumes "hinv ids s" and "stood_ok s" and "genuine s xs" and "finite ids"
  shows "\<forall>e \<in> set xs. Term e \<noteq> 0"
proof
  fix e assume "e \<in> set xs"
  then obtain L Q where w: "(Term e, L, Q) \<in> h_won s" using assms(3) by (auto simp: genuine_def won_def in_set_conv_nth)
  then have "majority ids Q" "\<forall>v \<in> Q. (Term e, v, L) \<in> h_ballots s" using assms(1) unfolding hinv_def elected_def by blast+
  then obtain v where "(Term e, v, L) \<in> h_ballots s" using majorities_meet [OF assms(4), of Q Q] by blast
  then show "Term e \<noteq> 0" using assms(2) unfolding stood_ok_def by blast
qed

text \<open>What the request was cut from, where it is accepted.\<close>

definition taken_over :: "string set \<Rightarrow> history \<Rightarrow> string \<Rightarrow> AppendEntriesRequest \<Rightarrow> LogEntry list \<Rightarrow> bool" where
  "taken_over ids s i req ys \<longleftrightarrow>
     snapshot s (ae_Term req) ys \<and> cut ys req \<and> settled ids s (ae_Term req) (take (unat (LeaderCommit req)) ys) \<and>
     h_term s i \<le> ae_Term req"

context raft_stores
begin

lemma serve_cases:
  assumes rel: "related SS sinv (repr linv lmap) A ids f C w s" and i: "i \<in> ids"
    and req: "request_ok ids s req" and rpc: "handleAppendEntries LS SS (node (procs C i)) req = Some (r, resp, b)"
  obtains (refused) "\<not> Success resp" "undisturbed (node (procs C i)) r"
  | (accepted) ys where "Success resp" "taken_over ids s i req ys" "repr linv lmap (logStore r) (takeover (h_log s i) ys)"
      "commitIndex r = max (commitIndex (node (procs C i))) (LeaderCommit req)" "currentTerm r = ae_Term req" "state r = Follower"
proof -
  have h: "hinv ids s" "stood_ok s" and xs: "repr linv lmap (logStore (node (procs C i))) (h_log s i)"
    and t: "h_term s i = currentTerm (node (procs C i))" and fin: "finite ids"
    using rel i member_finite unfolding related_def cinv_def by auto
  have g: "genuine s (h_log s i)" using h(1) i by (simp add: hinv_def logs_ok_def)
  show thesis
  proof (cases "void req \<or> ae_Term req < currentTerm (node (procs C i)) \<or> \<not> prev_ok (h_log s i) req")
    case True
    then have "\<not> Success resp \<and> undisturbed (node (procs C i)) r"
      using void_refused [OF rpc xs _ genuine_terms [OF h g fin]] serve_refused [OF rpc xs] by blast
    then show thesis using refused by blast
  next
    case False
    then obtain ys where ys: "snapshot s (ae_Term req) ys" "cut ys req" "settled ids s (ae_Term req) (take (unat (LeaderCommit req)) ys)"
      using req unfolding request_ok_def by blast
    have "genuine s ys" using h(1) ys(1) genuine_prefix by (auto simp: hinv_def lead_ok_def snapshot_def)
    then have "log_ok ys" "log_matching (h_log s i) ys" using genuine_matching [OF g] by (auto simp: genuine_def)
    moreover have no: "\<not> ae_Term req < currentTerm (node (procs C i))" "prev_ok (h_log s i) req" using False by auto
    ultimately show thesis
      using serve_accepted [OF rpc xs ys(2)] handleAppendEntries_ballot [OF rpc] ys t
      by (intro accepted [of ys]) (simp_all add: taken_over_def)
  qed
qed

text \<open>Every step changes the log in one of the three ways.\<close>

lemma log_effect:
  assumes rel: "related SS sinv (repr linv lmap) A ids f C w s" and i: "i \<in> ids" and step: "pstep LS SS A (procs C i) l P"
    and net: "admissible C i l" and steady: "steady LS ids C i D" "procs D i = P"
  shows "\<exists>zs. repr linv lmap (logStore (node P)) zs \<and> log_change s i (procs C i) P zs"
proof -
  have xs: "repr linv lmap (logStore (node (procs C i))) (h_log s i)" and t: "h_term s i = currentTerm (node (procs C i))"
    using rel i by (auto simp: related_def)
  from step show ?thesis
  proof (cases rule: step_effects)
    case (serve req resp r b)
    have ok: "request_ok ids s req" using net rel serve(1) by (auto simp: admissible_def related_def net_inv_def)
    from rel i ok serve(2) show ?thesis
    proof (cases rule: serve_cases)
      case refused
      then show ?thesis using xs serve(3) by (auto simp: log_change_def undisturbed_def)
    next
      case (accepted ys)
      then show ?thesis
        using serve(3,4) by (intro exI [of _ "takeover (h_log s i) ys"])
          (auto simp: log_change_def undisturbed_def same_ballot_def taken_over_def)
    qed
  next
    case (append r)
    have "last_of (h_log s i) < - 2" using steady(1) i repr_last [OF xs] unfolding steady_def by fastforce
    then have room: "Suc (length (h_log s i)) < 2 ^ 64 - 1" using xs by (simp only: repr_def log_ok_small)
    have log: "logStore (node P) = logStore r" using append(2) by (simp add: undisturbed_def)
    show ?thesis
    proof (cases "state (node (procs C i)) = Leader")
      case True
      obtain e where "Term e = h_term s i" "repr linv lmap (logStore r) (h_log s i @ [e])"
        using append(1) appendNoOp_repr [OF xs room] handleApplyRequest_repr [of "(node (procs C i))\<lparr>applyCh := _\<rparr>" "h_log s i"] xs room True t
        by fastforce
      then show ?thesis using True append(3) log t by (intro exI [of _ "h_log s i @ [e]"]) (auto simp: log_change_def repr_def)
    next
      case False
      then have "logStore r = logStore (node (procs C i))"
        using append(1) steady log handleApplyRequest_repr [of "(node (procs C i))\<lparr>applyCh := _\<rparr>" "h_log s i"] xs room
        by (auto simp: steady_def handleApplyRequest_def)
      then show ?thesis using xs log by (auto simp: log_change_def)
    qed
  qed (use xs in \<open>auto simp: log_change_def undisturbed_def applyEntry_log\<close>)
qed

end

section \<open>The messages and the other nodes after a step\<close>

lemma acting_same_log:
  assumes "acting LS SS sinv (repr linv lmap) A ids f C w s i l P zs B W D" and "logStore (node P) = logStore (node (procs C i))"
  shows "zs = h_log s i"
  using repr_unique actingD(13) [OF assms(1)] acting_facts(8) [OF assms(1)] assms(2) by metis

lemma acting_stood_ok:
  assumes a: "acting LS SS sinv (repr linv lmap) A ids f C w s i l P zs B W D"
  shows "stood_ok (advance i l P zs B W s)"
  unfolding stood_ok_def
proof (intro allI impI)
  let ?s = "advance i l P zs B W s"
  note f = acting_facts [OF a] and act = actingD [OF a] and g = acting_grows [OF a]
  fix t v c assume b: "(t, v, c) \<in> h_ballots ?s"
  let ?goal = "t \<noteq> 0 \<and> (t, c, c) \<in> h_ballots ?s \<and> genuine ?s (h_stood ?s t c) \<and> (\<forall>e \<in> set (h_stood ?s t c). Term e < t)"
  have old: ?goal if "(t, c', c) \<in> h_ballots s" for c'
    using f(5) that acting_stood [OF a that] act(8) grows_genuine [OF g] unfolding stood_ok_def by auto
  show ?goal
  proof (cases "(t, v, c) \<in> h_ballots s")
    case False
    then have cst: "(t, v, c) \<in> cast i l" using act(9) b by auto
    note cs = cast_step [OF act(3) cst]
    have zs: "zs = h_log s i" using acting_same_log [OF a cs(3)] .
    show ?thesis
    proof (cases "\<exists>req. l = SendVoteRequests req")
      case True
      then obtain req where req: "l = SendVoteRequests req" by blast
      have "h_term s i < t"
        using stand_step(1) [OF act(3) [unfolded req]] act(5) req f(3) cs(2) less_add1 [of "h_term s i" "- 1"] by (simp add: fresh_def)
      moreover have "c = i" "v = i" using cst req cs(1) by (auto simp: cast_def)
      moreover have "genuine s (h_log s i)" "bounded (h_term s i) (h_log s i)" using f(4) act(2) by (auto simp: hinv_def logs_ok_def)
      ultimately show ?thesis
        using b True cs(2) zs grows_genuine [OF g] by (auto simp: advance_stood [OF act(3)] bounded_def)
    next
      case no: False
      then obtain req vote where req: "l = ServeRPC (CmdRequestVote req) (RespRequestVote vote)" "t = rv_Term req" "c = CandidateID req"
        using cst by (auto simp: cast_def split: label.splits Command.splits RPCResponse.splits if_splits)
      then have "vote_ok s req" using act(4) f(6) by (auto simp: admissible_def net_inv_def)
      then show ?thesis using old [of c] req(2,3) by (simp add: vote_ok_def)
    qed
  qed (rule old)
qed

lemma publish_votes:
  "sentVotes (publish i l C) = (case l of SendVoteRequests req \<Rightarrow> insert req (sentVotes C) | _ \<Rightarrow> sentVotes C)"
  by (simp add: publish_def split: label.split Command.split RPCResponse.split)

lemma transmit_fields:
  "answered (transmit i (Some l) w) =
     (case l of ServeRPC (CmdAppendEntries req) (RespAppendEntries a) \<Rightarrow> insert (i, req, a) (answered w) | _ \<Rightarrow> answered w)"
  "inFlight (transmit i (Some l) w) j =
     (if j = i then case l of SendAppend p req \<Rightarrow> insert (p, req) (inFlight w i) | _ \<Rightarrow> inFlight w i else inFlight w j)"
  by (simp_all add: transmit_def split: label.split Command.split RPCResponse.split)

text \<open>The order of the rounds of a log as lists: what was sent and reached.\<close>

lemma cut_answer:
  assumes "taken_over ids s i req ys" and "genuine s (h_lead s (ae_Term req))"
  shows "unat (PrevLogIndex req) + length (Entries req) = length ys" "length ys \<le> length (h_lead s (ae_Term req))"
    "Entries req \<noteq> [] \<Longrightarrow> unat (Index (last (Entries req))) = length ys"
    "\<And>p. prefix p (h_lead s (ae_Term req)) \<Longrightarrow> length p \<le> length ys \<Longrightarrow> prefix p ys"
proof -
  have c: "unat (PrevLogIndex req) \<le> length ys" "Entries req = drop (unat (PrevLogIndex req)) ys" and p: "prefix ys (h_lead s (ae_Term req))"
    using assms(1) by (auto simp: taken_over_def cut_def snapshot_def)
  have ok: "log_ok ys" using genuine_prefix [OF assms(2) p] by (simp add: genuine_def)
  show "unat (PrevLogIndex req) + length (Entries req) = length ys" using c by simp
  show "length ys \<le> length (h_lead s (ae_Term req))" using p by (rule prefix_length_le)
  show "unat (Index (last (Entries req))) = length ys" if "Entries req \<noteq> []"
  proof -
    have "last (Entries req) = last ys" "ys \<noteq> []" using that c by auto
    then show ?thesis using Index_last [OF ok] ok by simp
  qed
  show "prefix q ys" if "prefix q (h_lead s (ae_Term req))" "length q \<le> length ys" for q
    using prefix_length_prefix [OF that(1) p that(2)] .
qed

context raft_stores
begin

lemma acting_answer:
  assumes a: "acting LS SS sinv (repr linv lmap) A ids f C w s i l P zs B W D"
    and l: "l = ServeRPC (CmdAppendEntries req) (RespAppendEntries resp)"
  shows "answer_ok (advance i l P zs B W s) i req resp"
proof -
  let ?s = "advance i l P zs B W s"
  note f = acting_facts [OF a] and act = actingD [OF a] and g = acting_grows [OF a]
  have ok: "request_ok ids s req" using act(4) f(6) l by (auto simp: admissible_def net_inv_def)
  obtain r b where serve: "handleAppendEntries LS SS (node (procs C i)) req = Some (r, resp, b)"
      "undisturbed r (node P)" "same_ballot r (node P)"
    using act(3) by (cases rule: step_effects) (use l in \<open>auto simp: l\<close>)
  from act(1,2) ok serve(1) show ?thesis
  proof (cases rule: serve_cases)
    case refused
    then show ?thesis by (simp add: answer_ok_def)
  next
    case (accepted ys)
    let ?t = "ae_Term req"
    have won: "won s ?t" using accepted(2) by (simp add: taken_over_def snapshot_def)
    then have "genuine s (h_lead s ?t)" using f(4) by (simp add: hinv_def lead_ok_def)
    note c = cut_answer [OF accepted(2) this]
    have P: "currentTerm (node P) = ?t" "state (node P) = Follower" "logStore (node P) = logStore r"
      using accepted(5,6) serve(2,3) by (auto simp: undisturbed_def same_ballot_def)
    then have zs: "zs = takeover (h_log s i) ys" using repr_unique [OF act(13)] accepted(3) by simp
    have "reached ?s i ?t (h_lead s ?t) (length ys)"
      using c(4) takeover_has P(1) zs by (auto simp: reached_def noted_def intro: prefix_order.trans)
    then show ?thesis using c(1-3) P(2) grows_won [OF g won] by (simp add: answer_ok_def Let_def)
  qed
qed

lemma acting_net:
  assumes a: "acting LS SS sinv (repr linv lmap) A ids f C w s i l P zs B W D"
  shows "net_inv ids (advance i l P zs B W s) D (transmit i (Some l) w)"
proof -
  let ?s = "advance i l P zs B W s"
  note f = acting_facts [OF a] and act = actingD [OF a] and g = acting_grows [OF a]
  have held: "h_held s \<subseteq> h_held ?s" by simp
  have mem: "ServerID (config (node (procs C i))) = i" using f(1) act(2) by (simp add: cinv_def member_config_def)
  have "vote_ok ?s req" if "req \<in> sentVotes D" for req
  proof (cases "req \<in> sentVotes C")
    case True
    then have "vote_ok s req" using f(6) by (simp add: net_inv_def)
    then show ?thesis using acting_stood [OF a] act(8) by (auto simp: vote_ok_def)
  next
    case False
    then have req: "l = SendVoteRequests req" using that by (auto simp: act(6) publish_votes split: label.splits)
    note st = stand_step [OF act(3) [unfolded req]]
    have zs: "zs = h_log s i" using acting_same_log [OF a st(6)] .
    have "phase_of (pc P) \<noteq> Idle" using act(3) req by (auto elim: SendVote_step)
    then have "(rv_Term req, i, i) \<in> B" using einv_running(1) [OF act(7), of i] st(1,2) f(11) by simp
    moreover have "lastLogInfo LS (logStore (node (procs C i))) = (last_of (h_log s i), last_term (h_log s i))"
      using lastLogInfo_repr [OF f(8)] by (simp add: last_term_def)
    moreover have "h_stood ?s (rv_Term req) i = h_log s i"
      using advance_stood [OF act(3), of zs B W s "rv_Term req" i] st(1,2) req zs by simp
    moreover have "CandidateID req = i" using st(3) mem by simp
    ultimately show ?thesis using st(4) by (simp add: vote_ok_def)
  qed
  moreover have "request_ok ids ?s req" if new: "req \<in> sentAppends D" for req
  proof (cases "req \<in> sentAppends C")
    case True
    then show ?thesis using request_grows [OF g held] f(6) by (simp add: net_inv_def)
  next
    case False
    then obtain p where l: "l = SendAppend p req" using new by (auto simp: act(6) publish_appends split: label.splits)
    then have req: "replicateOnce_request LS (node (procs C i)) p = Some (Some req)" "P = procs C i" using act(3) by (auto elim: SendAppend_step)
    then have lead: "state (node (procs C i)) = Leader" "ae_Term req = h_term s i" "LeaderCommit req = commitIndex (node (procs C i))"
      using f(3) by (auto simp: replicateOnce_request_def Let_def split: if_splits option.splits)
    have ci: "commit_inv ids s i (node (procs C i))" using f(7) by (simp add: proc_inv_def)
    have "snapshot s (ae_Term req) (h_log s i)"
      using acting_leader(2,3) [OF a] lead req(2) by (simp add: snapshot_def)
    then have "request_ok ids s req"
      using request_cut [OF req(1) f(8)] ci lead unfolding request_ok_def commit_inv_def by auto
    then show ?thesis using request_grows [OF g held] by blast
  qed
  moreover have "answer_ok ?s j req resp" if "(j, req, resp) \<in> answered (transmit i (Some l) w)" for j req resp
  proof (cases "(j, req, resp) \<in> answered w")
    case True
    then show ?thesis using answer_grows [OF g held] f(6) by (auto simp: net_inv_def)
  next
    case False
    then show ?thesis using that acting_answer [OF a]
      by (auto simp: transmit_fields split: label.splits Command.splits RPCResponse.splits)
  qed
  ultimately show ?thesis by (auto simp: net_inv_def)
qed

lemma acting_other:
  assumes a: "acting LS SS sinv (repr linv lmap) A ids f C w s i l P zs B W D" and j: "j \<in> ids" "j \<noteq> i"
  shows "proc_inv A ids f (advance i l P zs B W s) j (procs D j) (inFlight (transmit i (Some l) w) j)"
proof -
  let ?s = "advance i l P zs B W s" and ?Q = "procs C j"
  note f = acting_facts [OF a] and act = actingD [OF a]
  have old: "proc_inv A ids f s j ?Q (inFlight w j)" using act(1) j(1) by (simp add: related_def)
  have D: "procs D j = ?Q" "inFlight (transmit i (Some l) w) j = inFlight w j" using j(2) f(11) by (simp_all add: transmit_fields)
  have view: "h_term ?s j = h_term s j" "h_log ?s j = h_log s j" using j(2) by simp_all
  have "h_lead ?s (h_term s j) = h_lead s (h_term s j)" if "state (node ?Q) = Leader"
  proof (cases "state (node P) = Leader \<and> h_term s j = currentTerm (node P)")
    case True
    then have "i = j" using leader_unique [OF f(9) act(7), of i j] that j(2) f(3,11) by simp
    then show ?thesis using j(2) by simp
  qed auto
  then have "leader_inv ids ?s j ?Q (inFlight w j)"
    using old tracked_grows [of ids s j "node ?Q" "inFlight w j" "node ?Q" ?s "[]" "inFlight w j"] view
    by (auto simp: proc_inv_def leader_inv_def)
  moreover have "commit_inv ids ?s j (node ?Q)"
    using old settled_step [OF history_act [OF a] order.refl] view by (auto simp: proc_inv_def commit_inv_def)
  moreover have "fsm_inv A f ?s j ?Q" using old view by (simp add: proc_inv_def fsm_inv_def)
  moreover have "h_log ?s j = h_stood ?s (h_term ?s j) j" if ph: "phase_of (pc ?Q) \<noteq> Idle"
  proof -
    have "(h_term s j, j, j) \<in> h_ballots s" using einv_running(1) [OF f(2) ph] f(3) by simp
    then show ?thesis using old ph acting_stood [OF a] view by (simp add: proc_inv_def)
  qed
  ultimately show ?thesis using old D by (simp add: proc_inv_def)
qed

end

end
