(* ===== verification/Raft_Safety.thy ===== *)
theory Raft_Safety
  imports Raft_History
begin

text \<open>
  The rest of the invariant of theory \<open>Raft_History\<close>: what the acting node knows of its peers, its commit
  index and its state machine. With it the invariant is kept along every safe run, crashes included,
  and any two states of a run agree on what is committed.
\<close>

section \<open>The leader's peers\<close>

text \<open>\<open>initLeader\<close>: a new state for every other member, with nothing matched.\<close>

lemma addPeers:
  assumes "distinct (map fst (peers r))" and "\<forall>p \<in> set ps. ID p \<notin> fst ` set (peers r)" and "distinct (map ID ps)"
  shows "let q = foldl (addPeer k) r ps in
    distinct (map fst (peers q)) \<and> fst ` set (peers q) = fst ` set (peers r) \<union> (ID ` set ps - {ServerID (config r)}) \<and>
    (\<exists>new. peer_heap q = peer_heap r @ new) \<and>
    (\<forall>j a. (j, a) \<in> set (peers q) - set (peers r) \<longrightarrow> length (peer_heap r) \<le> a \<and> a < length (peer_heap q) \<and> peer_view (peer_heap q ! a) = (j, 0))"
  using assms
proof (induction ps arbitrary: r)
  case (Cons p ps)
  show ?case
  proof (cases "ID p = ServerID (config r)")
    case True
    then have "addPeer k r p = r" by (simp add: addPeer_def)
    then show ?thesis using Cons.IH [of r] Cons.prems True by (auto simp: Let_def)
  next
    case False
    let ?r = "addPeer k r p"
    have peers: "peers ?r = peers r @ [(ID p, length (peer_heap r))]"
    proof -
      have "AList.update (ID p) a xs = xs @ [(ID p, a)]" if "ID p \<notin> fst ` set xs" for a :: nat and xs
        using that by (induction xs) auto
      then show ?thesis using False Cons.prems(2) by (simp add: addPeer_def)
    qed
    have r: "config ?r = config r" "peer_heap ?r = peer_heap r @ [newPeerState k p]" using False by (simp_all add: addPeer_def)
    have IH: "let q = foldl (addPeer k) ?r ps in
      distinct (map fst (peers q)) \<and> fst ` set (peers q) = fst ` set (peers ?r) \<union> (ID ` set ps - {ServerID (config ?r)}) \<and>
      (\<exists>new. peer_heap q = peer_heap ?r @ new) \<and>
      (\<forall>j a. (j, a) \<in> set (peers q) - set (peers ?r) \<longrightarrow> length (peer_heap ?r) \<le> a \<and> a < length (peer_heap q) \<and> peer_view (peer_heap q ! a) = (j, 0))"
      using Cons.prems peers by (intro Cons.IH) (auto simp: image_iff)
    let ?q = "foldl (addPeer k) ?r ps"
    obtain new where new: "peer_heap ?q = peer_heap r @ newPeerState k p # new" using IH r(2) by (auto simp: Let_def)
    have "length (peer_heap r) \<le> a \<and> a < length (peer_heap ?q) \<and> peer_view (peer_heap ?q ! a) = (j, 0)"
      if j: "(j, a) \<in> set (peers ?q) - set (peers r)" for j a
    proof (cases "(j, a) \<in> set (peers ?r)")
      case True
      then have "j = ID p" "a = length (peer_heap r)" using j peers by auto
      then show ?thesis using new by (simp add: nth_append peer_view_def newPeerState_def)
    next
      case False
      then have "length (peer_heap ?r) \<le> a \<and> a < length (peer_heap ?q) \<and> peer_view (peer_heap ?q ! a) = (j, 0)"
        using IH j unfolding Let_def by blast
      then show ?thesis using r(2) by simp
    qed
    then show ?thesis using IH new peers r(1) False by (auto simp: Let_def)
  qed
qed (simp add: Let_def)

lemma initLeader_tracked:
  assumes "member_config ids i (config r)" and "\<And>a req. (a, req) \<in> F \<Longrightarrow> a < length (peer_heap r)"
  shows "tracked ids s i (initLeader LS r) F" "length (peer_heap r) \<le> length (peer_heap (initLeader LS r))"
proof -
  let ?q = "initLeader LS r"
  have m: "ServerID (config r) = i" "ID ` set (Peers (config r)) = ids" "distinct (map ID (Peers (config r)))"
    using assms(1) by (auto simp: member_config_def)
  have q: "distinct (map fst (peers ?q))" "fst ` set (peers ?q) = ids - {i}" "\<exists>new. peer_heap ?q = peer_heap r @ new"
    "\<And>j a. (j, a) \<in> set (peers ?q) \<Longrightarrow> length (peer_heap r) \<le> a \<and> a < length (peer_heap ?q) \<and> peer_view (peer_heap ?q ! a) = (j, 0)"
    using addPeers [of "r\<lparr>peers := []\<rparr>" "Peers (config r)" "fst (LastIndex LS (logStore r))"] m
    by (auto simp: initLeader_def Let_def)
  show "length (peer_heap r) \<le> length (peer_heap ?q)" using q(3) by auto
  show "tracked ids s i ?q F"
    unfolding tracked_def
  proof (intro conjI allI impI)
    fix j a assume "(j, a) \<in> set (peers ?q)"
    then show "\<exists>m. a < length (peer_heap ?q) \<and> map peer_view (peer_heap ?q) ! a = (j, m) \<and> unat m \<le> length (h_log s i) \<and>
        reached s j (h_term s i) (h_log s i) (unat m)"
      using q(4) by (intro exI [of _ 0]) (simp add: reached_def)
  next
    fix a req assume "(a, req) \<in> F" "a \<in> snd ` set (peers ?q)"
    then show "ae_Term req = h_term s i" using q(4) assms(2) by fastforce
  qed (use q in simp_all)
qed

lemma tracked_peer:
  assumes "tracked ids s i r F" and "(j, a) \<in> set (peers r)"
  shows "\<exists>m. a < length (peer_heap r) \<and> peer_view (peer_heap r ! a) = (j, m) \<and> unat m \<le> length (h_log s i) \<and>
    reached s j (h_term s i) (h_log s i) (unat m)"
proof -
  obtain m where "a < length (peer_heap r)" "map peer_view (peer_heap r) ! a = (j, m)" "unat m \<le> length (h_log s i)"
    "reached s j (h_term s i) (h_log s i) (unat m)" using assms unfolding tracked_def by blast
  then show ?thesis by (intro exI [of _ m]) simp
qed

text \<open>A successful reply: the peer has reached the last entry that was sent.\<close>

lemma success_tracked:
  assumes t: "tracked ids s i r F" and "(p, req) \<in> F" and "p < length (peer_heap r)" and "Entries req = entries" and "Success resp"
    and a: "answer_ok s (ps_id (peer_heap r ! p)) req resp" and lead: "h_log s i = h_lead s (h_term s i)"
    and r': "peers r' = peers r" "peer_heap r' = (peer_heap r)[p := recordMatch entries (peer_heap r ! p)]"
  shows "tracked ids s i r' F"
proof -
  have "\<forall>j a. (j, a) \<in> set (peers r) \<longrightarrow> (\<exists>m. a < length (peer_heap r') \<and> map peer_view (peer_heap r') ! a = (j, m) \<and>
      unat m \<le> length (h_log s i) \<and> reached s j (h_term s i) (h_log s i) (unat m))"
  proof (intro allI impI)
    fix j a assume j: "(j, a) \<in> set (peers r)"
    obtain m where m: "a < length (peer_heap r)" "peer_view (peer_heap r ! a) = (j, m)" "unat m \<le> length (h_log s i)"
      "reached s j (h_term s i) (h_log s i) (unat m)" using tracked_peer [OF t j] by blast
    show "\<exists>m. a < length (peer_heap r') \<and> map peer_view (peer_heap r') ! a = (j, m) \<and> unat m \<le> length (h_log s i) \<and>
      reached s j (h_term s i) (h_log s i) (unat m)"
    proof (cases "a = p \<and> entries \<noteq> []")
      case True
      let ?m = "Index (last entries)"
      have "p \<in> snd ` set (peers r)" using imageI [OF j, of snd] True by simp
      then have "ae_Term req = h_term s i" using t assms(2) unfolding tracked_def by blast
      moreover have "ps_id (peer_heap r ! p) = j" using m(2) True by (simp add: peer_view_def)
      ultimately have "unat ?m \<le> length (h_log s i)" "reached s j (h_term s i) (h_log s i) (unat ?m)"
        using a assms(4,5) lead True by (auto simp: answer_ok_def Let_def)
      moreover have "peer_view (recordMatch entries (peer_heap r ! p)) = (j, ?m)"
        using m(2) True by (simp add: peer_view_def recordMatch_def)
      ultimately show ?thesis using m(1) True r'(2) by (intro exI [of _ ?m]) simp
    next
      case False
      then have "peer_heap r' ! a = peer_heap r ! a" using r'(2) by (cases "a = p") (simp_all add: recordMatch_def)
      then show ?thesis using m r'(2) by (intro exI [of _ m]) simp
    qed
  qed
  then show ?thesis using t unfolding tracked_def r'(1) by (elim conjE, intro conjI)
qed

text \<open>What a majority has matched is committed.\<close>

lemma majority_committed:
  assumes t: "tracked ids s i r F" and i: "i \<in> ids" "finite ids" and own: "(i, p) \<in> h_held s"
    and p: "prefix p (h_log s i)" "p \<noteq> []" "Term (last p) = h_term s i" "length p = unat c"
    and c: "c \<le> majorityMatch (matches LS r)"
  shows "committed ids s p"
proof -
  let ?g = "\<lambda>(j, a). c \<le> matchIndex (peer_heap r ! a)"
  let ?Q = "insert i (fst ` set (filter ?g (peers r)))"
  have d: "distinct (map fst (peers r))" "fst ` set (peers r) = ids - {i}" using t by (auto simp: tracked_def)
  have "length (peers r) = card (ids - {i})" using d distinct_card [of "map fst (peers r)"] by simp
  then have len: "Suc (length (peers r)) = card ids" using card_Suc_Diff1 [OF i(2,1)] by simp
  have "length (matches LS r) < 2 * length (filter (\<lambda>m. c \<le> m) (matches LS r))"
    using c majorityMatch_iff [of "matches LS r" c] by (simp add: matches_def)
  moreover have "length (filter (\<lambda>m. c \<le> m) (matches LS r)) \<le> Suc (length (filter ?g (peers r)))"
    by (simp add: matches_def filter_map comp_def case_prod_beta')
  ultimately have "card ids < 2 * Suc (length (filter ?g (peers r)))" using len by (simp add: matches_def)
  moreover have "card (fst ` set (filter ?g (peers r))) = length (filter ?g (peers r))"
    using distinct_card [of "map fst (filter ?g (peers r))"] d(1) by (simp add: distinct_map_filter)
  moreover have "i \<notin> fst ` set (filter ?g (peers r))" using d(2) by auto
  ultimately have "card ids < 2 * card ?Q" by simp
  moreover have "?Q \<subseteq> ids" using d(2) i(1) by auto
  moreover have "(j, p) \<in> h_held s" if j: "j \<in> ?Q" for j
  proof (cases "j = i")
    case False
    then obtain a where a: "(j, a) \<in> set (peers r)" "c \<le> matchIndex (peer_heap r ! a)" using j by auto
    then obtain m where "a < length (peer_heap r)" "peer_view (peer_heap r ! a) = (j, m)" "reached s j (h_term s i) (h_log s i) (unat m)"
      using tracked_peer [OF t a(1)] by blast
    then show ?thesis using p a(2) unfolding reached_def by (simp add: peer_view_def word_le_nat_alt)
  qed (use own in simp)
  ultimately show ?thesis unfolding committed_def majority_def by blast
qed

section \<open>The acting node\<close>

text \<open>What is committed stays in the log.\<close>

lemma acting_settled:
  assumes a: "acting LS SS sinv rep A ids f C w s i l P zs B W D"
  shows "prefix (take (unat (commitIndex (node (procs C i)))) (h_log s i)) zs"
proof -
  let ?q = "take (unat (commitIndex (node (procs C i)))) (h_log s i)"
  note f = acting_facts [OF a]
  have st: "settled ids s (h_term s i) ?q" using f(7) by (simp add: proc_inv_def commit_inv_def)
  have pre: "prefix ?q (h_log s i)" by (rule take_is_prefix)
  consider "zs = h_log s i" | ys where "snapshot s (currentTerm (node P)) ys" "zs = takeover (h_log s i) ys"
    | e where "zs = h_log s i @ [e]"
    using actingD(12) [OF a] by (auto simp: log_change_def)
  then show ?thesis
  proof cases
    case 2
    then show ?thesis using takeover_settled [OF f(9,4) st _ f(10) pre] by blast
  qed (use pre in auto)
qed

lemma take_of_prefix: "prefix (take n xs) zs \<Longrightarrow> n \<le> length xs \<Longrightarrow> m \<le> n \<Longrightarrow> take m zs = take m xs \<and> m \<le> length zs"
  by (auto simp: prefix_def min_def)

lemma last_take: "0 < n \<Longrightarrow> n \<le> length xs \<Longrightarrow> take n xs \<noteq> [] \<and> last (take n xs) = xs ! (n - 1) \<and> length (take n xs) = n"
  by (cases n) (auto simp: take_Suc_conv_app_nth)

lemma append_fields:
  assumes "r = appendNoOp LS q \<and> X \<or> (\<exists>req reqs. r = handleApplyRequest LS req (q\<lparr>applyCh := reqs\<rparr>) \<and> Y)"
  shows "commitIndex r = commitIndex q \<and> peers r = peers q \<and> map peer_view (peer_heap r) = map peer_view (peer_heap q) \<and>
    lastApplied r = lastApplied q \<and> node_fsm r = node_fsm q"
  using assms
proof (elim disjE exE conjE)
  assume "r = appendNoOp LS q"
  then show ?thesis using undisturbed_append(1) [where LS = LS and r = q] by (simp add: undisturbed_def)
next
  fix req reqs assume "r = handleApplyRequest LS req (q\<lparr>applyCh := reqs\<rparr>)"
  then show ?thesis using undisturbed_append(2) [where LS = LS and r = "q\<lparr>applyCh := reqs\<rparr>" and req = req] by (simp add: undisturbed_def)
qed

lemma applyEntry_applied:
  assumes "applyEntry LS A idx r = Some (Ret r')" and "GetLog LS (logStore r) idx = Inr (xs ! (unat idx - 1))"
    and "applied A f xs r" and "unat idx = Suc (unat (lastApplied r))" and "unat idx \<le> length xs"
  shows "applied A f xs r' \<and> lastApplied r' = idx \<and> commitIndex r' = commitIndex r \<and> peers r' = peers r \<and> peer_heap r' = peer_heap r"
proof -
  let ?n = "unat (lastApplied r)"
  have e: "lastApplied r' = idx" "commitIndex r' = commitIndex r" "peers r' = peers r" "peer_heap r' = peer_heap r"
    "run_fsm A (node_fsm r) [xs ! ?n] = Some (Ret (node_fsm r'))"
    using assms(1,2,4) by (auto simp: applyEntry_def Let_def split: option.splits outcome.splits prod.splits if_splits)
  then have "run_fsm A f (take (Suc ?n) xs) = Some (Ret (node_fsm r'))"
    using assms(3-5) by (simp add: applied_def take_Suc_conv_app_nth run_fsm_append)
  then show ?thesis using e assms(4,5) by (simp add: applied_def)
qed

context raft_stores
begin

text \<open>A leader that counts a successful reply: its peers are tracked, or there is nothing to commit.\<close>

lemma acting_success:
  assumes a: "acting LS SS sinv (repr linv lmap) A ids f C w s i l P zs B W D" and h: "honest C w i (Some l)"
    and l: "l = ReceiveAppendReply p entries resp" "p < length (peer_heap (node (procs C i)))" "Success resp"
    and r: "peers r = peers (node (procs C i))"
      "peer_heap r = (peer_heap (node (procs C i)))[p := recordMatch entries (peer_heap (node (procs C i)) ! p)]"
  shows "state (node (procs C i)) = Leader"
    "tracked ids s i (node (procs C i)) (inFlight w i) \<Longrightarrow> tracked ids s i r (inFlight w i)"
proof -
  note f = acting_facts [OF a]
  obtain req where req: "(p, req) \<in> inFlight w i" "Entries req = entries"
    "(ps_id (peer_heap (node (procs C i)) ! p), req, resp) \<in> answered w" "state (node (procs C i)) = Leader"
    using h l by (auto simp: honest_def)
  then show "state (node (procs C i)) = Leader" by simp
  have "answer_ok s (ps_id (peer_heap (node (procs C i)) ! p)) req resp" using f(6) req(3) by (auto simp: net_inv_def)
  moreover have "h_log s i = h_lead s (h_term s i)" using f(7) req(4) by (simp add: proc_inv_def leader_inv_def)
  ultimately show "tracked ids s i r (inFlight w i)" if "tracked ids s i (node (procs C i)) (inFlight w i)"
    using success_tracked [OF that req(1) l(2) req(2) l(3) _ _ r] by blast
qed

lemma success_commit:
  assumes a: "acting LS SS sinv (repr linv lmap) A ids f C w s i l P zs B W D" and h: "honest C w i (Some l)"
    and l: "l = ReceiveAppendReply p entries resp" "p < length (peer_heap (node (procs C i)))" "Success resp"
    and P: "node P = advanceCommitIndex LS ((node (procs C i))\<lparr>peer_heap := (peer_heap (node (procs C i)))[p := recordMatch entries (peer_heap (node (procs C i)) ! p)]\<rparr>)"
    and new: "commitIndex (node P) \<noteq> commitIndex (node (procs C i))"
  shows "unat (commitIndex (node P)) \<le> length (h_log s i)" "committed ids s (take (unat (commitIndex (node P))) (h_log s i))"
    "Term (last (take (unat (commitIndex (node P))) (h_log s i))) = h_term s i" "commitIndex (node (procs C i)) \<le> commitIndex (node P)"
proof -
  let ?r = "(node (procs C i))\<lparr>peer_heap := (peer_heap (node (procs C i)))[p := recordMatch entries (peer_heap (node (procs C i)) ! p)]\<rparr>"
  let ?c = "majorityMatch (matches LS ?r)" and ?xs = "h_log s i"
  note f = acting_facts [OF a] and act = actingD [OF a]
  have suc: "state (node (procs C i)) = Leader"
    "tracked ids s i (node (procs C i)) (inFlight w i) \<Longrightarrow> tracked ids s i ?r (inFlight w i)"
    using acting_success [OF a h l, of ?r] by simp_all
  from P new obtain e where e: "commitIndex (node (procs C i)) < ?c" "GetLog LS (logStore (node (procs C i))) ?c = Inr e"
    "Term e = h_term s i" "commitIndex (node P) = ?c"
    by (cases rule: advanceCommitIndex_cases [of LS ?r]) (auto simp: f(3))
  have c0: "?c \<noteq> 0" using e(1) by auto
  then have c: "unat ?c \<le> length ?xs" using repr_get_None [OF f(8), of ?c] e(2) by fastforce
  then have xs: "?xs ! (unat ?c - 1) = e" "0 < unat ?c" using repr_get [OF f(8) c0 c] e(2) c0 unat_pos by auto
  let ?p = "take (unat ?c) ?xs"
  have p: "?p \<noteq> []" "last ?p = e" "length ?p = unat ?c" using last_take [OF xs(2) c] xs(1) by simp_all
  have "e \<in> set ?xs" using xs c nth_mem [of "unat ?c - 1" ?xs] by simp
  then have "tracked ids s i (node (procs C i)) (inFlight w i)"
    using f(7) suc(1) e(3) by (auto simp: proc_inv_def leader_inv_def)
  then have t: "tracked ids s i ?r (inFlight w i)" by (rule suc(2))
  have own: "(i, ?p) \<in> h_held s"
    using f(4) act(2) p e(3) take_is_prefix unfolding hinv_def logs_ok_def by blast
  have "committed ids s ?p"
    using majority_committed [OF t act(2) f(9) own take_is_prefix p(1) _ p(3), of LS] p(2) e(3) by simp
  then show "unat (commitIndex (node P)) \<le> length ?xs" "committed ids s (take (unat (commitIndex (node P))) ?xs)"
    "Term (last (take (unat (commitIndex (node P))) ?xs)) = h_term s i" "commitIndex (node (procs C i)) \<le> commitIndex (node P)"
    using e p(2) c by simp_all
qed

text \<open>The commit index never falls, and what it covers is settled.\<close>

text \<open>A follower commits what the leader had settled.\<close>

lemma acting_serve_commit:
  assumes a: "acting LS SS sinv (repr linv lmap) A ids f C w s i l P zs B W D"
    and l: "l = ServeRPC (CmdAppendEntries req) a'" and r: "handleAppendEntries LS SS (node (procs C i)) req = Some (r, resp, b)"
    and P: "undisturbed r (node P)" "same_ballot r (node P)"
    and same: "commitIndex (node P) = commitIndex (node (procs C i)) \<Longrightarrow> commit_inv ids (advance i l P zs B W s) i (node P)"
  shows "commit_inv ids (advance i l P zs B W s) i (node P) \<and> commitIndex (node (procs C i)) \<le> commitIndex (node P)"
proof -
  let ?c = "commitIndex (node (procs C i))" and ?k = "LeaderCommit req"
  note f = acting_facts [OF a] and act = actingD [OF a] and st = history_act [OF a]
  have ok: "request_ok ids s req" using act(4) f(6) l by (auto simp: admissible_def net_inv_def)
  from act(1,2) ok r show ?thesis
  proof (cases rule: serve_cases)
    case refused
    then show ?thesis using same P(1) by (simp add: undisturbed_def)
  next
    case (accepted ys)
    have p: "commitIndex (node P) = max ?c ?k" "logStore (node P) = logStore r" "currentTerm (node P) = ae_Term req"
      using accepted(4,5) P by (auto simp: undisturbed_def same_ballot_def)
    have zs: "zs = takeover (h_log s i) ys" using repr_unique [OF act(13)] accepted(3) p(2) by simp
    have t: "settled ids s (ae_Term req) (take (unat ?k) ys)" "unat ?k \<le> length ys"
      using accepted(2) by (auto simp: taken_over_def cut_def)
    have "prefix (take (unat ?k) ys) zs" using takeover_has zs take_is_prefix by (blast intro: prefix_order.trans)
    then have "take (unat ?k) zs = take (unat ?k) ys \<and> unat ?k \<le> length zs" using take_of_prefix t(2) by blast
    then show ?thesis
      using same p(1,3) settled_step [OF st order.refl t(1)] by (cases "?c \<le> ?k") (auto simp: commit_inv_def max_def)
  qed
qed

lemma acting_commit:
  assumes a: "acting LS SS sinv (repr linv lmap) A ids f C w s i l P zs B W D" and h: "honest C w i (Some l)"
  shows "commit_inv ids (advance i l P zs B W s) i (node P)" "commitIndex (node (procs C i)) \<le> commitIndex (node P)"
proof -
  let ?s = "advance i l P zs B W s" and ?c = "commitIndex (node (procs C i))" and ?d = "commitIndex (node P)"
  note f = acting_facts [OF a] and act = actingD [OF a] and st = history_act [OF a]
  have old: "unat ?c \<le> length (h_log s i)" "settled ids s (h_term s i) (take (unat ?c) (h_log s i))"
    using f(7) by (simp_all add: proc_inv_def commit_inv_def)
  have keep: "take (unat ?c) zs = take (unat ?c) (h_log s i)" "unat ?c \<le> length zs"
    using take_of_prefix [OF acting_settled [OF a] old(1) order.refl] by simp_all
  have same: "commit_inv ids ?s i (node P) \<and> ?c \<le> ?d" if "?d = ?c"
    using that keep settled_step [OF st f(10) old(2)] by (simp add: commit_inv_def)
  from act(3) have "commit_inv ids ?s i (node P) \<and> ?c \<le> ?d"
  proof (cases rule: step_effects)
    case quiet
    then show ?thesis using same by (simp add: undisturbed_def)
  next
    case (serve req resp r b)
    then show ?thesis using same by (intro acting_serve_commit [OF a serve(1-4)]) simp
  next
    case (append r)
    have "?d = ?c" using append_fields [OF append(1)] append(2) by (simp add: undisturbed_def)
    then show ?thesis by (rule same)
  next
    case (success p entries resp)
    have P: "logStore (node P) = logStore (node (procs C i))" "node P = advanceCommitIndex LS ((node (procs C i))\<lparr>peer_heap := (peer_heap (node (procs C i)))[p := recordMatch entries (peer_heap (node (procs C i)) ! p)]\<rparr>)"
      using success(5) by simp_all
    have zs: "zs = h_log s i" using acting_same_log [OF a P(1)] .
    show ?thesis
    proof (cases "?d = ?c")
      case False
      note c = success_commit [OF a h success(1-3) P(2) False]
      have "settled ids s (h_term s i) (take (unat ?d) (h_log s i))"
        using c(2,3) by (auto simp: settled_def)
      then show ?thesis using c(1,4) zs settled_step [OF st f(10)] by (simp add: commit_inv_def)
    qed (rule same)
  next
    case (entry idx commit r)
    then have "?d = ?c" by (auto simp: applyEntry_def Let_def split: sum.splits option.splits outcome.splits prod.splits if_splits)
    then show ?thesis by (rule same)
  qed (use same in simp_all)
  then show "commit_inv ids ?s i (node P)" "?c \<le> ?d" by simp_all
qed

end

text \<open>While an election runs, its request is the same.\<close>

fun request_of :: "pc \<Rightarrow> RequestVoteRequest option" where
  "request_of (ElectionStarted req) = Some req"
| "request_of (InCandidate req voters) = Some req"
| "request_of p = None"

lemma phase_request: "phase_of p \<noteq> Idle \<longleftrightarrow> (\<exists>req. request_of p = Some req)"
  by (cases p) auto

lemma request_step:
  assumes "pstep LS SS A P l P'" and "request_of (pc P') = Some req" and "\<forall>req. l \<noteq> SendVoteRequests req"
  shows "request_of (pc P) = Some req"
  using assms
proof (induction rule: pstep.induct)
  case (leader_start P r pc')
  then show ?case using leader_next_cases [OF leader_start.hyps(2)] by (auto split: if_splits)
next
  case (leader_rpc P cmd r1 resp reset r pc')
  then show ?case using leader_next_cases [OF leader_rpc.hyps(3)] by (auto split: if_splits)
next
  case (leader_apply P req reqs r pc')
  then show ?case using leader_next_cases [OF leader_apply.hyps(3)] by (auto split: if_splits)
qed (auto simp: follower_next_def candidate_next_def split: if_splits)

lemma proc_ok_request: "proc_ok i P \<Longrightarrow> request_of (pc P) = Some req \<Longrightarrow> rv_Term req = currentTerm (node P)"
  by (cases "pc P") (auto simp: proc_ok_def)

text \<open>The heap of peer states never shrinks.\<close>

lemma heap_step:
  assumes "pstep LS SS A P l P'" and "member_config ids i (config (node P))"
  shows "length (peer_heap (node P)) \<le> length (peer_heap (node P'))"
  using assms(1)
proof (cases rule: step_effects)
  case quiet
  then show ?thesis by (metis undisturbed_def length_map order.refl)
next
  case (serve req resp r b)
  then show ?thesis using handleAppendEntries_keeps [OF serve(2)] by (metis undisturbed_def length_map order.refl)
next
  case (append r)
  then show ?thesis using append_fields [OF append(1)] by (metis undisturbed_def length_map order.refl)
next
  case init
  then show ?thesis using initLeader_tracked(2) [OF assms(2), of "{}"] by simp
next
  case (entry idx commit r)
  then have "peer_heap r = peer_heap (node P)"
    by (auto simp: applyEntry_def Let_def split: sum.splits option.splits outcome.splits prod.splits if_splits)
  then show ?thesis using entry(4) by simp
qed simp_all

context raft_stores
begin

lemma acting_running:
  assumes a: "acting LS SS sinv (repr linv lmap) A ids f C w s i l P zs B W D" and ok: "proc_ok i P"
    and run: "phase_of (pc P) \<noteq> Idle"
  shows "zs = h_stood (advance i l P zs B W s) (currentTerm (node P)) i"
proof (cases "\<exists>req. l = SendVoteRequests req")
  case True
  then show ?thesis by (simp add: advance_stood [OF actingD(3) [OF a]])
next
  case False
  note f = acting_facts [OF a] and act = actingD [OF a]
  obtain req where req: "request_of (pc P) = Some req" using run phase_request by blast
  then have old: "request_of (pc (procs C i)) = Some req" using request_step [OF act(3)] False by blast
  then have ph: "phase_of (pc (procs C i)) \<noteq> Idle" using phase_request by blast
  have "proc_ok i (procs C i)" using f(1) act(2) by (simp add: cinv_def)
  then have t: "currentTerm (node P) = h_term s i" using proc_ok_request [OF ok req] proc_ok_request [OF _ old] f(3) by simp
  have "state (node (procs C i)) \<noteq> Leader" using einv_leader [OF f(2)] einv_running(2) [OF f(2) ph] by blast
  from act(3) have zs: "zs = h_log s i"
  proof (cases rule: step_effects)
    case (serve r' resp r b)
    have "request_ok ids s r'" using act(4) f(6) serve(1) by (auto simp: admissible_def net_inv_def)
    moreover have "state r = Candidate" using serve(8) run by blast
    ultimately show ?thesis
      using serve(3) acting_same_log [OF a] by (cases rule: serve_cases [OF act(1,2) _ serve(2)]) (auto simp: undisturbed_def)
  qed (use acting_same_log [OF a] ph \<open>state (node (procs C i)) \<noteq> Leader\<close> run in \<open>auto simp: undisturbed_def applyEntry_log\<close>)
  have "h_log s i = h_stood s (h_term s i) i" using f(7) ph by (simp add: proc_inv_def)
  then show ?thesis using zs t acting_stood [OF a] einv_running(1) [OF f(2) ph] f(3) by metis
qed

end

lemma advanceCommitIndex_fsm: "node_fsm (advanceCommitIndex LS r) = node_fsm r"
  by (cases rule: advanceCommitIndex_cases [of LS r]) (simp_all add: notifyCommit_def)

context raft_stores
begin

lemma acting_fsm:
  assumes a: "acting LS SS sinv (repr linv lmap) A ids f C w s i l P zs B W D" and h: "honest C w i (Some l)"
  shows "fsm_inv A f (advance i l P zs B W s) i P"
proof -
  let ?s = "advance i l P zs B W s" and ?r = "node (procs C i)"
  note fs = acting_facts [OF a] and act = actingD [OF a]
  have old: "applied A f (h_log s i) ?r" "lastApplied ?r \<le> commitIndex ?r"
      "\<And>idx commit. applying (procs C i) = Some (idx, commit) \<Longrightarrow> unat idx = Suc (unat (lastApplied ?r)) \<and> commit \<le> commitIndex ?r"
    and ci: "unat (commitIndex ?r) \<le> length (h_log s i)"
    using fs(7) by (auto simp: proc_inv_def fsm_inv_def commit_inv_def)
  have mono: "commitIndex ?r \<le> commitIndex (node P)" using acting_commit(2) [OF a h] .
  have la: "unat (lastApplied ?r) \<le> unat (commitIndex ?r)" using old(2) by (simp add: word_le_nat_alt)
  have zs: "applied A f zs ?r"
    using take_of_prefix [OF acting_settled [OF a] ci la] old(1) by (simp add: applied_def)
  have small: "unat n < 2 ^ 64 - 1" if "n \<le> commitIndex ?r" for n
    using that ci fs(8) by (auto simp: word_le_nat_alt repr_def log_ok_def)
  have suc: "unat (n + 1) = Suc (unat n)" if "n \<le> commitIndex ?r" for n
  proof -
    have "n < - 1" using small [OF that] by (simp add: word_less_nat_alt unsigned_minus_1_eq_mask mask_eq_exp_minus_1)
    then show ?thesis by (rule unat_add1)
  qed
  have same: ?thesis if "lastApplied (node P) = lastApplied ?r" "node_fsm (node P) = node_fsm ?r" "applying P = applying (procs C i)"
    using that zs old(2,3) mono by (auto simp: fsm_inv_def applied_def intro: order.trans split: option.splits)
  from act(3) show ?thesis
  proof (cases rule: step_effects)
    case quiet
    then show ?thesis by (intro same) (auto simp: undisturbed_def)
  next
    case (serve req resp r b)
    then show ?thesis using handleAppendEntries_keeps [OF serve(2)] by (intro same) (auto simp: undisturbed_def)
  next
    case (append r)
    then show ?thesis using append_fields [OF append(1)] by (intro same) (auto simp: undisturbed_def)
  next
    case init
    then show ?thesis by (intro same) simp_all
  next
    case (success p entries resp)
    then show ?thesis by (intro same) (simp_all add: advanceCommitIndex_fsm)
  next
    case apply_start
    then show ?thesis using zs old(2) suc [OF old(2)] by (simp add: fsm_inv_def applied_def)
  next
    case (entry idx commit r)
    have idx: "unat idx = Suc (unat (lastApplied ?r))" "commit \<le> commitIndex ?r" using old(3) [OF entry(1)] by simp_all
    have le: "idx \<le> commitIndex ?r" using entry(2) idx(2) by simp
    then have len: "unat idx \<le> length (h_log s i)" using ci by (simp add: word_le_nat_alt)
    have get: "GetLog LS (logStore ?r) idx = Inr (h_log s i ! (unat idx - 1))"
      using repr_get [OF fs(8) _ len] idx(1) by (simp add: unat_pos)
    note e = applyEntry_applied [OF entry(3) get old(1) idx(1) len]
    have "zs = h_log s i" using acting_same_log [OF a] applyEntry_log [OF entry(3)] entry(4) by simp
    then show ?thesis using e entry(4) le idx(2) suc [OF le] by (simp add: fsm_inv_def)
  next
    case apply_done
    then show ?thesis using zs old(2) by (simp add: fsm_inv_def)
  qed
qed

text \<open>A node that has just been elected has no entry of its term and has not begun to lead.\<close>

lemma acting_elected:
  assumes a: "acting LS SS sinv (repr linv lmap) A ids f C w s i l P zs B W D"
    and lead: "state (node P) = Leader" "state (node (procs C i)) \<noteq> Leader"
  shows "pc P \<noteq> LeaderReady \<and> pc P \<noteq> InLeader \<and> (\<forall>e \<in> set zs. Term e \<noteq> currentTerm (node P))"
proof -
  note win = acting_wins [OF a lead] and f = acting_facts [OF a] and act = actingD [OF a]
  have "pc P \<noteq> LeaderReady \<and> pc P \<noteq> InLeader"
    using act(3) by (cases rule: step_effects) (use win(7) lead(2) in auto)
  moreover have "\<forall>e \<in> set zs. Term e < currentTerm (node P)"
    using f(5) win(1,2,4,6) unfolding stood_ok_def by metis
  ultimately show ?thesis by auto
qed

lemma acting_tracks:
  assumes a: "acting LS SS sinv (repr linv lmap) A ids f C w s i l P zs B W D" and h: "honest C w i (Some l)"
    and lead: "state (node P) = Leader"
  shows "tracked ids (advance i l P zs B W s) i (node P) (inFlight (transmit i (Some l) w) i) \<or>
    pc P \<noteq> LeaderReady \<and> pc P \<noteq> InLeader \<and> (\<forall>e \<in> set zs. Term e \<noteq> currentTerm (node P))"
proof (cases "state (node (procs C i)) = Leader")
  case False
  then show ?thesis using acting_elected [OF a lead] by blast
next
  case True
  let ?s = "advance i l P zs B W s" and ?F = "inFlight (transmit i (Some l) w) i" and ?r = "node (procs C i)"
  note ld = acting_leader [OF a lead True] and f = acting_facts [OF a] and act = actingD [OF a]
  have mem: "member_config ids i (config ?r)" using f(1) act(2) by (simp add: cinv_def)
  have old: "tracked ids s i ?r (inFlight w i) \<or>
      pc (procs C i) \<noteq> LeaderReady \<and> pc (procs C i) \<noteq> InLeader \<and> (\<forall>e \<in> set (h_log s i). Term e \<noteq> h_term s i)"
    using f(7) True unfolding proc_inv_def leader_inv_def by blast
  have F: "(b, req) \<in> inFlight w i \<or> ae_Term req = h_term s i" if "(b, req) \<in> ?F" for b req
    using that act(3) f(3) by (auto simp: transmit_fields replicateOnce_request_def Let_def
        split: label.splits if_splits option.splits elim!: SendAppend_step)
  obtain es where es: "zs = h_log s i @ es" using act(12) lead by (auto simp: log_change_def)
  have keep: "tracked ids ?s i q ?F"
    if "tracked ids s i ?r (inFlight w i)" "peers q = peers ?r" "map peer_view (peer_heap q) = map peer_view (peer_heap ?r)" for q
    using tracked_grows [OF that, of ?s es ?F] F es ld(1) by auto
  have still: ?thesis
    if "peers (node P) = peers ?r" "map peer_view (peer_heap (node P)) = map peer_view (peer_heap ?r)"
      "logStore (node P) = logStore ?r" "pc P = LeaderReady \<or> pc P = InLeader \<Longrightarrow> pc P = pc (procs C i)"
    using old keep [of "node P"] that acting_same_log [OF a that(3)] ld(1) by auto
  from act(3) show ?thesis
  proof (cases rule: step_effects)
    case quiet
    then show ?thesis by (intro still) (auto simp: undisturbed_def)
  next
    case (serve req resp r b)
    have "request_ok ids s req" using act(4) f(6) serve(1) by (auto simp: admissible_def net_inv_def)
    moreover have "state r = Leader" using serve(4) lead by (simp add: same_ballot_def)
    ultimately have "undisturbed ?r r" by (cases rule: serve_cases [OF act(1,2) _ serve(2)]) auto
    then show ?thesis using serve(3,6,7) by (intro still) (auto simp: undisturbed_def)
  next
    case (append r)
    then have "tracked ids s i ?r (inFlight w i)" using old by auto
    then show ?thesis using keep [of "node P"] append_fields [OF append(1)] append(2) by (simp add: undisturbed_def)
  next
    case init
    have "(b, req) \<in> ?F \<Longrightarrow> b < length (peer_heap ?r)" for b req
      using f(7) init(4) by (auto simp: transmit_fields proc_inv_def)
    then show ?thesis using initLeader_tracked(1) [OF mem] init(3) by auto
  next
    case (success p entries resp)
    let ?q = "?r\<lparr>peer_heap := (peer_heap ?r)[p := recordMatch entries (peer_heap ?r ! p)]\<rparr>"
    have P: "pc P = pc (procs C i)" "logStore (node P) = logStore ?r" "peers (node P) = peers ?q" "peer_heap (node P) = peer_heap ?q"
      using success(5) by simp_all
    have zs: "zs = h_log s i" using acting_same_log [OF a P(2)] .
    have "tracked ids ?s i (node P) ?F" if "tracked ids s i ?r (inFlight w i)"
    proof -
      have "tracked ids s i ?q (inFlight w i)" using acting_success(2) [OF a h success(1-3), of ?q] that by simp
      from tracked_grows [OF this, of "node P" ?s "[]" ?F] show ?thesis using P(3,4) F zs ld(1) by auto
    qed
    then show ?thesis using old P(1) zs ld(1) by auto
  next
    case (entry idx commit r)
    then have "peer_heap r = peer_heap ?r" "peers r = peers ?r"
      by (auto simp: applyEntry_def Let_def split: sum.splits option.splits outcome.splits prod.splits if_splits)
    then show ?thesis using entry(4) applyEntry_log [OF entry(3)] by (intro still) simp_all
  qed (intro still; simp)+
qed

lemma acting_own:
  assumes a: "acting LS SS sinv (repr linv lmap) A ids f C w s i l P zs B W D" and h: "honest C w i (Some l)" and ok: "proc_ok i P"
  shows "proc_inv A ids f (advance i l P zs B W s) i P (inFlight (transmit i (Some l) w) i)"
proof -
  note fs = acting_facts [OF a] and act = actingD [OF a]
  have "b < length (peer_heap (node P))" if "(b, req) \<in> inFlight (transmit i (Some l) w) i" for b req
  proof -
    have "b < length (peer_heap (node (procs C i)))"
      using that fs(7) act(3) by (auto simp: transmit_fields proc_inv_def split: label.splits elim!: SendAppend_step)
    moreover have "member_config ids i (config (node (procs C i)))" using fs(1) act(2) by (simp add: cinv_def)
    ultimately show ?thesis using heap_step [OF act(3)] by fastforce
  qed
  moreover have "leader_inv ids (advance i l P zs B W s) i P (inFlight (transmit i (Some l) w) i)"
    using acting_tracks [OF a h] by (auto simp: leader_inv_def)
  ultimately show ?thesis
    using acting_commit(1) [OF a h] acting_fsm [OF a h] acting_running [OF a ok] by (auto simp: proc_inv_def)
qed

end

section \<open>The invariant along a run\<close>

context raft_stores
begin

lemma related_act:
  assumes rel: "related SS sinv (repr linv lmap) A ids f C w s" and i: "i \<in> ids" and step: "pstep LS SS A (procs C i) l P"
    and net: "admissible C i l" "fresh C i (Some l)" and D: "D = publish i l (C\<lparr>procs := (procs C)(i := P)\<rparr>)"
    and st: "steady LS ids C i D" and h: "honest C w i (Some l)"
  shows "\<exists>s'. related SS sinv (repr linv lmap) A ids f D (transmit i (Some l) w) s' \<and>
    (\<forall>b q. settled ids s b q \<longrightarrow> settled ids s' b q)"
proof -
  have r: "cinv SS sinv ids C" "einv ids (view C (h_ballots s) (h_won s))" "known C (view C (h_ballots s) (h_won s))"
    "h_term s = (\<lambda>i. currentTerm (node (procs C i)))" "\<And>j. j \<in> ids \<Longrightarrow> repr linv lmap (logStore (node (procs C j))) (h_log s j)"
    using rel by (auto simp: related_def)
  obtain B W where BW: "einv ids (view D B W)" "known D (view D B W)" "proc_ok i P" "h_ballots s \<subseteq> B" "B \<subseteq> h_ballots s \<union> cast i l"
    "h_won s \<subseteq> W" "W \<subseteq> h_won s \<union> gained (view C (h_ballots s) (h_won s)) i P"
    using view_act [OF r(1-3) i step net D] by blast
  have procs: "procs D = (procs C)(i := P)" by (simp add: D)
  obtain zs where zs: "repr linv lmap (logStore (node P)) zs" "log_change s i (procs C i) P zs"
    using log_effect [OF rel i step net(1) st] procs by auto
  let ?s = "advance i l P zs B W s"
  have a: "acting LS SS sinv (repr linv lmap) A ids f C w s i l P zs B W D"
    unfolding acting_def using rel i step net D BW(1,4-7) zs by blast
  have "cinv SS sinv ids D" using cinv_act [OF r(1) i step net] D by simp
  moreover have "h_term ?s = (\<lambda>i. currentTerm (node (procs D i)))" using r(4) procs by auto
  moreover have "repr linv lmap (logStore (node (procs D j))) (h_log ?s j) \<and> proc_inv A ids f ?s j (procs D j) (inFlight (transmit i (Some l) w) j)"
    if "j \<in> ids" for j
    using acting_own [OF a h BW(3)] acting_other [OF a that] zs(1) r(5) [OF that] procs by (cases "j = i") auto
  ultimately have "related SS sinv (repr linv lmap) A ids f D (transmit i (Some l) w) ?s"
    using BW(1,2) hinv_step [OF history_act [OF a]] acting_stood_ok [OF a] acting_net [OF a] by (simp add: related_def)
  then show ?thesis using settled_step [OF history_act [OF a] order.refl] by blast
qed

text \<open>A crash: the log, the term and the vote stay, the rest starts again.\<close>

lemma related_crash:
  assumes rel: "related SS sinv (repr linv lmap) A ids f C w s" and i: "i \<in> ids"
    and new: "NewRaftNode SS (config (node (procs C i))) (logStore (node (procs C i))) (stableStore (node (procs C i))) f' = Ret (Inr r)"
    and f: "node_fsm r = f"
  shows "related SS sinv (repr linv lmap) A ids f (C\<lparr>procs := (procs C)(i := start r)\<rparr>) (transmit i None w) s"
proof -
  let ?D = "C\<lparr>procs := (procs C)(i := start r)\<rparr>"
  have c: "cinv SS sinv ids C" "einv ids (view C (h_ballots s) (h_won s))" "known C (view C (h_ballots s) (h_won s))"
    and t: "h_term s = (\<lambda>i. currentTerm (node (procs C i)))" using rel by (auto simp: related_def)
  have d: "durable SS sinv (node (procs C i))" "member_config ids i (config (node (procs C i)))" using c(1) i by (auto simp: cinv_def)
  then have same: "currentTerm r = currentTerm (node (procs C i))"
    using NewRaftNode_restores(2) [OF _ _ new] by (auto simp: durable_def member_config_def)
  have r: "logStore r = logStore (node (procs C i))" "state r = Follower" "commitIndex r = 0" "lastApplied r = 0"
    using new by (auto simp: NewRaftNode_def restoreState_def bind_outcome_eq_Ret split: option.splits sum.splits prod.splits)
  have "proc_inv A ids f s i (start r) {}"
    using r f by (simp add: proc_inv_def leader_inv_def commit_inv_def fsm_inv_def applied_def settled_def start_def)
  moreover have "net_inv ids s ?D (transmit i None w)" using rel by (simp add: related_def net_inv_def transmit_def)
  moreover have "h_term s = (\<lambda>j. currentTerm (node (procs ?D j)))" using t same by (auto simp: start_def)
  ultimately show ?thesis
    using rel view_crash [OF c i new HOL.refl] cinv_crash [OF c(1) i new] r(1)
    by (auto simp: related_def transmit_def start_def)
qed

lemma related_run:
  assumes "safe_run LS SS A ids f C w D u" and "related SS sinv (repr linv lmap) A ids f C w s"
  shows "\<exists>s'. related SS sinv (repr linv lmap) A ids f D u s' \<and> (\<forall>b q. settled ids s b q \<longrightarrow> settled ids s' b q)"
  using assms
proof (induction rule: safe_run.induct)
  case (step D u i l E)
  then obtain s1 where s1: "related SS sinv (repr linv lmap) A ids f D u s1" "\<forall>b q. settled ids s b q \<longrightarrow> settled ids s1 b q"
    by blast
  from step.hyps(2) show ?case
  proof cases
    case (act l' P)
    then show ?thesis using related_act [OF s1(1) act(3,4,5)] step.hyps(3,4,5) s1(2) by (metis (no_types, lifting))
  next
    case (crash f' r)
    then have "node_fsm r = f" using step.hyps(6) by (simp add: start_def)
    then show ?thesis using related_crash [OF s1(1) crash(3,4)] crash(1,2) s1(2) by auto
  qed
qed auto

end

text \<open>A cluster at its start: every node is new, on empty logs, with the state machine \<open>f\<close>.\<close>

definition cluster_start :: "'s StableStore \<Rightarrow> ('s \<Rightarrow> bool) \<Rightarrow> ('l \<Rightarrow> LogEntry list \<Rightarrow> bool) \<Rightarrow> string set \<Rightarrow> 'f \<Rightarrow>
    ('l, 's, 'f, 'r) Cluster \<Rightarrow> bool" where
  "cluster_start SS sinv rep ids f C \<longleftrightarrow> cluster_init SS sinv ids C \<and>
     (\<forall>i \<in> ids. rep (logStore (node (procs C i))) [] \<and> commitIndex (node (procs C i)) = 0 \<and>
        lastApplied (node (procs C i)) = 0 \<and> node_fsm (node (procs C i)) = f \<and> applying (procs C i) = None)"

lemma related_start:
  assumes "cluster_start SS sinv rep ids f C"
  shows "\<exists>s. related SS sinv rep A ids f C silent s"
proof -
  let ?s = "\<lparr>h_term = \<lambda>i. currentTerm (node (procs C i)), h_log = \<lambda>i. [], h_ballots = {}, h_won = {}, h_lead = \<lambda>t. [],
    h_stood = \<lambda>t c. [], h_held = {}\<rparr>"
  have init: "cluster_init SS sinv ids C" using assms by (simp add: cluster_start_def)
  then have "einv ids (view C {} {})" "known C (view C {} {})"
    by (auto simp: cluster_init_def einit_def known_def intro!: einv_init)
  moreover have "hinv ids ?s"
    by (simp add: hinv_def lead_ok_def logs_ok_def held_ok_def votes_ok_def quorums_ok_def elected_def won_def genuine_def bounded_def)
  moreover have "proc_inv A ids f ?s i (procs C i) {}" if "i \<in> ids" for i
    using assms that by (auto simp: cluster_start_def cluster_init_def proc_inv_def leader_inv_def commit_inv_def settled_def fsm_inv_def applied_def)
  ultimately have "related SS sinv rep A ids f C silent ?s"
    using assms cinv_init [OF init] init
    by (simp add: related_def cluster_start_def cluster_init_def stood_ok_def net_inv_def silent_def)
  then show ?thesis ..
qed

text \<open>What two states of one run have in common.\<close>

context raft_stores
begin

lemma committed_agree:
  assumes start: "cluster_start SS sinv (repr linv lmap) ids f C" and run: "safe_run LS SS A ids f C silent D u" "safe_run LS SS A ids f D u E v"
    and i: "i \<in> ids" "j \<in> ids"
  obtains xs ys q where "repr linv lmap (logStore (node (procs D i))) xs" "repr linv lmap (logStore (node (procs E j))) ys"
    "unat (commitIndex (node (procs D i))) \<le> length xs" "q = take (unat (commitIndex (node (procs D i)))) xs"
    "applied A f xs (node (procs D i))" "lastApplied (node (procs D i)) \<le> commitIndex (node (procs D i))"
    "unat (commitIndex (node (procs E j))) \<le> length ys"
    "applied A f ys (node (procs E j))" "lastApplied (node (procs E j)) \<le> commitIndex (node (procs E j))"
    "prefix q (take (unat (commitIndex (node (procs E j)))) ys) \<or> prefix (take (unat (commitIndex (node (procs E j)))) ys) q"
    "state (node (procs E j)) = Leader \<Longrightarrow> currentTerm (node (procs D i)) \<le> currentTerm (node (procs E j)) \<Longrightarrow> prefix q ys"
proof -
  obtain s0 where "related SS sinv (repr linv lmap) A ids f C silent s0" using related_start [OF start] by blast
  then obtain s where s: "related SS sinv (repr linv lmap) A ids f D u s" using related_run [OF run(1)] by blast
  then obtain s' where s': "related SS sinv (repr linv lmap) A ids f E v s'" "\<forall>b q. settled ids s b q \<longrightarrow> settled ids s' b q"
    using related_run [OF run(2)] by blast
  have p: "proc_inv A ids f s i (procs D i) (inFlight u i)" "proc_inv A ids f s' j (procs E j) (inFlight v j)"
    "repr linv lmap (logStore (node (procs D i))) (h_log s i)" "repr linv lmap (logStore (node (procs E j))) (h_log s' j)"
    "hinv ids s'" "cinv SS sinv ids D" and t: "h_term s i = currentTerm (node (procs D i))" "h_term s' j = currentTerm (node (procs E j))"
    and e: "einv ids (view E (h_ballots s') (h_won s'))"
    using s s'(1) i by (auto simp: related_def)
  have fin: "finite ids" using p(6) i(1) member_finite unfolding cinv_def by blast
  let ?q = "take (unat (commitIndex (node (procs D i)))) (h_log s i)"
  have st: "settled ids s' (h_term s i) ?q" using p(1) s'(2) by (simp add: proc_inv_def commit_inv_def)
  have "prefix ?q (h_log s' j)" if lead: "state (node (procs E j)) = Leader" "currentTerm (node (procs D i)) \<le> currentTerm (node (procs E j))"
  proof -
    have "won s' (h_term s' j)" using einv_leader [OF e lead(1)] t(2) by (auto simp: won_def)
    moreover have "h_log s' j = h_lead s' (h_term s' j)" using p(2) lead(1) by (simp add: proc_inv_def leader_inv_def)
    ultimately show ?thesis using settled_lead [OF fin p(5) st] lead(2) t by simp
  qed
  moreover have "settled ids s' (h_term s' j) (take (unat (commitIndex (node (procs E j)))) (h_log s' j))"
    using p(2) by (simp add: proc_inv_def commit_inv_def)
  ultimately show thesis
    using p settled_agree [OF fin p(5) st] by (intro that [of "h_log s i" "h_log s' j" ?q])
      (auto simp: proc_inv_def commit_inv_def fsm_inv_def)
qed

lemma get_agree:
  assumes "repr linv lmap l xs" and "repr linv lmap l' ys" and "prefix (take n xs) ys" and "n \<le> length xs" and "0 < m" "unat m \<le> n"
  shows "\<exists>e. GetLog LS l m = Inr e \<and> GetLog LS l' m = Inr e"
proof -
  have m: "m \<noteq> 0" "0 < unat m" using assms(5) by (auto simp: word_less_nat_alt)
  have "take (unat m) ys = take (unat m) xs \<and> unat m \<le> length ys" using take_of_prefix [OF assms(3,4,6)] .
  then have "ys ! (unat m - 1) = xs ! (unat m - 1)" "unat m \<le> length ys"
    using m nth_take [of "unat m - 1" "unat m"] by (metis diff_less zero_less_one)+
  then show ?thesis using repr_get [OF assms(1) m(1)] repr_get [OF assms(2) m(1)] assms(4,6) by simp
qed

end

end
