(* ===== verification/Raft_Agreement.thy ===== *)
theory Raft_Agreement
  imports Raft_Safety
begin

text \<open>
  The properties of a cluster that theories \<open>Raft_Matching\<close> and \<open>Raft_Safety\<close> lead to: log matching, leader
  completeness, state machine safety, and the agreement of the replicas; with a run of three nodes
  that elects a leader, replicates, commits and applies its first entry.
\<close>

section \<open>Log matching\<close>

text \<open>
  C9. Log matching, restricted to runs that satisfy \<open>fresh\<close> and \<open>steady\<close> in each step: no reply with a later term is handled by a node
  that does not lead, no node that was deposed between its election and its first entry writes that entry, no term
  reaches \<open>2 ^ 64 - 1\<close> and no log position \<open>2 ^ 64 - 2\<close>. In every such run from empty logs, where requests and votes may be delayed, lost,
  repeated and reordered and nodes may crash and start again on their stores: if two nodes have
  an entry of the same term at the same index, then they have the same entries, commands included, at
  every index up to it. The program has other runs, and breaks the property in them: the deposed node adds an entry in
  the term of another leader (\<open>deposed_leader_appends_no_op\<close>, theory \<open>Raft_Runs\<close>).
\<close>

theorem cluster_log_matching:
  assumes "log_store LS linv lmap" and "stable_store SS sinv" and "cluster_init SS sinv ids C"
    and "\<forall>i \<in> ids. repr linv lmap (logStore (node (procs C i))) []" and "steady_run LS SS A ids C D"
    and "i \<in> ids" and "j \<in> ids"
    and "GetLog LS (logStore (node (procs D i))) n = Inr e" and "GetLog LS (logStore (node (procs D j))) n = Inr e'"
    and "Term e = Term e'" and "0 < m" and "m \<le> n"
  shows "\<exists>d. GetLog LS (logStore (node (procs D i))) m = Inr d \<and> GetLog LS (logStore (node (procs D j))) m = Inr d"
proof -
  have rs: "raft_stores LS linv lmap SS sinv" using assms(1,2) by (simp add: raft_stores_def)
  have "raft_stores.minv linv lmap SS sinv ids D"
    using raft_stores.minv_run [OF rs assms(5)] raft_stores.minv_init [OF rs assms(3,4)] by blast
  then obtain xs ys where "repr linv lmap (logStore (node (procs D i))) xs" "repr linv lmap (logStore (node (procs D j))) ys"
    "log_matching xs ys" using raft_stores.minv_matching [OF rs _ assms(6,7)] by blast
  from raft_stores.matching_get [OF rs this assms(8-)] show ?thesis .
qed

section \<open>Leader completeness and state machine safety\<close>

text \<open>
  A safe run satisfies \<open>fresh\<close>, \<open>steady\<close> and \<open>honest\<close> in each step, and a node that starts again begins with the initial state
  machine. \<open>honest\<close>: a reply to a replicator is the answer of the peer to a request of this life of
  the node, and a successful one is handled while the node leads.
\<close>

text \<open>
  C7. Leader completeness, restricted to safe runs: each step satisfies \<open>fresh\<close>, \<open>steady\<close> and \<open>honest\<close>, so a node that no longer leads handles
  no reply with a later term and no successful reply, a deposed node does not write the first entry of its
  leadership, and replies answer requests of this life of the node. In every such run of a cluster an entry that one node has
  committed at some time is in the log of every node that leads, then or later, in the same or a later term. The program has
  other runs, in which a node commits what no majority has (\<open>late_success_commits\<close>) and a later leader need not have it.
\<close>

theorem leader_completeness:
  assumes "log_store LS linv lmap" and "stable_store SS sinv" and "cluster_start SS sinv (repr linv lmap) ids f C"
    and "safe_run LS SS A ids f C silent D u" and "safe_run LS SS A ids f D u E v" and "i \<in> ids" and "j \<in> ids"
    and "0 < m" and "m \<le> commitIndex (node (procs D i))"
    and "state (node (procs E j)) = Leader" and "currentTerm (node (procs D i)) \<le> currentTerm (node (procs E j))"
  shows "\<exists>e. GetLog LS (logStore (node (procs D i))) m = Inr e \<and> GetLog LS (logStore (node (procs E j))) m = Inr e"
proof -
  have rs: "raft_stores LS linv lmap SS sinv" using assms(1,2) by (simp add: raft_stores_def)
  show ?thesis
    by (rule raft_stores.committed_agree [OF rs assms(3-7)])
      (use raft_stores.get_agree [OF rs _ _ _ _ assms(8)] assms(9-11) in \<open>auto simp: word_le_nat_alt\<close>)
qed

text \<open>
  C4. State machine safety. In every safe run of a cluster: if two nodes have committed the same index, at
  the same or at different times, with crashes in between, then they have the same entry there. No
  committed entry is ever replaced.
\<close>

theorem state_machine_safety:
  assumes "log_store LS linv lmap" and "stable_store SS sinv" and "cluster_start SS sinv (repr linv lmap) ids f C"
    and "safe_run LS SS A ids f C silent D u" and "safe_run LS SS A ids f D u E v" and "i \<in> ids" and "j \<in> ids"
    and "0 < m" and "m \<le> commitIndex (node (procs D i))" and "m \<le> commitIndex (node (procs E j))"
  shows "\<exists>e. GetLog LS (logStore (node (procs D i))) m = Inr e \<and> GetLog LS (logStore (node (procs E j))) m = Inr e"
proof -
  have rs: "raft_stores LS linv lmap SS sinv" using assms(1,2) by (simp add: raft_stores_def)
  show ?thesis
  proof (rule raft_stores.committed_agree [OF rs assms(3-7)])
    let ?n = "unat (commitIndex (node (procs D i)))" and ?k = "unat (commitIndex (node (procs E j)))"
    fix xs ys q
    assume xs: "repr linv lmap (logStore (node (procs D i))) xs" "?n \<le> length xs" "q = take ?n xs"
      and ys: "repr linv lmap (logStore (node (procs E j))) ys" "?k \<le> length ys"
      and "prefix q (take ?k ys) \<or> prefix (take ?k ys) q"
    then have "prefix (take ?n xs) ys \<or> prefix (take ?k ys) xs" by (auto intro: prefix_order.trans take_is_prefix)
    then show ?thesis
      using raft_stores.get_agree [OF rs xs(1) ys(1) _ xs(2) assms(8)] raft_stores.get_agree [OF rs ys(1) xs(1) _ ys(2) assms(8)] assms(9,10)
      by (auto simp: word_le_nat_alt)
  qed
qed

text \<open>The states of two nodes, at the same or at different times, are on one path of the state machine.\<close>

lemma replicas_path:
  assumes "log_store LS linv lmap" and "stable_store SS sinv" and "cluster_start SS sinv (repr linv lmap) ids f C"
    and "safe_run LS SS A ids f C silent D u" and "safe_run LS SS A ids f D u E v" and "i \<in> ids" and "j \<in> ids"
  obtains ps qs where "run_fsm A f ps = Some (Ret (node_fsm (node (procs D i))))" "length ps = unat (lastApplied (node (procs D i)))"
    "run_fsm A f qs = Some (Ret (node_fsm (node (procs E j))))" "length qs = unat (lastApplied (node (procs E j)))"
    "prefix ps qs \<or> prefix qs ps"
proof -
  have rs: "raft_stores LS linv lmap SS sinv" using assms(1,2) by (simp add: raft_stores_def)
  show ?thesis
  proof (rule raft_stores.committed_agree [OF rs assms(3-7)])
    let ?n = "unat (commitIndex (node (procs D i)))" and ?k = "unat (commitIndex (node (procs E j)))"
    let ?a = "unat (lastApplied (node (procs D i)))" and ?b = "unat (lastApplied (node (procs E j)))"
    fix xs ys q
    assume xs: "?n \<le> length xs" "q = take ?n xs" "applied A f xs (node (procs D i))" "lastApplied (node (procs D i)) \<le> commitIndex (node (procs D i))"
      and ys: "?k \<le> length ys" "applied A f ys (node (procs E j))" "lastApplied (node (procs E j)) \<le> commitIndex (node (procs E j))"
      and agree: "prefix q (take ?k ys) \<or> prefix (take ?k ys) q"
    have "prefix (take ?a xs) q" "prefix (take ?b ys) (take ?k ys)"
      using xs(2,4) ys(3) take_is_prefix [of ?a "take ?n xs"] take_is_prefix [of ?b "take ?k ys"]
      by (simp_all add: word_le_nat_alt min_absorb1)
    then have "prefix (take ?a xs) (take ?b ys) \<or> prefix (take ?b ys) (take ?a xs)"
      using agree by (meson prefix_order.trans prefix_same_cases)
    then show ?thesis using that [of "take ?a xs" "take ?b ys"] xs(3) ys(2) by (simp add: applied_def)
  qed
qed

text \<open>
  C8. The replicas agree, restricted to safe runs: each step satisfies \<open>fresh\<close>, \<open>steady\<close> and \<open>honest\<close>, so a node that no longer leads handles
  no reply with a later term and no successful reply, a deposed node does not write the first entry of its
  leadership, and replies answer requests of this life of the node. In every such run of a cluster, whatever the state machine is, two nodes
  that have applied the same number of entries, at the same or at different times, are in the same state. The program has other
  runs, in which a node commits, and then applies, an entry that no majority has (\<open>late_success_commits\<close>).
\<close>

theorem replicas_agree:
  assumes "log_store LS linv lmap" and "stable_store SS sinv" and "cluster_start SS sinv (repr linv lmap) ids f C"
    and "safe_run LS SS A ids f C silent D u" and "safe_run LS SS A ids f D u E v" and "i \<in> ids" and "j \<in> ids"
    and "lastApplied (node (procs D i)) = lastApplied (node (procs E j))"
  shows "node_fsm (node (procs D i)) = node_fsm (node (procs E j))"
  by (rule replicas_path [OF assms(1-7)]) (use assms(8) in \<open>auto simp: prefix_def\<close>)

text \<open>
  Safe runs leave out the late success: \<open>replicateOnce\<close> does not look whether the node still leads. Here \<open>b\<close>
  led term 4, when \<open>a\<close> and \<open>c\<close> had two entries of term 2; now it follows the leader of term 5, which has
  replaced them in its log. A late successful reply to a heartbeat makes it commit the second entry,
  which \<open>a\<close> and \<open>c\<close> do not have.
\<close>

definition sample_late :: "(InmemLogStore, InmemStableStore, nat, nat) RaftNode" where
  "sample_late = (sample_node ''b'' [sample_entry 1 3 [], sample_entry 2 5 []])
     \<lparr>currentTerm := 5, peers := [(''a'', 0), (''c'', 1), (''d'', 2), (''e'', 3)],
      peer_heap := map (\<lambda>(i, m). \<lparr>ps_id = i, ps_addr = i, nextIndex = m + 1, matchIndex = m, triggerCh = False\<rparr>)
        [(''a'', 2), (''c'', 2), (''d'', 0), (''e'', 0)]\<rparr>"

lemma late_success_commits:
  "state sample_late = Follower \<and> commitIndex sample_late = 0 \<and>
   commitIndex (replicateOnce_response InmemLog InmemStable sample_late 0 [] \<lparr>aer_Term = 4, Success = True, ConflictTerm = 0, ConflictIndex = 0\<rparr>) = 2"
proof -
  have "repr inmem_linv inmem_lmap (logStore sample_late) [sample_entry 1 3 [], sample_entry 2 5 []]"
    by (simp add: sample_late_def sample_node_def, rule inmem_repr, simp add: log_ok_def less_Suc_eq)
  then have "fst (LastIndex InmemLog (logStore sample_late)) = 2" "GetLog InmemLog (logStore sample_late) 2 = Inr (sample_entry 2 5 [])"
    using inmem_log.repr_last [of "logStore sample_late"] inmem_log.repr_get [of "logStore sample_late" _ 2] by (simp_all add: last_of_def)
  moreover have "majorityMatch [2, 2, 2, 0, 0] = 2" by (simp add: majorityMatch_def)
  ultimately show ?thesis
    by (simp add: sample_late_def replicateOnce_response_def recordMatch_def advanceCommitIndex_def matches_def Let_def)
      (simp add: sample_node_def notifyCommit_def)
qed

lemma safe_run_steady:
  assumes "safe_run LS SS A ids f D u E v" and "steady_run LS SS A ids C D"
  shows "steady_run LS SS A ids C E"
  using assms by (induction rule: safe_run.induct) (blast intro: steady_run.step)+

section \<open>A run\<close>

text \<open>
  The sample run goes on: \<open>b\<close> begins its leadership, writes its first entry and sends it to \<open>a\<close>, which
  appends it and says so; \<open>b\<close> commits and applies it, and \<open>a\<close> does so after the next heartbeat.
\<close>

definition sample_led :: "(InmemLogStore, InmemStableStore, nat, nat) RaftNode" where
  "sample_led = appendNoOp InmemLog (initLeader InmemLog sample_elected)"

definition sample_first :: AppendEntriesRequest where
  "sample_first =
     \<lparr>ae_Term = 1, LeaderID = ''b'', PrevLogIndex = 0, PrevLogTerm = 0, Entries = [sample_entry 1 1 []], LeaderCommit = 0\<rparr>"

definition sample_joined :: "(InmemLogStore, InmemStableStore, nat, nat) RaftNode" where
  "sample_joined = fst (the (handleAppendEntries InmemLog InmemStable sample_elector sample_first))"

definition sample_ok :: AppendEntriesResponse where
  "sample_ok = \<lparr>aer_Term = 1, Success = True, ConflictTerm = 0, ConflictIndex = 0\<rparr>"

definition sample_sure :: "(InmemLogStore, InmemStableStore, nat, nat) RaftNode" where
  "sample_sure = replicateOnce_response InmemLog InmemStable sample_led 0 [sample_entry 1 1 []] sample_ok"

definition sample_second :: AppendEntriesRequest where
  "sample_second =
     \<lparr>ae_Term = 1, LeaderID = ''b'', PrevLogIndex = 1, PrevLogTerm = 1, Entries = [], LeaderCommit = 1\<rparr>"

definition sample_told :: "(InmemLogStore, InmemStableStore, nat, nat) RaftNode" where
  "sample_told = fst (the (handleAppendEntries InmemLog InmemStable sample_joined sample_second))"

definition sample_done :: "(InmemLogStore, InmemStableStore, nat, nat) RaftNode \<Rightarrow> (InmemLogStore, InmemStableStore, nat, nat) RaftNode" where
  "sample_done r = r\<lparr>commitNotifyCh := False, lastApplied := 1\<rparr>"

definition sample_scene :: "(InmemLogStore, InmemStableStore, nat, nat) Process \<Rightarrow>
    (InmemLogStore, InmemStableStore, nat, nat) Process \<Rightarrow> AppendEntriesRequest set \<Rightarrow>
    (InmemLogStore, InmemStableStore, nat, nat) Cluster" where
  "sample_scene P Q S = sample_after\<lparr>procs := (procs sample_after)(''a'' := P, ''b'' := Q), sentAppends := S\<rparr>"

lemma sample_elected_rest: "config sample_elected = sample_config ''b''" "commitIndex sample_elected = 0" "peer_heap sample_elected = []"
proof -
  show "config sample_elected = sample_config ''b''" "commitIndex sample_elected = 0"
    by (simp_all add: sample_elected_def receiveVote_def checkVoteTerm_def countVote_def sample_candidate_fields)
  show "peer_heap sample_elected = []"
    by (simp add: sample_elected_def receiveVote_def checkVoteTerm_def countVote_def sample_candidate_def startElection_def
        electionTimeout_def split_beta)
      (simp add: sample_node_def becomeLeader_def persistState_def Let_def split_beta)
qed

lemma sample_new_leader:
  "logStore sample_led = fst (inmem_StoreLogs NewInmemLogStore [sample_entry 1 1 []])" "state sample_led = Leader"
  "currentTerm sample_led = 1" "config sample_led = sample_config ''b''" "commitIndex sample_led = 0"
  "length (peer_heap sample_led) = 2" "nextIndex (peer_heap sample_led ! 0) = 1"
proof -
  have l: "LastIndex InmemLog NewInmemLogStore = (0, None)"
    using inmem_log.repr_last [OF inmem_repr_New] by (simp add: last_of_def)
  have s: "StoreLog InmemLog NewInmemLogStore e = (fst (inmem_StoreLogs NewInmemLogStore [e]), None)" for e
    by (simp add: StoreLog_def InmemLog_def inmem_StoreLogs_def)
  have h: "peer_heap (initLeader InmemLog sample_elected) =
      [newPeerState 0 \<lparr>ID = ''a'', Address = ''A''\<rparr>, newPeerState 0 \<lparr>ID = ''c'', Address = ''C''\<rparr>]"
    "peers (initLeader InmemLog sample_elected) = [(''a'', 0), (''c'', 1)]"
    by (simp_all add: initLeader_def sample_elected_rest sample_config_def addPeer_def sample_logs l)
  show "logStore sample_led = fst (inmem_StoreLogs NewInmemLogStore [sample_entry 1 1 []])" "state sample_led = Leader"
    "currentTerm sample_led = 1" "config sample_led = sample_config ''b''" "commitIndex sample_led = 0"
    "length (peer_heap sample_led) = 2" "nextIndex (peer_heap sample_led ! 0) = 1"
    by (simp_all add: sample_led_def appendNoOp_def Let_def sample_logs l s sample_wins sample_elected_rest sample_entry_def
        triggerReplication_def h newPeerState_def)
qed

lemma sample_one_entry: "repr inmem_linv inmem_lmap (fst (inmem_StoreLogs NewInmemLogStore [sample_entry 1 1 []])) [sample_entry 1 1 []]"
  by (rule inmem_repr) (simp add: log_ok_def)

lemma sample_first_sent: "replicateOnce_request InmemLog sample_led 0 = Some (Some sample_first)"
proof -
  obtain req where req: "replicateOnce_request InmemLog sample_led 0 = Some (Some req)" "ae_Term req = 1" "LeaderCommit req = 0"
    "LeaderID req = ''b''" "Suc (unat (PrevLogIndex req)) = unat (1 :: u64)"
    "PrevLogTerm req = term_at [sample_entry 1 1 []] (unat (PrevLogIndex req))"
    "Entries req = drop (unat (PrevLogIndex req)) [sample_entry 1 1 []]"
    using inmem_log.replicateOnce_request_repr [of sample_led "[sample_entry 1 1 []]" 0] sample_one_entry
    by (auto simp: sample_new_leader sample_config_def)
  then have "PrevLogIndex req = 0" by (simp add: unat_eq_0)
  then have "req = sample_first" using req by (simp add: sample_first_def term_at_def)
  then show ?thesis using req(1) by simp
qed

text \<open>No node has applied anything yet.\<close>

definition sample_idle :: "(InmemLogStore, InmemStableStore, nat, nat) RaftNode \<Rightarrow> bool" where
  "sample_idle r \<longleftrightarrow> lastApplied r = 0 \<and> pendingFutures r = []"

lemma sample_idle: "sample_idle sample_led" "sample_idle sample_elector"
proof -
  have node: "sample_idle (sample_node i [])" for i by (simp add: sample_idle_def sample_node_def)
  have "sample_idle sample_candidate"
    using node by (simp add: sample_idle_def sample_candidate_def startElection_def electionTimeout_def split_beta)
  then have "sample_idle sample_elected"
    by (simp add: sample_elected_def receiveVote_def checkVoteTerm_def countVote_def sample_candidate_fields sample_idle_def)
  then show "sample_idle sample_led"
    by (simp add: sample_led_def appendNoOp_def Let_def initLeader_def sample_elected_rest sample_config_def addPeer_def
        triggerReplication_def sample_idle_def split_beta split: prod.split option.split)
  show "sample_idle sample_elector"
    using node [of "''a''"] by (simp add: sample_idle_def sample_elector_def handleRequestVote_def Let_def split_beta)
qed

lemma sample_first_taken:
  "handleAppendEntries InmemLog InmemStable sample_elector sample_first =
     Some (sample_joined, \<lparr>aer_Term = 1, Success = True, ConflictTerm = 0, ConflictIndex = 0\<rparr>, True)"
  "repr inmem_linv inmem_lmap (logStore sample_joined) [sample_entry 1 1 []]" "state sample_joined = Follower"
  "currentTerm sample_joined = 1" "commitIndex sample_joined = 0" "sample_idle sample_joined"
proof -
  have t: "currentTerm sample_elector = 1"
    using sample_grant handleRequestVote_ballot [of InmemLog InmemStable "sample_node ''a'' []" "sample_vote ''b'' 1"]
    by (simp add: sample_vote_def sample_node_def)
  then have n: "\<not> ae_Term sample_first < currentTerm sample_elector" by (simp add: sample_first_def)
  have c: "commitIndex sample_elector = 0"
    by (simp add: sample_elector_def handleRequestVote_def Let_def split_beta) (simp add: sample_node_def)
  have e: "repr inmem_linv inmem_lmap (logStore sample_elector) []" by (simp add: sample_logs inmem_repr_New)
  obtain l where l: "handleAppendEntries InmemLog InmemStable sample_elector sample_first =
      Some (updateCommit InmemLog 0 ((acceptLeader InmemStable sample_first sample_elector)\<lparr>logStore := l\<rparr>),
        \<lparr>aer_Term = 1, Success = True, ConflictTerm = 0, ConflictIndex = 0\<rparr>, True)"
    "repr inmem_linv inmem_lmap l [sample_entry 1 1 []]"
    using inmem_log.handleAppendEntries_accept [where SS = InmemStable, OF e n] acceptLeader_term [OF n, of InmemStable]
    by (auto simp: prev_ok_def log_ok_def sample_first_def)
  then show "handleAppendEntries InmemLog InmemStable sample_elector sample_first =
     Some (sample_joined, \<lparr>aer_Term = 1, Success = True, ConflictTerm = 0, ConflictIndex = 0\<rparr>, True)"
    "repr inmem_linv inmem_lmap (logStore sample_joined) [sample_entry 1 1 []]" "state sample_joined = Follower"
    "currentTerm sample_joined = 1" "commitIndex sample_joined = 0" "sample_idle sample_joined"
    using sample_idle(2) acceptLeader_term [OF n, of InmemStable] c
    by (simp_all add: sample_joined_def sample_idle_def updateCommit_def sample_first_def)
qed

lemma sample_short:
  "fst (LastIndex InmemLog NewInmemLogStore) = 0"
  "fst (LastIndex InmemLog (fst (inmem_StoreLogs NewInmemLogStore [sample_entry 1 1 []]))) = 1"
  "fst (LastIndex InmemLog (logStore sample_joined)) = 1" "(0 :: u64) < - 2" "(1 :: u64) < - 2"
  using inmem_log.repr_last [OF inmem_repr_New] inmem_log.repr_last [OF sample_one_entry] inmem_log.repr_last [OF sample_first_taken(2)]
  by (simp_all add: last_of_def sample_entry_def word_less_nat_alt)

text \<open>The reply of \<open>a\<close> gives \<open>b\<close> a majority.\<close>

lemma sample_led_peers:
  "peers sample_led = [(''a'', 0), (''c'', 1)]" "ps_id (peer_heap sample_led ! 0) = ''a''"
  "matchIndex (peer_heap sample_led ! 0) = 0" "matchIndex (peer_heap sample_led ! Suc 0) = 0"
proof -
  have h: "peer_heap (initLeader InmemLog sample_elected) =
      [newPeerState 0 \<lparr>ID = ''a'', Address = ''A''\<rparr>, newPeerState 0 \<lparr>ID = ''c'', Address = ''C''\<rparr>]"
    "peers (initLeader InmemLog sample_elected) = [(''a'', 0), (''c'', 1)]"
    by (simp_all add: initLeader_def sample_elected_rest sample_config_def addPeer_def sample_logs sample_short)
  show "peers sample_led = [(''a'', 0), (''c'', 1)]" "ps_id (peer_heap sample_led ! 0) = ''a''"
    "matchIndex (peer_heap sample_led ! 0) = 0" "matchIndex (peer_heap sample_led ! Suc 0) = 0"
    by (simp_all add: sample_led_def appendNoOp_def Let_def triggerReplication_def h newPeerState_def split_beta split: prod.split option.split)
qed

lemma sample_majority:
  "logStore sample_sure = logStore sample_led" "state sample_sure = Leader" "currentTerm sample_sure = 1" "commitIndex sample_sure = 1"
  "config sample_sure = sample_config ''b''" "commitNotifyCh sample_sure" "length (peer_heap sample_sure) = 2" "nextIndex (peer_heap sample_sure ! 0) = 2"
  "sample_idle sample_sure"
proof -
  let ?r = "sample_led\<lparr>peer_heap := (peer_heap sample_led)[0 := recordMatch [sample_entry 1 1 []] (peer_heap sample_led ! 0)]\<rparr>"
  have "matches InmemLog ?r = [1, 1, 0]"
    using sample_new_leader(6) by (simp add: matches_def sample_new_leader sample_led_peers sample_short recordMatch_def sample_entry_fields)
  moreover have "majorityMatch [1, 1, 0] = 1" by (simp add: majorityMatch_def)
  moreover have "GetLog InmemLog (logStore sample_led) 1 = Inr (sample_entry 1 1 [])"
    using inmem_log.repr_get [OF sample_one_entry, of 1] by (simp add: sample_new_leader)
  ultimately have sure: "sample_sure = notifyCommit (?r\<lparr>commitIndex := 1\<rparr>)"
    by (simp add: sample_sure_def replicateOnce_response_def sample_ok_def sample_new_leader advanceCommitIndex_def sample_entry_def)
  show "logStore sample_sure = logStore sample_led" "state sample_sure = Leader" "currentTerm sample_sure = 1" "commitIndex sample_sure = 1"
    "config sample_sure = sample_config ''b''" "commitNotifyCh sample_sure" "length (peer_heap sample_sure) = 2" "nextIndex (peer_heap sample_sure ! 0) = 2"
    "sample_idle sample_sure"
    using sample_idle(1) by (simp_all add: sure notifyCommit_def sample_new_leader sample_idle_def recordMatch_def sample_entry_fields)
qed

lemma sample_second_sent: "replicateOnce_request InmemLog (sample_done sample_sure) 0 = Some (Some sample_second)"
proof -
  obtain req where req: "replicateOnce_request InmemLog (sample_done sample_sure) 0 = Some (Some req)" "ae_Term req = 1"
    "LeaderCommit req = 1" "LeaderID req = ''b''" "Suc (unat (PrevLogIndex req)) = unat (2 :: u64)"
    "PrevLogTerm req = term_at [sample_entry 1 1 []] (unat (PrevLogIndex req))"
    "Entries req = drop (unat (PrevLogIndex req)) [sample_entry 1 1 []]"
    using inmem_log.replicateOnce_request_repr [of "sample_done sample_sure" "[sample_entry 1 1 []]" 0] sample_one_entry
    by (auto simp: sample_done_def sample_majority sample_new_leader sample_config_def)
  then have "PrevLogIndex req = 1" by (simp add: word_unat_eq_iff)
  then have "req = sample_second" using req by (simp add: sample_second_def term_at_def sample_entry_def)
  then show ?thesis using req(1) by simp
qed

lemma sample_second_taken:
  "handleAppendEntries InmemLog InmemStable sample_joined sample_second =
     Some (sample_told, \<lparr>aer_Term = 1, Success = True, ConflictTerm = 0, ConflictIndex = 0\<rparr>, True)"
  "repr inmem_linv inmem_lmap (logStore sample_told) [sample_entry 1 1 []]" "state sample_told = Follower" "commitIndex sample_told = 1"
  "commitNotifyCh sample_told" "sample_idle sample_told"
proof -
  have n: "\<not> ae_Term sample_second < currentTerm sample_joined" by (simp add: sample_second_def sample_first_taken)
  obtain l where l: "handleAppendEntries InmemLog InmemStable sample_joined sample_second =
      Some (updateCommit InmemLog 1 ((acceptLeader InmemStable sample_second sample_joined)\<lparr>logStore := l\<rparr>),
        \<lparr>aer_Term = 1, Success = True, ConflictTerm = 0, ConflictIndex = 0\<rparr>, True)"
    "repr inmem_linv inmem_lmap l [sample_entry 1 1 []]"
    using inmem_log.handleAppendEntries_accept [where SS = InmemStable, OF sample_first_taken(2) n] acceptLeader_term [OF n, of InmemStable]
    by (auto simp: prev_ok_def log_ok_def sample_second_def term_at_def sample_entry_def)
  then have "fst (LastIndex InmemLog l) = 1" using inmem_log.repr_last [OF l(2)] by (simp add: last_of_def sample_entry_def)
  then show "handleAppendEntries InmemLog InmemStable sample_joined sample_second =
     Some (sample_told, \<lparr>aer_Term = 1, Success = True, ConflictTerm = 0, ConflictIndex = 0\<rparr>, True)"
    "repr inmem_linv inmem_lmap (logStore sample_told) [sample_entry 1 1 []]" "state sample_told = Follower" "commitIndex sample_told = 1"
    "commitNotifyCh sample_told" "sample_idle sample_told"
    using l sample_first_taken(5,6) by (simp_all add: sample_told_def updateCommit_def notifyCommit_def sample_idle_def)
qed

lemma sample_applies:
  assumes "repr inmem_linv inmem_lmap (logStore r) [sample_entry 1 1 []]" and "sample_idle r"
  shows "applyEntry InmemLog sample_fsm 1 (r\<lparr>commitNotifyCh := False\<rparr>) = Some (Ret (sample_done r))"
  using assms inmem_log.repr_get [OF assms(1), of 1]
  by (simp add: applyEntry_def sample_idle_def sample_done_def sample_entry_def)

definition sample_wire :: "(nat \<times> AppendEntriesRequest) set \<Rightarrow> (string \<times> AppendEntriesRequest \<times> AppendEntriesResponse) set \<Rightarrow> Wire" where
  "sample_wire F R = \<lparr>inFlight = (\<lambda>i. {})(''b'' := F), answered = R\<rparr>"

abbreviation sample_run :: "(InmemLogStore, InmemStableStore, nat, nat) Cluster \<Rightarrow> Wire \<Rightarrow>
    (InmemLogStore, InmemStableStore, nat, nat) Cluster \<Rightarrow> Wire \<Rightarrow> bool" where
  "sample_run \<equiv> safe_run InmemLog InmemStable sample_fsm {''a'', ''b'', ''c''} 0"

lemma sample_act:
  assumes "sample_run C w D u" and "i \<in> {''a'', ''b'', ''c''}" and "pstep InmemLog InmemStable sample_fsm (procs D i) l P"
    and "admissible D i l" and "fresh D i (Some l)" and "steady InmemLog {''a'', ''b'', ''c''} D i E" and "honest D u i (Some l)"
    and "E = publish i l (D\<lparr>procs := (procs D)(i := P)\<rparr>)" and "v = transmit i (Some l) u"
  shows "sample_run C w E v"
  using safe_run.step [OF assms(1), of i "Some l" E] cstep.act [OF assms(2-4)] assms(5-9) by simp

lemmas sample_sims = sample_scene_def sample_after_def sample_cluster_def start_def steady_def sample_short sample_logs sample_wins
  sample_new_leader sample_majority admissible_def fresh_def publish_def honest_def transmit_def sample_wire_def

lemma sample_elects: "sample_run sample_cluster silent sample_after silent"
proof (rule sample_scenario)
  fix D :: "(InmemLogStore, InmemStableStore, nat, nat) Cluster" and i l P
  assume run: "sample_run sample_cluster silent D silent" and quiet: "sample_quiet D" "election_label l"
    and at: "i \<in> {''a'', ''b'', ''c''}" "pstep InmemLog InmemStable sample_fsm (procs D i) l P" "admissible D i l" "fresh D i (Some l)"
  let ?E = "publish i l (D\<lparr>procs := (procs D)(i := P)\<rparr>)"
  have "steady InmemLog {''a'', ''b'', ''c''} D i ?E" using quiet(1) by (simp add: steady_def sample_quiet_def sample_short)
  moreover have "honest D silent i (Some l)" "silent = transmit i (Some l) silent"
    using quiet(2) by (auto simp: election_label_def honest_def transmit_def split: label.splits Command.splits)
  ultimately show "sample_run sample_cluster silent ?E silent" using sample_act [OF run at _ _ HOL.refl] by blast
qed (rule safe_run.here)

text \<open>Up to the time when \<open>b\<close> has committed and applied its first entry.\<close>

definition sample_mid :: "(InmemLogStore, InmemStableStore, nat, nat) Cluster" where
  "sample_mid = sample_scene \<lparr>node = sample_joined, pc = InFollower, applying = None\<rparr>
     \<lparr>node = sample_done sample_sure, pc = InLeader, applying = Some (2, 1)\<rparr> {sample_first}"

lemma sample_commits:
  "sample_run sample_cluster silent sample_mid (sample_wire {(0, sample_first)} {(''a'', sample_first, sample_ok)})"
proof -
  let ?a = "\<lparr>node = sample_elector, pc = InFollower, applying = None\<rparr>" and ?a' = "\<lparr>node = sample_joined, pc = InFollower, applying = None\<rparr>"
  let ?b = "\<lambda>r x. \<lparr>node = r, pc = InLeader, applying = x\<rparr>" and ?r = "sample_run sample_cluster silent"
  have 1: "?r (sample_scene ?a \<lparr>node = initLeader InmemLog sample_elected, pc = LeaderReady, applying = None\<rparr> {}) silent"
    by (rule sample_act [OF sample_elects, of "''b''" Internal], simp, rule run_leader) (simp_all add: sample_sims)
  have 2: "?r (sample_scene ?a (?b sample_led None) {}) silent"
    by (rule sample_act [OF 1, of "''b''" Internal], simp, rule leader_start [where r = sample_led and pc' = InLeader])
      (simp_all add: sample_sims leader_next_def sample_led_def [symmetric])
  have 3: "?r (sample_scene ?a (?b sample_led None) {sample_first}) (sample_wire {(0, sample_first)} {})"
    by (rule sample_act [OF 2, of "''b''" "SendAppend 0 sample_first"], simp, rule replicate_send)
      (simp_all add: sample_sims sample_first_sent silent_def)
  have 4: "?r (sample_scene ?a' (?b sample_led None) {sample_first}) (sample_wire {(0, sample_first)} {(''a'', sample_first, sample_ok)})"
    by (rule sample_act [OF 3, of "''a''" "ServeRPC (CmdAppendEntries sample_first) (RespAppendEntries sample_ok)"], simp,
        rule follower_rpc [where r = sample_joined and reset = True])
      (simp_all add: sample_sims handleRPC_def sample_first_taken follower_next_def fun_upd_twist sample_ok_def, simp_all add: sample_first_def)
  have 5: "?r (sample_scene ?a' (?b sample_sure None) {sample_first}) (sample_wire {(0, sample_first)} {(''a'', sample_first, sample_ok)})"
    by (rule sample_act [OF 4, of "''b''" "ReceiveAppendReply 0 [sample_entry 1 1 []] sample_ok"], simp, rule replicate_reply)
      (simp_all add: sample_sims sample_led_peers sample_sure_def [symmetric], simp_all add: sample_first_def)
  have 6: "?r (sample_scene ?a' (?b (sample_sure\<lparr>commitNotifyCh := False\<rparr>) (Some (1, 1))) {sample_first})
      (sample_wire {(0, sample_first)} {(''a'', sample_first, sample_ok)})"
    by (rule sample_act [OF 5, of "''b''" Internal], simp, rule apply_start)
      (simp_all add: sample_sims sample_majority(9) [unfolded sample_idle_def])
  show ?thesis
    by (rule sample_act [OF 6, of "''b''" Internal], simp, rule apply_entry [of _ 1 1])
      (simp_all add: sample_sims sample_applies sample_one_entry sample_mid_def)
qed

text \<open>The heartbeat after it tells \<open>a\<close>, which applies the entry too.\<close>

definition sample_end :: "(InmemLogStore, InmemStableStore, nat, nat) Cluster" where
  "sample_end = sample_scene \<lparr>node = sample_done sample_told, pc = InFollower, applying = Some (2, 1)\<rparr>
     \<lparr>node = sample_done sample_sure, pc = InLeader, applying = Some (2, 1)\<rparr> {sample_first, sample_second}"

lemma sample_follows:
  "sample_run sample_mid (sample_wire {(0, sample_first)} {(''a'', sample_first, sample_ok)}) sample_end
     (sample_wire {(0, sample_second), (0, sample_first)} {(''a'', sample_second, sample_ok), (''a'', sample_first, sample_ok)})"
proof -
  let ?w = "\<lambda>R. sample_wire {(0, sample_second), (0, sample_first)} (R \<union> {(''a'', sample_first, sample_ok)})"
  let ?a = "\<lambda>r x. \<lparr>node = r, pc = InFollower, applying = x\<rparr>" and ?b = "\<lparr>node = sample_done sample_sure, pc = InLeader, applying = Some (2, 1)\<rparr>"
  let ?r = "sample_run sample_mid (sample_wire {(0, sample_first)} {(''a'', sample_first, sample_ok)})"
  let ?S = "{sample_first, sample_second}"
  have led: "logStore (sample_done sample_sure) = fst (inmem_StoreLogs NewInmemLogStore [sample_entry 1 1 []])"
    "state (sample_done sample_sure) = Leader" "length (peer_heap (sample_done sample_sure)) = 2"
    by (simp_all add: sample_done_def sample_majority sample_new_leader)
  have log: "fst (LastIndex InmemLog (logStore sample_told)) = 1"
    using inmem_log.repr_last [OF sample_second_taken(2)] by (simp add: last_of_def sample_entry_def)
  note sims = sample_sims led log sample_mid_def
  have 1: "?r (sample_scene (?a sample_joined None) ?b ?S) (?w {})"
    by (rule sample_act [OF safe_run.here, where i = "''b''" and l = "SendAppend 0 sample_second"], simp, rule replicate_send)
      (simp_all add: sims sample_second_sent insert_commute)
  have 2: "?r (sample_scene (?a sample_told None) ?b ?S) (?w {(''a'', sample_second, sample_ok)})"
    by (rule sample_act [OF 1, of "''a''" "ServeRPC (CmdAppendEntries sample_second) (RespAppendEntries sample_ok)"], simp,
        rule follower_rpc [where r = sample_told and reset = True])
      (simp_all add: sims handleRPC_def sample_second_taken follower_next_def fun_upd_twist sample_ok_def, simp_all add: sample_second_def insert_commute)
  have 3: "?r (sample_scene (?a (sample_told\<lparr>commitNotifyCh := False\<rparr>) (Some (1, 1))) ?b ?S) (?w {(''a'', sample_second, sample_ok)})"
    by (rule sample_act [OF 2, of "''a''" Internal], simp, rule apply_start)
      (simp_all add: sims sample_second_taken sample_second_taken(6) [unfolded sample_idle_def] fun_upd_twist)
  have 4: "?r sample_end (?w {(''a'', sample_second, sample_ok)})"
    by (rule sample_act [OF 3, of "''a''" Internal], simp, rule apply_entry [of _ 1 1])
      (simp_all add: sims sample_applies sample_second_taken sample_end_def, rule fun_upd_twist, simp)
  then show ?thesis by (simp add: insert_commute)
qed

lemma sample_run_start: "cluster_start InmemStable (\<lambda>s. True) (repr inmem_linv inmem_lmap) {''a'', ''b'', ''c''} 0 sample_cluster"
proof -
  have "commitIndex (sample_node i []) = 0" "lastApplied (sample_node i []) = 0" "node_fsm (sample_node i []) = 0" for i
    by (simp_all add: sample_node_def)
  then show ?thesis
    using sample_cluster_init by (simp add: cluster_start_def) (simp add: sample_cluster_def start_def sample_logs inmem_repr_New)
qed

lemma sample_ends:
  "GetLog InmemLog (logStore sample_sure) 1 = Inr (sample_entry 1 1 [])" "GetLog InmemLog (logStore sample_told) 1 = Inr (sample_entry 1 1 [])"
  using inmem_log.repr_get [OF sample_one_entry, of 1] inmem_log.repr_get [OF sample_second_taken(2), of 1]
  by (simp_all add: sample_majority sample_new_leader)

lemmas sample_views = sample_mid_def sample_end_def sample_scene_def sample_done_def sample_majority sample_new_leader(3) sample_second_taken

lemma cluster_log_matching_witness:
  "\<exists>d. GetLog InmemLog (logStore (node (procs sample_end ''a''))) 1 = Inr d \<and> GetLog InmemLog (logStore (node (procs sample_end ''b''))) 1 = Inr d"
proof -
  have "\<forall>i \<in> {''a'', ''b'', ''c''}. repr inmem_linv inmem_lmap (logStore (node (procs sample_cluster i))) []"
    using sample_run_start by (simp add: cluster_start_def)
  from cluster_log_matching [OF inmem_log.log_store_axioms inmem_stable.stable_store_axioms sample_cluster_init this
      safe_run_steady [OF sample_follows safe_run_steady [OF sample_commits steady_run.here]], of "''a''" "''b''" 1]
  show ?thesis using sample_ends by (simp add: sample_views)
qed

lemma leader_completeness_witness:
  "\<exists>e. GetLog InmemLog (logStore (node (procs sample_mid ''b''))) 1 = Inr e \<and> GetLog InmemLog (logStore (node (procs sample_end ''b''))) 1 = Inr e"
  using leader_completeness [OF inmem_log.log_store_axioms inmem_stable.stable_store_axioms sample_run_start
      sample_commits sample_follows, of "''b''" "''b''" 1]
  by (simp add: sample_views)

lemma state_machine_safety_witness:
  "\<exists>e. GetLog InmemLog (logStore (node (procs sample_mid ''b''))) 1 = Inr e \<and> GetLog InmemLog (logStore (node (procs sample_end ''a''))) 1 = Inr e"
  using state_machine_safety [OF inmem_log.log_store_axioms inmem_stable.stable_store_axioms sample_run_start
      sample_commits sample_follows, of "''b''" "''a''" 1]
  by (simp add: sample_views)

lemma replicas_agree_witness:
  "lastApplied (node (procs sample_end ''a'')) = 1 \<and> node_fsm (node (procs sample_mid ''b'')) = node_fsm (node (procs sample_end ''a''))"
  using replicas_agree [OF inmem_log.log_store_axioms inmem_stable.stable_store_axioms sample_run_start
      sample_commits sample_follows, of "''b''" "''a''"]
  by (simp add: sample_views)

end
