(* ===== verification/Raft_Opaque.thy ===== *)
theory Raft_Opaque
  imports Raft_History
begin

text \<open>
  Raft does not look into the state machine: every operation of a node other than \<open>applyEntry\<close> carries the
  state machine along, and \<open>applyEntry\<close> only calls it. So a run stays a run when the states of the
  machine are seen through a function that \<open>Apply\<close> respects.
\<close>

named_theorems opaque \<open>operations of a node and a replaced state machine\<close>

abbreviation with_fsm :: "'f \<Rightarrow> ('l, 's, 'f, 'r) RaftNode \<Rightarrow> ('l, 's, 'f, 'r) RaftNode" where
  "with_fsm x r \<equiv> r\<lparr>node_fsm := x\<rparr>"

section \<open>The operations\<close>

lemma opaque_update [opaque]:
  "config_update u1 (with_fsm x r) = with_fsm x (config_update u1 r)"
  "currentTerm_update u2 (with_fsm x r) = with_fsm x (currentTerm_update u2 r)"
  "votedFor_update u3 (with_fsm x r) = with_fsm x (votedFor_update u3 r)"
  "logStore_update u4 (with_fsm x r) = with_fsm x (logStore_update u4 r)"
  "stableStore_update u5 (with_fsm x r) = with_fsm x (stableStore_update u5 r)"
  "state_update u6 (with_fsm x r) = with_fsm x (state_update u6 r)"
  "commitIndex_update u7 (with_fsm x r) = with_fsm x (commitIndex_update u7 r)"
  "lastApplied_update u8 (with_fsm x r) = with_fsm x (lastApplied_update u8 r)"
  "peers_update u9 (with_fsm x r) = with_fsm x (peers_update u9 r)"
  "peer_heap_update u10 (with_fsm x r) = with_fsm x (peer_heap_update u10 r)"
  "leaderID_update u11 (with_fsm x r) = with_fsm x (leaderID_update u11 r)"
  "leaderAddr_update u12 (with_fsm x r) = with_fsm x (leaderAddr_update u12 r)"
  "pendingFutures_update u13 (with_fsm x r) = with_fsm x (pendingFutures_update u13 r)"
  "futures_update u14 (with_fsm x r) = with_fsm x (futures_update u14 r)"
  "applyCh_update u15 (with_fsm x r) = with_fsm x (applyCh_update u15 r)"
  "commitNotifyCh_update u16 (with_fsm x r) = with_fsm x (commitNotifyCh_update u16 r)"
  "shutdownCh_update u17 (with_fsm x r) = with_fsm x (shutdownCh_update u17 r)"
  by simp_all

lemma opaque_ballot [opaque]:
  "persistState SS (with_fsm x r) = with_fsm x (persistState SS r)"
  "stepDown SS t (with_fsm x r) = with_fsm x (stepDown SS t r)"
  "electionTimeout (with_fsm x r) = with_fsm x (electionTimeout r)"
  "set_leaderAddr i (with_fsm x r) = with_fsm x (set_leaderAddr i r)"
  "becomeLeader (with_fsm x r) = with_fsm x (becomeLeader r)"
  by (simp_all add: persistState_def stepDown_def electionTimeout_def set_leaderAddr_def becomeLeader_def Let_def split_beta
      split: option.split)

lemma opaque_election [opaque]:
  "startElection LS SS (with_fsm x r) = map_prod (with_fsm x) id (startElection LS SS r)"
  "immediateMajority (with_fsm x r) = map_prod (with_fsm x) id (immediateMajority r)"
  "receiveVote SS (with_fsm x r) n vote = map_prod (with_fsm x) id (receiveVote SS r n vote)"
  "handleRequestVote LS SS (with_fsm x r) rv = map_prod (with_fsm x) id (handleRequestVote LS SS r rv)"
  by (simp_all add: startElection_def immediateMajority_def receiveVote_def checkVoteTerm_def countVote_def quorum_def
      handleRequestVote_def Let_def split_beta opaque)

lemma opaque_futures [opaque]:
  "respondFuture p e y (with_fsm x r) = with_fsm x (respondFuture p e y r)"
  "failAll err (with_fsm x r) = with_fsm x (failAll err r)"
  "failPendingFutures (with_fsm x r) = with_fsm x (failPendingFutures r)"
  "node_Shutdown (with_fsm x r) = with_fsm x (node_Shutdown r)"
  "applyExpired fut b (with_fsm x r) = with_fsm x (applyExpired fut b r)"
  "node_Apply (with_fsm x r) data way = map_prod (with_fsm x) id (node_Apply r data way)"
proof -
  show respond: "respondFuture p e y (with_fsm x r) = with_fsm x (respondFuture p e y r)" for p e y and r :: "('a, 'b, 'c, 'd) RaftNode"
    by (simp add: respondFuture_def)
  have "foldl (\<lambda>q p. respondFuture p (Some err) None q) (with_fsm x q) ps = with_fsm x (foldl (\<lambda>q p. respondFuture p (Some err) None q) q ps)"
    for err ps and q :: "('a, 'b, 'c, 'd) RaftNode"
    by (induction ps arbitrary: q) (simp_all add: respond)
  then show fail: "failAll err (with_fsm x r) = with_fsm x (failAll err r)" for err and r :: "('a, 'b, 'c, 'd) RaftNode"
    by (simp add: failAll_def)
  show "failPendingFutures (with_fsm x r) = with_fsm x (failPendingFutures r)"
    by (simp add: failPendingFutures_def fail)
  show "node_Shutdown (with_fsm x r) = with_fsm x (node_Shutdown r)"
    by (simp add: node_Shutdown_def fail opaque)
  show "applyExpired fut b (with_fsm x r) = with_fsm x (applyExpired fut b r)"
    by (simp add: applyExpired_def respond)
  show "node_Apply (with_fsm x r) data way = map_prod (with_fsm x) id (node_Apply r data way)"
    by (simp add: node_Apply_def respondFuture_def Let_def split: applyWay.split)
qed

lemma opaque_leader [opaque]:
  "triggerReplication (with_fsm x r) = with_fsm x (triggerReplication r)"
  "initLeader LS (with_fsm x r) = with_fsm x (initLeader LS r)"
  "appendNoOp LS (with_fsm x r) = with_fsm x (appendNoOp LS r)"
  "handleApplyRequest LS req (with_fsm x r) = with_fsm x (handleApplyRequest LS req r)"
  "leader_next (with_fsm x r) = map_prod (with_fsm x) id (leader_next r)"
proof -
  show "triggerReplication (with_fsm x r) = with_fsm x (triggerReplication r)" by (simp add: triggerReplication_def)
  have "foldl (addPeer i) (with_fsm x q) ps = with_fsm x (foldl (addPeer i) q ps)" for i ps and q :: "('a, 'b, 'c, 'd) RaftNode"
    by (induction ps arbitrary: q) (simp_all add: addPeer_def opaque)
  then show "initLeader LS (with_fsm x r) = with_fsm x (initLeader LS r)"
    by (simp add: initLeader_def opaque)
  show "appendNoOp LS (with_fsm x r) = with_fsm x (appendNoOp LS r)"
    "handleApplyRequest LS req (with_fsm x r) = with_fsm x (handleApplyRequest LS req r)"
    by (simp_all add: appendNoOp_def handleApplyRequest_def triggerReplication_def respondFuture_def Let_def split_beta split: option.split)
  show "leader_next (with_fsm x r) = map_prod (with_fsm x) id (leader_next r)" by (simp add: leader_next_def opaque)
qed

lemma opaque_replication [opaque]:
  "replicateOnce_request LS (with_fsm x r) p = replicateOnce_request LS r p"
  "advanceCommitIndex LS (with_fsm x r) = with_fsm x (advanceCommitIndex LS r)"
  "replicateOnce_response LS SS (with_fsm x r) p entries resp = with_fsm x (replicateOnce_response LS SS r p entries resp)"
  "acceptLeader SS req (with_fsm x r) = with_fsm x (acceptLeader SS req r)"
  "updateCommit LS c (with_fsm x r) = with_fsm x (updateCommit LS c r)"
proof -
  have notify: "notifyCommit (with_fsm x q) = with_fsm x (notifyCommit q)" for q :: "('a, 'b, 'c, 'd) RaftNode"
    by (simp add: notifyCommit_def)
  show "replicateOnce_request LS (with_fsm x r) p = replicateOnce_request LS r p" by (simp add: replicateOnce_request_def Let_def cong: option.case_cong)
  have m: "matches LS (with_fsm x q) = matches LS q" for q :: "('a, 'b, 'c, 'd) RaftNode" by (simp add: matches_def)
  show advance: "advanceCommitIndex LS (with_fsm x r) = with_fsm x (advanceCommitIndex LS r)" for r :: "('a, 'b, 'c, 'd) RaftNode"
    by (simp add: advanceCommitIndex_def m Let_def opaque notify split: sum.split)
  show "replicateOnce_response LS SS (with_fsm x r) p entries resp = with_fsm x (replicateOnce_response LS SS r p entries resp)"
    by (simp add: replicateOnce_response_def opaque advance)
  show "acceptLeader SS req (with_fsm x r) = with_fsm x (acceptLeader SS req r)"
    by (simp add: acceptLeader_def Let_def opaque)
  show "updateCommit LS c (with_fsm x r) = with_fsm x (updateCommit LS c r)"
    by (simp add: updateCommit_def Let_def opaque notify)
qed

lemma opaque_handlers [opaque]:
  "handleAppendEntries LS SS (with_fsm x r) req = map_option (map_prod (with_fsm x) id) (handleAppendEntries LS SS r req)"
  "handleRPC LS SS (with_fsm x r) cmd = map_option (map_prod (with_fsm x) id) (handleRPC LS SS r cmd)"
proof -
  show append: "handleAppendEntries LS SS (with_fsm x r) req = map_option (map_prod (with_fsm x) id) (handleAppendEntries LS SS r req)" for req
    by (simp add: handleAppendEntries_def Let_def opaque split: option.split prod.split bool.split)
  show "handleRPC LS SS (with_fsm x r) cmd = map_option (map_prod (with_fsm x) id) (handleRPC LS SS r cmd)"
    by (cases cmd) (simp_all add: handleRPC_def opaque append split_beta split: option.split)
qed

section \<open>Steps\<close>

definition seen :: "('f \<Rightarrow> 'f) \<Rightarrow> ('l, 's, 'f, 'r) Process \<Rightarrow> ('l, 's, 'f, 'r) Process" where
  "seen g P = \<lparr>node = with_fsm (g (node_fsm (node P))) (node P), pc = pc P, applying = applying P\<rparr>"

text \<open>\<open>B\<close> does on the states seen through \<open>g\<close> what \<open>A\<close> does on the states.\<close>

definition mirrors :: "('f \<Rightarrow> 'f) \<Rightarrow> ('f, 'r) FSM \<Rightarrow> ('f, 'r) FSM \<Rightarrow> bool" where
  "mirrors g A B \<longleftrightarrow> (\<forall>f d. B (g f) d = map_option (\<lambda>out. bind_outcome out (\<lambda>(f', x). Ret (g f', x))) (A f d))"

lemma applyEntry_seen:
  assumes m: "mirrors g A B" and r: "applyEntry LS A idx r = Some (Ret r')"
  shows "applyEntry LS B idx (with_fsm (g (node_fsm r)) r) = Some (Ret (with_fsm (g (node_fsm r')) r'))"
proof (cases "GetLog LS (logStore r) idx")
  case (Inr e)
  let ?apply = "\<lambda>A f. if length (Data e) > 0 then map_option (\<lambda>out. bind_outcome out (\<lambda>(f, x). Ret (f, Some x))) (A f (Data e))
    else Some (Ret (f, None))"
  let ?done = "\<lambda>f y q. case map_of (pendingFutures r) idx of None \<Rightarrow> q\<lparr>node_fsm := f, lastApplied := idx\<rparr>
    | Some p \<Rightarrow> (respondFuture p None y (q\<lparr>node_fsm := f, lastApplied := idx\<rparr>))\<lparr>pendingFutures := AList.delete idx (pendingFutures r)\<rparr>"
  obtain f y where A: "?apply A (node_fsm r) = Some (Ret (f, y))" and r': "r' = ?done f y r"
    using r Inr by (auto simp: applyEntry_def Let_def split: option.splits outcome.splits)
  have "?apply B (g (node_fsm r)) = Some (Ret (g f, y))"
    using A m by (auto simp: mirrors_def bind_outcome_eq_Ret split: if_splits)
  then have "applyEntry LS B idx (with_fsm (g (node_fsm r)) r) = Some (Ret (?done (g f) y (with_fsm (g (node_fsm r)) r)))"
    using Inr by (cases "Data e = []"; cases "map_of (pendingFutures r) idx") (auto simp: applyEntry_def Let_def bind_outcome_eq_Ret)
  moreover have "?done (g f) y (with_fsm (g (node_fsm r)) r) = with_fsm (g (node_fsm r')) r'"
    by (simp add: r' respondFuture_def split: option.split)
  ultimately show ?thesis by simp
qed (use r in \<open>auto simp: applyEntry_def\<close>)

lemma opaque_next [opaque]:
  "applyWayOpen (with_fsm x r) way = applyWayOpen r way"
  "follower_next (with_fsm x r) = follower_next r" "candidate_next (with_fsm x r) req voters = candidate_next r req voters"
  by (simp_all add: applyWayOpen_def follower_next_def candidate_next_def split: applyWay.split)

lemma fsm_kept:
  "(\<And>x. F (with_fsm x r) = with_fsm x (F r)) \<Longrightarrow> node_fsm (F r) = node_fsm r"
  "(\<And>x. G (with_fsm x r) = map_prod (with_fsm x) id (G r)) \<Longrightarrow> node_fsm (fst (G r)) = node_fsm r"
  "(\<And>x. H (with_fsm x r) = map_option (map_prod (with_fsm x) id) (H r)) \<Longrightarrow> H r = Some (r', y) \<Longrightarrow> node_fsm r' = node_fsm r"
proof -
  have id: "with_fsm (node_fsm r) r = r" by simp
  show "node_fsm (F r) = node_fsm r" if "\<And>x. F (with_fsm x r) = with_fsm x (F r)"
    using arg_cong [OF that [of "node_fsm r", unfolded id], of node_fsm] by simp
  show "node_fsm (fst (G r)) = node_fsm r" if "\<And>x. G (with_fsm x r) = map_prod (with_fsm x) id (G r)"
    using arg_cong [OF that [of "node_fsm r", unfolded id], of "\<lambda>t. node_fsm (fst t)"] by simp
  show "node_fsm r' = node_fsm r" if "\<And>x. H (with_fsm x r) = map_option (map_prod (with_fsm x) id) (H r)" "H r = Some (r', y)"
    using arg_cong [OF that(1) [of "node_fsm r", unfolded id], of "\<lambda>t. node_fsm (fst (the t))"] that(2) by simp
qed

lemma fsm_same:
  "node_fsm (fst (startElection LS SS r)) = node_fsm r" "node_fsm (fst (immediateMajority r)) = node_fsm r"
  "node_fsm (fst (receiveVote SS r n vote)) = node_fsm r" "node_fsm (fst (leader_next r)) = node_fsm r"
  "node_fsm (fst (node_Apply r data way)) = node_fsm r" "node_fsm (initLeader LS r) = node_fsm r"
  "node_fsm (appendNoOp LS r) = node_fsm r" "node_fsm (handleApplyRequest LS req r) = node_fsm r"
  "node_fsm (failPendingFutures r) = node_fsm r" "node_fsm (node_Shutdown r) = node_fsm r"
  "node_fsm (applyExpired fut b r) = node_fsm r" "node_fsm (replicateOnce_response LS SS r p entries resp) = node_fsm r"
  "handleRPC LS SS r cmd = Some (r', y) \<Longrightarrow> node_fsm r' = node_fsm r"
  by (rule fsm_kept(1,2), rule opaque_election opaque_futures opaque_leader opaque_replication)+
    (rule fsm_kept(3) [of "\<lambda>r. handleRPC LS SS r cmd"], rule opaque_handlers)

lemma pstep_seen:
  assumes "pstep LS SS A P l P'" and "mirrors g A B"
  shows "pstep LS SS B (seen g P) l (seen g P')"
  using assms
proof (induction rule: pstep.induct)
  case (run_candidate P r req targets)
  then show ?case
    using pstep.run_candidate [of "seen g P" LS SS "with_fsm (g (node_fsm (node P))) r" req targets B]
      fsm_same(1) [of LS SS "node P"]
    by (simp add: seen_def opaque_election)
next
  case (run_leader P)
  then show ?case
    using pstep.run_leader [of "seen g P" LS SS B] fsm_same(6) [of LS "node P"] by (simp add: seen_def opaque_leader)
next
  case (follower_rpc P cmd r resp reset)
  then show ?case
    using pstep.follower_rpc [of "seen g P" LS SS cmd "with_fsm (g (node_fsm (node P))) r" resp reset B]
      fsm_same(13) [OF follower_rpc(2)]
    by (simp add: seen_def opaque_handlers opaque_next)
next
  case (follower_timeout P)
  then show ?case using pstep.follower_timeout [of "seen g P" LS SS B] by (simp add: seen_def electionTimeout_def opaque_update)
next
  case (candidate_start P req r won)
  then show ?case
    using pstep.candidate_start [of "seen g P" req "with_fsm (g (node_fsm (node P))) r" won LS SS B]
      fsm_same(2) [of "node P"]
    by (simp add: seen_def opaque_election opaque_next cong: if_cong split del: if_split)
next
  case (candidate_vote P req voters v vote r votes left)
  then show ?case
    using pstep.candidate_vote [of "seen g P" req voters v SS vote "with_fsm (g (node_fsm (node P))) r" votes left LS B]
      fsm_same(3) [of SS "node P" "Suc (length voters)" vote]
    by (simp add: seen_def opaque_election opaque_next peer_ids_def cong: if_cong split del: if_split)
next
  case (candidate_rpc P req voters cmd r resp reset)
  then show ?case
    using pstep.candidate_rpc [of "seen g P" req voters LS SS cmd "with_fsm (g (node_fsm (node P))) r" resp reset B]
      fsm_same(13) [OF candidate_rpc(2)]
    by (simp add: seen_def opaque_handlers opaque_next)
next
  case (leader_start P r pc')
  then show ?case
    using pstep.leader_start [of "seen g P" LS "with_fsm (g (node_fsm (node P))) r" pc' SS B]
      fsm_same(7) [of LS "node P"] fsm_same(4) [of "appendNoOp LS (node P)"]
    by (simp add: seen_def opaque_leader)
next
  case (leader_rpc P cmd r1 resp reset r pc')
  then show ?case
    using pstep.leader_rpc [of "seen g P" LS SS cmd "with_fsm (g (node_fsm (node P))) r1" resp reset "with_fsm (g (node_fsm (node P))) r" pc' B]
      fsm_same(13) [OF leader_rpc(2)] fsm_same(4) [of r1]
    by (simp add: seen_def opaque_handlers opaque_leader)
next
  case (leader_apply P req reqs r pc')
  let ?q = "(node P)\<lparr>applyCh := reqs\<rparr>"
  show ?case
    using leader_apply pstep.leader_apply [of "seen g P" req reqs LS "with_fsm (g (node_fsm (node P))) r" pc' SS B]
      fsm_same(8) [of LS req ?q] fsm_same(4) [of "handleApplyRequest LS req ?q"]
    by (simp add: seen_def opaque_leader opaque_update)
next
  case (leader_shutdown P)
  then show ?case
    using pstep.leader_shutdown [of "seen g P" LS SS B] fsm_same(9) [of "node P"] by (simp add: seen_def opaque_futures)
next
  case (replicate_reply p P entries resp)
  then show ?case
    using pstep.replicate_reply [of p "seen g P" LS SS B entries resp]
      fsm_same(12) [of LS SS "node P" p entries resp]
    by (simp add: seen_def opaque_replication)
next
  case (apply_entry P idx commit r)
  then show ?case
    using pstep.apply_entry [of "seen g P" idx commit LS B "with_fsm (g (node_fsm r)) r" SS] applyEntry_seen [OF apply_entry(4,3)]
    by (simp add: seen_def)
next
  case (client_apply P way data r future)
  then show ?case
    using pstep.client_apply [of "seen g P" way data "with_fsm (g (node_fsm (node P))) r" future LS SS B]
      fsm_same(5) [of "node P" data way]
    by (simp add: seen_def opaque_futures opaque_next)
next
  case (client_expired future P timedOut)
  then show ?case
    using pstep.client_expired [of future "seen g P" LS SS B timedOut] fsm_same(11) [of future timedOut "node P"]
    by (simp add: seen_def opaque_futures)
next
  case (client_wait P future f e)
  then show ?case using pstep.client_wait [of "seen g P" future f e LS SS B] by (simp add: seen_def opaque_update)
next
  case (shutdown P)
  then show ?case
    using pstep.shutdown [of LS SS B "seen g P"] fsm_same(10) [of "node P"] by (simp add: seen_def opaque_futures)
next
  case (apply_start P)
  then show ?case using pstep.apply_start [of "seen g P" LS SS B] by (simp add: seen_def opaque_update)
next
  case (apply_done P idx commit)
  then show ?case using pstep.apply_done [of "seen g P" idx commit LS SS B] by (simp add: seen_def)
next
  case (run_stop P)
  then show ?case using pstep.run_stop [of "seen g P" LS SS B] by (simp add: seen_def)
next
  case (run_follower P)
  then show ?case using pstep.run_follower [of "seen g P" LS SS B] by (simp add: seen_def)
next
  case (follower_shutdown P)
  then show ?case using pstep.follower_shutdown [of "seen g P" LS SS B] by (simp add: seen_def)
next
  case (candidate_timeout P req voters)
  then show ?case using pstep.candidate_timeout [of "seen g P" req voters LS SS B] by (simp add: seen_def)
next
  case (replicate_send p P req)
  then show ?case using pstep.replicate_send [of p "seen g P" LS req SS B] by (simp add: seen_def opaque_replication)
qed

text \<open>The state machine changes only by a call of \<open>Apply\<close>.\<close>

lemma pstep_fsm:
  assumes "pstep LS SS A P l P'"
  shows "node_fsm (node P') = node_fsm (node P) \<or> (\<exists>d x. A (node_fsm (node P)) d = Some (Ret (node_fsm (node P'), x)))"
  using assms
proof (induction rule: pstep.induct)
  case (run_candidate P r req targets)
  then show ?case using fsm_same(1) [of LS SS "node P"] by simp
next
  case (candidate_start P req r won)
  then show ?case using fsm_same(2) [of "node P"] by simp
next
  case (candidate_vote P req voters v vote r votes left)
  then show ?case using fsm_same(3) [of SS "node P" "Suc (length voters)" vote] by simp
next
  case (leader_start P r pc')
  then show ?case using fsm_same(7) [of LS "node P"] fsm_same(4) [of "appendNoOp LS (node P)"] by simp
next
  case (leader_rpc P cmd r1 resp reset r pc')
  then show ?case using fsm_same(13) [OF leader_rpc(2)] fsm_same(4) [of r1] by simp
next
  case (leader_apply P req reqs r pc')
  then show ?case
    using fsm_same(8) [of LS req "(node P)\<lparr>applyCh := reqs\<rparr>"] fsm_same(4) [of "handleApplyRequest LS req ((node P)\<lparr>applyCh := reqs\<rparr>)"]
    by simp
next
  case (client_apply P way data r future)
  then show ?case using fsm_same(5) [of "node P" data way] by simp
next
  case (apply_entry P idx commit r)
  from apply_entry(3) show ?case
    by (auto simp: applyEntry_def Let_def bind_outcome_eq_Ret split: sum.splits option.splits outcome.splits if_splits)
qed (simp_all add: fsm_same electionTimeout_def)

section \<open>Runs\<close>

definition seen_cluster :: "('f \<Rightarrow> 'f) \<Rightarrow> ('l, 's, 'f, 'r) Cluster \<Rightarrow> ('l, 's, 'f, 'r) Cluster" where
  "seen_cluster g C = C\<lparr>procs := \<lambda>i. seen g (procs C i)\<rparr>"

lemma seen_fields [simp]:
  "pc (seen g P) = pc P" "applying (seen g P) = applying P" "node (seen g P) = with_fsm (g (node_fsm (node P))) (node P)"
  "procs (seen_cluster g C) i = seen g (procs C i)" "sentVotes (seen_cluster g C) = sentVotes C"
  "voteReplies (seen_cluster g C) = voteReplies C" "sentAppends (seen_cluster g C) = sentAppends C"
  by (simp_all add: seen_def seen_cluster_def)

lemma seen_conditions:
  "admissible (seen_cluster g C) i l = admissible C i l" "fresh (seen_cluster g C) i ol = fresh C i ol"
  "honest (seen_cluster g C) w i ol = honest C w i ol" "steady LS ids (seen_cluster g C) i (seen_cluster g D) = steady LS ids C i D"
  by (auto simp: admissible_def fresh_def honest_def steady_def split: label.split pc.split Command.split option.split)

lemma publish_seen: "seen_cluster g (publish i l (C\<lparr>procs := (procs C)(i := P)\<rparr>)) =
    publish i l ((seen_cluster g C)\<lparr>procs := (procs (seen_cluster g C))(i := seen g P)\<rparr>)"
  by (auto simp: publish_def seen_cluster_def fun_eq_iff split: label.split Command.split RPCResponse.split)

text \<open>A step of a process in a run, as a step of the seen one.\<close>

lemma safe_act_seen:
  assumes "safe_run LS SS B ids f C w (seen_cluster g D) u" and "mirrors g A B" and "i \<in> ids"
    and "pstep LS SS A (procs D i) l P" and "admissible D i l" and "fresh D i (Some l)" and "honest D u i (Some l)"
    and "steady LS ids D i (publish i l (D\<lparr>procs := (procs D)(i := P)\<rparr>))"
  shows "safe_run LS SS B ids f C w (seen_cluster g (publish i l (D\<lparr>procs := (procs D)(i := P)\<rparr>))) (transmit i (Some l) u)"
proof -
  have "cstep LS SS B ids (seen_cluster g D) i (Some l) (seen_cluster g (publish i l (D\<lparr>procs := (procs D)(i := P)\<rparr>)))"
    unfolding publish_seen using assms(3,5) pstep_seen [OF assms(4,2)] by (intro cstep.act) (simp_all add: seen_conditions)
  then show ?thesis using assms(1,6-8) by (intro safe_run.step [OF assms(1)]) (simp_all add: seen_conditions)
qed

text \<open>A node that starts again.\<close>

lemma NewRaftNode_fsm:
  "NewRaftNode SS c l s f = Ret (Inr r) \<Longrightarrow> node_fsm r = f"
  by (auto simp: NewRaftNode_def restoreState_def bind_outcome_eq_Ret split: option.splits sum.splits prod.splits)

lemma safe_crash_seen:
  assumes "safe_run LS SS B ids f C w (seen_cluster g D) u" and "i \<in> ids" and "g f = f"
    and "NewRaftNode SS (config (node (procs D i))) (logStore (node (procs D i))) (stableStore (node (procs D i))) f = Ret (Inr r)"
    and "steady LS ids D i (D\<lparr>procs := (procs D)(i := start r)\<rparr>)"
  shows "safe_run LS SS B ids f C w (seen_cluster g (D\<lparr>procs := (procs D)(i := start r)\<rparr>)) (transmit i None u)"
proof -
  have r: "seen g (start r) = start r" using NewRaftNode_fsm [OF assms(4)] assms(3) by (simp add: seen_def start_def)
  have eq: "seen_cluster g (D\<lparr>procs := (procs D)(i := start r)\<rparr>) =
      (seen_cluster g D)\<lparr>procs := (procs (seen_cluster g D))(i := start r)\<rparr>"
    using r by (auto simp: seen_cluster_def fun_eq_iff)
  have "cstep LS SS B ids (seen_cluster g D) i None (seen_cluster g (D\<lparr>procs := (procs D)(i := start r)\<rparr>))"
    unfolding eq using assms(2,4) by (intro cstep.crash [where f = f]) simp_all
  then show ?thesis
    using assms(1,5) r NewRaftNode_fsm [OF assms(4)] assms(3)
    by (intro safe_run.step [OF assms(1)]) (simp_all add: seen_conditions fresh_def honest_def start_def)
qed

end
