(* ===== verification/Edit_Script.thy ===== *)
theory Edit_Script
  imports Go_Prelude
begin

text \<open>
  The reference semantics of operational transformation, independent of the representation the
  code uses: an edit script over an arbitrary ordered alphabet, the text it produces, the
  composition of two scripts and the rebase of one over another. The theories
  \<^verbatim>\<open>OT_Compose\<close> and \<^verbatim>\<open>OT_Follow\<close> show that the loops of the code compute these
  functions; here are the laws that make them right.
\<close>

section \<open>Scripts\<close>

datatype 'a edit = Keep nat | Ins "'a list" | Del nat

type_synonym 'a script = "'a edit list"

fun src_len :: "'a script \<Rightarrow> nat" where
  "src_len [] = 0"
| "src_len (Keep n # es) = n + src_len es"
| "src_len (Ins s # es) = src_len es"
| "src_len (Del n # es) = n + src_len es"

fun dst_len :: "'a script \<Rightarrow> nat" where
  "dst_len [] = 0"
| "dst_len (Keep n # es) = n + dst_len es"
| "dst_len (Ins s # es) = length s + dst_len es"
| "dst_len (Del n # es) = dst_len es"

fun ins_len :: "'a script \<Rightarrow> nat" where
  "ins_len [] = 0"
| "ins_len (Keep n # es) = ins_len es"
| "ins_len (Ins s # es) = length s + ins_len es"
| "ins_len (Del n # es) = ins_len es"

text \<open>The text a script makes of a source text of length \<open>src_len\<close>.\<close>

fun exec :: "'a script \<Rightarrow> 'a list \<Rightarrow> 'a list" where
  "exec [] t = t"
| "exec (Keep n # es) t = take n t @ exec es (drop n t)"
| "exec (Ins s # es) t = s @ exec es t"
| "exec (Del n # es) t = exec es (drop n t)"

text \<open>No operation of a proper script is empty.\<close>

fun proper :: "'a edit \<Rightarrow> bool" where
  "proper (Keep n) = (0 < n)"
| "proper (Ins s) = (s \<noteq> [])"
| "proper (Del n) = (0 < n)"

fun is_Ins :: "'a edit \<Rightarrow> bool" where
  "is_Ins (Ins s) = True"
| "is_Ins (Keep n) = False"
| "is_Ins (Del n) = False"

text \<open>No two insertions stand next to each other.\<close>

fun ins_separated :: "'a script \<Rightarrow> bool" where
  "ins_separated (x # y # es) = (\<not> (is_Ins x \<and> is_Ins y) \<and> ins_separated (y # es))"
| "ins_separated es = True"

lemma src_len_append [simp]: "src_len (xs @ ys) = src_len xs + src_len ys"
  by (induction xs rule: src_len.induct) auto

lemma dst_len_append [simp]: "dst_len (xs @ ys) = dst_len xs + dst_len ys"
  by (induction xs rule: dst_len.induct) auto

lemma ins_len_append [simp]: "ins_len (xs @ ys) = ins_len xs + ins_len ys"
  by (induction xs rule: ins_len.induct) auto

lemma length_exec: "length t = src_len es \<Longrightarrow> length (exec es t) = dst_len es"
  by (induction es t rule: exec.induct) auto

lemma dst_len_le: "dst_len es \<le> src_len es + ins_len es"
  by (induction es rule: src_len.induct) auto

lemma ins_len_le: "ins_len es \<le> dst_len es"
  by (induction es rule: src_len.induct) auto

lemma exec_append:
  "length t = src_len xs + src_len ys \<Longrightarrow>
     exec (xs @ ys) t = exec xs (take (src_len xs) t) @ exec ys (drop (src_len xs) t)"
  by (induction xs t rule: exec.induct) (auto simp: take_drop add.commute min_def)

section \<open>Leftovers\<close>

text \<open>What is left of an operation of length \<open>m\<close> after \<open>n\<close> of it are used.\<close>

definition keep_rest :: "nat \<Rightarrow> 'a script \<Rightarrow> 'a script" where
  "keep_rest k es = (if k = 0 then es else Keep k # es)"

definition del_rest :: "nat \<Rightarrow> 'a script \<Rightarrow> 'a script" where
  "del_rest k es = (if k = 0 then es else Del k # es)"

definition ins_rest :: "'a list \<Rightarrow> 'a script \<Rightarrow> 'a script" where
  "ins_rest s es = (if s = [] then es else Ins s # es)"

lemma rest_0 [simp]:
  "keep_rest 0 es = es" "del_rest 0 es = es" "ins_rest [] es = es"
  by (simp_all add: keep_rest_def del_rest_def ins_rest_def)

lemma src_len_rest [simp]:
  "src_len (keep_rest k es) = k + src_len es"
  "src_len (del_rest k es) = k + src_len es"
  "src_len (ins_rest s es) = src_len es"
  by (simp_all add: keep_rest_def del_rest_def ins_rest_def)

lemma dst_len_rest [simp]:
  "dst_len (keep_rest k es) = k + dst_len es"
  "dst_len (del_rest k es) = dst_len es"
  "dst_len (ins_rest s es) = length s + dst_len es"
  by (simp_all add: keep_rest_def del_rest_def ins_rest_def)

lemma ins_len_rest [simp]:
  "ins_len (keep_rest k es) = ins_len es"
  "ins_len (del_rest k es) = ins_len es"
  "ins_len (ins_rest s es) = length s + ins_len es"
  by (simp_all add: keep_rest_def del_rest_def ins_rest_def)

lemma exec_rest [simp]:
  "exec (keep_rest k es) t = take k t @ exec es (drop k t)"
  "exec (del_rest k es) t = exec es (drop k t)"
  "exec (ins_rest s es) t = s @ exec es t"
  by (simp_all add: keep_rest_def del_rest_def ins_rest_def)

lemma proper_rest [simp]:
  "list_all proper (keep_rest k es) = list_all proper es"
  "list_all proper (del_rest k es) = list_all proper es"
  "list_all proper (ins_rest s es) = list_all proper es"
  by (simp_all add: keep_rest_def del_rest_def ins_rest_def)

text \<open>Length of the remaining work, for termination.\<close>

fun work :: "'a script \<Rightarrow> nat" where
  "work [] = 0"
| "work (Keep n # es) = Suc n + work es"
| "work (Ins s # es) = Suc (length s) + work es"
| "work (Del n # es) = Suc n + work es"

lemma work_rest:
  "work (keep_rest k es) \<le> Suc k + work es"
  "work (del_rest k es) \<le> Suc k + work es"
  "work (ins_rest s es) \<le> Suc (length s) + work es"
  by (simp_all add: keep_rest_def del_rest_def ins_rest_def)

lemma work_rest_less:
  "work (keep_rest (m - n) es) < Suc m + work es" if "0 < n \<or> m \<le> n"
  using that by (auto simp: keep_rest_def)

section \<open>Composition\<close>

text \<open>The composition of two scripts, one operation of either at a time.\<close>

function compose_script :: "'a script \<Rightarrow> 'a script \<Rightarrow> 'a script" where
  "compose_script as (Ins s # bs) = Ins s # compose_script as bs"
| "compose_script (Del n # as) [] = Del n # compose_script as []"
| "compose_script (Del n # as) (Keep k # bs) = Del n # compose_script as (Keep k # bs)"
| "compose_script (Del n # as) (Del k # bs) = Del n # compose_script as (Del k # bs)"
| "compose_script (Keep m # as) (Keep n # bs) =
     Keep (min m n) # compose_script (keep_rest (m - n) as) (keep_rest (n - m) bs)"
| "compose_script (Keep m # as) (Del n # bs) =
     Del (min m n) # compose_script (keep_rest (m - n) as) (del_rest (n - m) bs)"
| "compose_script (Ins s # as) (Keep n # bs) =
     Ins (take n s) # compose_script (ins_rest (drop n s) as) (keep_rest (n - length s) bs)"
| "compose_script (Ins s # as) (Del n # bs) =
     compose_script (ins_rest (drop n s) as) (del_rest (n - length s) bs)"
| "compose_script [] [] = []"
| "compose_script [] (Keep n # bs) = []"
| "compose_script [] (Del n # bs) = []"
| "compose_script (Keep m # as) [] = []"
| "compose_script (Ins s # as) [] = []"
  by pat_completeness auto
termination
  by (relation "measure (\<lambda>(as, bs). work as + work bs)")
    (auto simp: keep_rest_def del_rest_def ins_rest_def)

lemma src_len_compose:
  "list_all proper as \<Longrightarrow> list_all proper bs \<Longrightarrow> dst_len as = src_len bs \<Longrightarrow>
     src_len (compose_script as bs) = src_len as"
  by (induction as bs rule: compose_script.induct) (auto simp: min_def)

lemma dst_len_compose:
  "list_all proper as \<Longrightarrow> list_all proper bs \<Longrightarrow> dst_len as = src_len bs \<Longrightarrow>
     dst_len (compose_script as bs) = dst_len bs"
  by (induction as bs rule: compose_script.induct) (auto simp: min_def)

lemma proper_compose:
  "list_all proper as \<Longrightarrow> list_all proper bs \<Longrightarrow> list_all proper (compose_script as bs)"
  by (induction as bs rule: compose_script.induct) (auto simp: min_def)

text \<open>Running the composition is running one script after the other.\<close>

lemma exec_compose:
  "list_all proper as \<Longrightarrow> list_all proper bs \<Longrightarrow> dst_len as = src_len bs \<Longrightarrow>
     length t = src_len as \<Longrightarrow> exec (compose_script as bs) t = exec bs (exec as t)"
proof (induction as bs arbitrary: t rule: compose_script.induct)
  case (7 s as n bs)
  then show ?case by (cases "n \<le> length s") auto
next
  case (8 s as n bs)
  then show ?case by (cases "n \<le> length s") auto
qed (auto simp: min_def drop_take)

section \<open>Rebase\<close>

text \<open>
  \<open>follow_script as bs\<close> rebases \<open>bs\<close> over \<open>as\<close>: both start from the same text, and the
  result starts from the text that \<open>as\<close> makes. Where both insert, the smaller text goes first.
\<close>

function follow_script :: "'a::linorder script \<Rightarrow> 'a script \<Rightarrow> 'a script" where
  "follow_script (Ins a # as) (Ins b # bs) =
     (if a \<le> b then Keep (length a) # follow_script as (Ins b # bs)
      else Ins b # follow_script (Ins a # as) bs)"
| "follow_script (Ins a # as) [] = Keep (length a) # follow_script as []"
| "follow_script (Ins a # as) (Keep n # bs) = Keep (length a) # follow_script as (Keep n # bs)"
| "follow_script (Ins a # as) (Del n # bs) = Keep (length a) # follow_script as (Del n # bs)"
| "follow_script [] (Ins b # bs) = Ins b # follow_script [] bs"
| "follow_script (Keep n # as) (Ins b # bs) = Ins b # follow_script (Keep n # as) bs"
| "follow_script (Del n # as) (Ins b # bs) = Ins b # follow_script (Del n # as) bs"
| "follow_script (Keep m # as) (Keep n # bs) =
     Keep (min m n) # follow_script (keep_rest (m - n) as) (keep_rest (n - m) bs)"
| "follow_script (Keep m # as) (Del n # bs) =
     Del (min m n) # follow_script (keep_rest (m - n) as) (del_rest (n - m) bs)"
| "follow_script (Del m # as) (Keep n # bs) =
     follow_script (del_rest (m - n) as) (keep_rest (n - m) bs)"
| "follow_script (Del m # as) (Del n # bs) =
     follow_script (del_rest (m - n) as) (del_rest (n - m) bs)"
| "follow_script [] [] = []"
| "follow_script [] (Keep n # bs) = []"
| "follow_script [] (Del n # bs) = []"
| "follow_script (Keep m # as) [] = []"
| "follow_script (Del m # as) [] = []"
  by pat_completeness auto
termination
  by (relation "measure (\<lambda>(as, bs). work as + work bs)")
    (auto simp: keep_rest_def del_rest_def ins_rest_def)

lemma src_len_follow:
  "list_all proper as \<Longrightarrow> list_all proper bs \<Longrightarrow> src_len as = src_len bs \<Longrightarrow>
     src_len (follow_script as bs) = dst_len as"
  by (induction as bs rule: follow_script.induct) (auto simp: min_def)

lemma ins_len_follow:
  "list_all proper as \<Longrightarrow> list_all proper bs \<Longrightarrow> src_len as = src_len bs \<Longrightarrow>
     ins_len (follow_script as bs) = ins_len bs"
  by (induction as bs rule: follow_script.induct) (auto simp: min_def)

lemma dst_len_follow_le:
  "list_all proper as \<Longrightarrow> list_all proper bs \<Longrightarrow> src_len as = src_len bs \<Longrightarrow>
     dst_len (follow_script as bs) \<le> dst_len as + ins_len bs"
  using dst_len_le [of "follow_script as bs"] by (simp add: src_len_follow ins_len_follow)

text \<open>Whatever the lengths, the rebase reads no more than \<open>as\<close> produces and inserts what \<open>bs\<close> does.\<close>

lemma src_len_follow_le: "src_len (follow_script as bs) \<le> dst_len as"
  by (induction as bs rule: follow_script.induct) (auto simp: min_def split: if_splits)

lemma ins_len_follow_le: "ins_len (follow_script as bs) \<le> ins_len bs"
  by (induction as bs rule: follow_script.induct) (auto simp: min_def split: if_splits)

lemma proper_follow:
  "list_all proper as \<Longrightarrow> list_all proper bs \<Longrightarrow> list_all proper (follow_script as bs)"
  by (induction as bs rule: follow_script.induct) (auto simp: min_def)

lemma ins_separated_rest [simp]:
  "ins_separated (Keep m # as) \<Longrightarrow> ins_separated (keep_rest k as)"
  "ins_separated (Del m # as) \<Longrightarrow> ins_separated (del_rest k as)"
  by (cases as; simp add: keep_rest_def del_rest_def)+

lemma ins_separated_tl [dest]: "ins_separated (e # es) \<Longrightarrow> ins_separated es"
  by (cases es) auto

text \<open>After an insertion of a separated script comes something that is not one.\<close>

lemma follow_Ins_right:
  "ins_separated (Ins a # as) \<Longrightarrow>
     follow_script as (Ins b # bs) = Ins b # follow_script as bs"
  by (cases as; cases "hd as") auto

lemma follow_Ins_left:
  "ins_separated (Ins a # as) \<Longrightarrow>
     follow_script (Ins b # bs) as = Keep (length b) # follow_script bs as"
  by (cases as; cases "hd as") auto

text \<open>
  Convergence: two scripts from the same text, each rebased over the other, lead to the same
  text, provided neither has two insertions in a row.
\<close>

lemma follow_converges:
  "list_all proper as \<Longrightarrow> list_all proper bs \<Longrightarrow> src_len as = src_len bs \<Longrightarrow>
     ins_separated as \<Longrightarrow> ins_separated bs \<Longrightarrow> length t = src_len as \<Longrightarrow>
     exec (follow_script as bs) (exec as t) = exec (follow_script bs as) (exec bs t)"
proof (induction as bs arbitrary: t rule: follow_script.induct)
  case (1 a as b bs)
  consider "a < b" | "a = b" | "b < a" by fastforce
  then show ?case
  proof cases
    case 1
    with "1.IH"(1) "1.prems" show ?thesis by auto
  next
    case 2
    with "1.IH"(1) [of t] "1.prems" show ?thesis
      by (auto simp: follow_Ins_right follow_Ins_left)
  next
    case 3
    with "1.IH"(2) [of t] "1.prems" show ?thesis by auto
  qed
next
  case (8 m as n bs)
  from "8.IH" [of "drop (min m n) t"] "8.prems" show ?case
    by (cases "m \<le> n") (auto simp: min_def drop_take)
next
  case (9 m as n bs)
  from "9.IH" [of "drop (min m n) t"] "9.prems" show ?case
    by (cases "m \<le> n") (auto simp: min_def drop_take)
next
  case (10 m as n bs)
  from "10.IH" [of "drop (min m n) t"] "10.prems" show ?case
    by (cases "m \<le> n") (auto simp: min_def drop_take)
next
  case (11 m as n bs)
  from "11.IH" [of "drop (min m n) t"] "11.prems" show ?case
    by (cases "m \<le> n") (auto simp: min_def drop_take)
qed auto

section \<open>Merging neighbours\<close>

text \<open>Appending an operation to a script, merged with the last one where both are of a kind.\<close>

fun merge_edit :: "'a edit \<Rightarrow> 'a edit \<Rightarrow> 'a script" where
  "merge_edit (Keep m) (Keep n) = [Keep (m + n)]"
| "merge_edit (Ins s) (Ins u) = [Ins (s @ u)]"
| "merge_edit (Del m) (Del n) = [Del (m + n)]"
| "merge_edit x y = [x, y]"

fun add_edit :: "'a script \<Rightarrow> 'a edit \<Rightarrow> 'a script" where
  "add_edit [] e = [e]"
| "add_edit [x] e = merge_edit x e"
| "add_edit (x # y # es) e = x # add_edit (y # es) e"

abbreviation add_edits :: "'a script \<Rightarrow> 'a script \<Rightarrow> 'a script" where
  "add_edits \<equiv> foldl add_edit"

fun same_kind :: "'a edit \<Rightarrow> 'a edit \<Rightarrow> bool" where
  "same_kind (Keep m) (Keep n) = True"
| "same_kind (Ins s) (Ins u) = True"
| "same_kind (Del m) (Del n) = True"
| "same_kind x y = False"

text \<open>A merged script has no two neighbours of one kind.\<close>

fun merged :: "'a script \<Rightarrow> bool" where
  "merged (x # y # es) = (\<not> same_kind x y \<and> merged (y # es))"
| "merged es = True"

lemma add_edit_snoc: "add_edit (es @ [x]) e = es @ merge_edit x e"
  by (induction es rule: induct_list012) auto

lemma exec_merge_edit: "exec (merge_edit x e @ es) t = exec (x # e # es) t"
  by (induction x e rule: merge_edit.induct) (auto simp: take_add add.commute)

lemma exec_cong_append: "(\<And>t. exec ys t = exec zs t) \<Longrightarrow> exec (xs @ ys) t = exec (xs @ zs) t"
  by (induction xs t rule: exec.induct) auto

lemma exec_add_edit: "exec (add_edit acc e @ es) t = exec (acc @ e # es) t"
proof (cases acc rule: rev_cases)
  case (snoc xs x)
  then show ?thesis
    by (auto simp: add_edit_snoc exec_merge_edit simp del: exec.simps intro!: exec_cong_append)
qed simp

lemma exec_add_edits: "exec (add_edits acc es) t = exec (acc @ es) t"
proof (induction es arbitrary: acc)
  case (Cons e es)
  have "exec (add_edits acc (e # es)) t = exec (add_edit acc e @ es) t"
    using Cons.IH by simp
  then show ?case by (simp add: exec_add_edit)
qed simp

lemma len_merge_edit [simp]:
  "src_len (merge_edit x e) = src_len [x, e]"
  "dst_len (merge_edit x e) = dst_len [x, e]"
  "ins_len (merge_edit x e) = ins_len [x, e]"
  by (cases x; cases e; simp)+

lemma len_add_edit [simp]:
  "src_len (add_edit acc e) = src_len acc + src_len [e]"
  "dst_len (add_edit acc e) = dst_len acc + dst_len [e]"
  "ins_len (add_edit acc e) = ins_len acc + ins_len [e]"
  using src_len_append [of acc "[e]"] dst_len_append [of acc "[e]"] ins_len_append [of acc "[e]"]
  by (cases acc rule: rev_cases; simp add: add_edit_snoc; cases e; simp)+

lemma len_add_edits [simp]:
  "src_len (add_edits acc es) = src_len acc + src_len es"
  "dst_len (add_edits acc es) = dst_len acc + dst_len es"
  "ins_len (add_edits acc es) = ins_len acc + ins_len es"
  by (induction es arbitrary: acc rule: src_len.induct) auto

lemma proper_merge_edit: "proper x \<Longrightarrow> proper e \<Longrightarrow> list_all proper (merge_edit x e)"
  by (cases x; cases e) auto

lemma proper_add_edits:
  "list_all proper acc \<Longrightarrow> list_all proper es \<Longrightarrow> list_all proper (add_edits acc es)"
proof (induction es arbitrary: acc)
  case (Cons e es)
  have "list_all proper (add_edit acc e)"
    using Cons.prems by (cases acc rule: rev_cases) (auto simp: add_edit_snoc proper_merge_edit)
  with Cons show ?case by simp
qed simp

lemma merged_append:
  "merged (xs @ ys) \<longleftrightarrow>
     merged xs \<and> merged ys \<and> (xs = [] \<or> ys = [] \<or> \<not> same_kind (last xs) (hd ys))"
  by (induction xs rule: merged.induct; cases ys) auto

lemma merged_add_edit: "merged acc \<Longrightarrow> merged (add_edit acc e)"
proof (cases acc rule: rev_cases)
  case (snoc xs x)
  assume "merged acc"
  then show ?thesis unfolding snoc add_edit_snoc
    by (cases x; cases e; cases xs rule: rev_cases)
      (auto simp: merged_append; cases "last xs"; simp)+
qed simp

lemma merged_add_edits: "merged acc \<Longrightarrow> merged (add_edits acc es)"
  by (induction es arbitrary: acc) (auto simp: merged_add_edit)

lemma merged_ins_separated: "merged es \<Longrightarrow> ins_separated es"
  by (induction es rule: merged.induct) (auto elim!: is_Ins.elims)

end
