(* ===== verification/OT_Changeset.thy ===== *)
theory OT_Changeset
  imports Edit_Script
begin

text \<open>
  \<^verbatim>\<open>src/internal/ot/changeset.go\<close>: the operations and changesets of the editor, their
  constructors and \<open>Validate\<close>; and \<^verbatim>\<open>src/internal/ot/apply.go\<close>. A changeset is well
  formed when its operations are proper and its two lengths are theirs; \<open>script\<close> reads it as an
  edit script.
\<close>

section \<open>Operations and changesets\<close>

text \<open>\<^verbatim>\<open>type OpType string\<close>: the three constants, and any other string.\<close>

datatype OpType = OpRetain | OpInsert | OpDelete | OpOther string

record Op =
  Type :: OpType
  Len :: int
  Chars :: string

record Changeset =
  OldLen :: int
  NewLen :: int
  Ops :: "Op list"

abbreviation Retain :: "int \<Rightarrow> Op" where
  "Retain n \<equiv> \<lparr>Type = OpRetain, Len = n, Chars = []\<rparr>"

abbreviation Insert :: "string \<Rightarrow> Op" where
  "Insert s \<equiv> \<lparr>Type = OpInsert, Len = 0, Chars = s\<rparr>"

abbreviation Delete :: "int \<Rightarrow> Op" where
  "Delete n \<equiv> \<lparr>Type = OpDelete, Len = n, Chars = []\<rparr>"

text \<open>\<^verbatim>\<open>len(s)\<close>\<close>

abbreviation len :: "'a list \<Rightarrow> int" where
  "len s \<equiv> int (length s)"

definition Identity :: "int \<Rightarrow> Changeset" where
  "Identity n =
     (if n = 0 then \<lparr>OldLen = 0, NewLen = 0, Ops = []\<rparr>
      else \<lparr>OldLen = n, NewLen = n, Ops = [Retain n]\<rparr>)"

definition IsIdentity :: "Changeset \<Rightarrow> bool" where
  "IsIdentity c =
     (if OldLen c \<noteq> NewLen c then False
      else if OldLen c = 0 \<and> len (Ops c) = 0 then True
      else if len (Ops c) = 1 \<and> Type (Ops c ! 0) = OpRetain \<and> Len (Ops c ! 0) = OldLen c then True
      else False)"

definition TextToChangeset :: "string \<Rightarrow> Changeset" where
  "TextToChangeset text =
     (let n = len text in
      if n = 0 then \<lparr>OldLen = 0, NewLen = 0, Ops = []\<rparr>
      else \<lparr>OldLen = 0, NewLen = n, Ops = [Insert text]\<rparr>)"

definition MakeInsert :: "int \<Rightarrow> int \<Rightarrow> string \<Rightarrow> Changeset" where
  "MakeInsert oldLen pos text =
     (let ops = [];
          ops = (if pos > 0 then ops @ [Retain pos] else ops);
          ops = ops @ [Insert text];
          tail = int64 (oldLen - pos);
          ops = (if tail > 0 then ops @ [Retain tail] else ops)
      in \<lparr>OldLen = oldLen, NewLen = int64 (oldLen + len text), Ops = ops\<rparr>)"

definition MakeDelete :: "int \<Rightarrow> int \<Rightarrow> int \<Rightarrow> Changeset" where
  "MakeDelete oldLen pos count =
     (let ops = [];
          ops = (if pos > 0 then ops @ [Retain pos] else ops);
          ops = ops @ [Delete count];
          tail = int64 (int64 (oldLen - pos) - count);
          ops = (if tail > 0 then ops @ [Retain tail] else ops)
      in \<lparr>OldLen = oldLen, NewLen = int64 (oldLen - count), Ops = ops\<rparr>)"

section \<open>Validation\<close>

datatype validate_error =
    RetainNotPositive int
  | InsertEmpty
  | DeleteNotPositive int
  | UnknownOp OpType
  | ConsumesWrong int int
  | ProducesWrong int int

text \<open>The loop over the operations: the two running sums, or the first error.\<close>

fun validate_ops :: "Op list \<Rightarrow> int \<Rightarrow> int \<Rightarrow> validate_error + int \<times> int" where
  "validate_ops [] sourceConsumed newLen = Inr (sourceConsumed, newLen)"
| "validate_ops (op # ops) sourceConsumed newLen =
     (case Type op of
        OpRetain \<Rightarrow>
          if Len op \<le> 0 then Inl (RetainNotPositive (Len op))
          else validate_ops ops (int64 (sourceConsumed + Len op)) (int64 (newLen + Len op))
      | OpInsert \<Rightarrow>
          if len (Chars op) = 0 then Inl InsertEmpty
          else validate_ops ops sourceConsumed (int64 (newLen + len (Chars op)))
      | OpDelete \<Rightarrow>
          if Len op \<le> 0 then Inl (DeleteNotPositive (Len op))
          else validate_ops ops (int64 (sourceConsumed + Len op)) newLen
      | OpOther t \<Rightarrow> Inl (UnknownOp (OpOther t)))"

text \<open>\<open>None\<close> is the \<^verbatim>\<open>nil\<close> error.\<close>

definition Validate :: "Changeset \<Rightarrow> validate_error option" where
  "Validate c =
     (case validate_ops (Ops c) 0 0 of
        Inl e \<Rightarrow> Some e
      | Inr (sourceConsumed, newLen) \<Rightarrow>
          if sourceConsumed \<noteq> OldLen c then Some (ConsumesWrong sourceConsumed (OldLen c))
          else if newLen \<noteq> NewLen c then Some (ProducesWrong newLen (NewLen c))
          else None)"

section \<open>Changesets as scripts\<close>

fun proper_op :: "Op \<Rightarrow> bool" where
  "proper_op op =
     (case Type op of
        OpRetain \<Rightarrow> 0 < Len op
      | OpInsert \<Rightarrow> Chars op \<noteq> []
      | OpDelete \<Rightarrow> 0 < Len op
      | OpOther t \<Rightarrow> False)"

definition edit_of :: "Op \<Rightarrow> char edit" where
  "edit_of op =
     (case Type op of
        OpRetain \<Rightarrow> Keep (nat (Len op))
      | OpInsert \<Rightarrow> Ins (Chars op)
      | OpDelete \<Rightarrow> Del (nat (Len op))
      | OpOther t \<Rightarrow> Keep 0)"

definition script :: "Changeset \<Rightarrow> char script" where
  "script c = map edit_of (Ops c)"

text \<open>
  A well-formed changeset: proper operations, and the two lengths are the true sums of theirs,
  within the range of an \<^verbatim>\<open>int\<close>.
\<close>

definition wf_changeset :: "Changeset \<Rightarrow> bool" where
  "wf_changeset c \<longleftrightarrow>
     list_all proper_op (Ops c) \<and>
     OldLen c = int (src_len (script c)) \<and> NewLen c = int (dst_len (script c)) \<and>
     OldLen c < 2 ^ 63 \<and> NewLen c < 2 ^ 63"

lemma edit_of_simps [simp]:
  "Type op = OpRetain \<Longrightarrow> edit_of op = Keep (nat (Len op))"
  "Type op = OpInsert \<Longrightarrow> edit_of op = Ins (Chars op)"
  "Type op = OpDelete \<Longrightarrow> edit_of op = Del (nat (Len op))"
  by (simp_all add: edit_of_def)

lemma proper_edit_of: "proper_op op \<Longrightarrow> proper (edit_of op)"
  by (cases "Type op") (auto simp: edit_of_def)

lemma proper_script: "list_all proper_op ops \<Longrightarrow> list_all proper (map edit_of ops)"
  by (induction ops) (auto simp: proper_edit_of simp del: proper_op.simps)

lemma wf_proper: "wf_changeset c \<Longrightarrow> list_all proper (script c)"
  by (simp add: wf_changeset_def script_def proper_script)

lemma wf_lens:
  "wf_changeset c \<Longrightarrow> OldLen c = int (src_len (script c))"
  "wf_changeset c \<Longrightarrow> NewLen c = int (dst_len (script c))"
  "wf_changeset c \<Longrightarrow> src_len (script c) < 9223372036854775808"
  "wf_changeset c \<Longrightarrow> dst_len (script c) < 9223372036854775808"
  by (simp_all add: wf_changeset_def)

text \<open>The loop of \<open>Validate\<close> computes the true sums as long as they stay in range.\<close>

lemma validate_ops_sums:
  "list_all proper_op ops \<Longrightarrow> 0 \<le> s \<Longrightarrow> 0 \<le> n \<Longrightarrow>
   s + int (src_len (map edit_of ops)) < 2 ^ 63 \<Longrightarrow> n + int (dst_len (map edit_of ops)) < 2 ^ 63 \<Longrightarrow>
   validate_ops ops s n =
     Inr (s + int (src_len (map edit_of ops)), n + int (dst_len (map edit_of ops)))"
proof (induction ops arbitrary: s n)
  case (Cons op ops)
  then show ?case by (cases "Type op") auto
qed simp

lemma validate_ops_proper:
  "validate_ops ops s n = Inr r \<Longrightarrow> list_all proper_op ops"
  by (induction ops arbitrary: s n) (auto split: OpType.splits if_splits)

lemma validate_ops_improper:
  "\<not> list_all proper_op ops \<Longrightarrow> \<exists>e. validate_ops ops s n = Inl e"
  by (cases "validate_ops ops s n") (auto dest: validate_ops_proper)

lemma wf_Validate: "wf_changeset c \<Longrightarrow> Validate c = None"
  by (simp add: Validate_def wf_changeset_def script_def validate_ops_sums)

lemma Validate_wf:
  assumes "Validate c = None"
    and "src_len (script c) < 2 ^ 63" and "dst_len (script c) < 2 ^ 63"
  shows "wf_changeset c"
proof -
  obtain s n where v: "validate_ops (Ops c) 0 0 = Inr (s, n)" "OldLen c = s" "NewLen c = n"
    using assms(1) by (auto simp: Validate_def split: sum.splits if_splits)
  then have p: "list_all proper_op (Ops c)" by (auto dest: validate_ops_proper)
  with v assms(2,3) validate_ops_sums [OF p, of 0 0] show ?thesis
    by (simp add: wf_changeset_def script_def)
qed

section \<open>Applying a changeset\<close>

datatype apply_error =
    OldLenMismatch int int
  | RetainExceeds int int int
  | DeleteExceeds int int int
  | ApplyUnknownOp OpType
  | NotConsumed int int

text \<open>The loop of \<open>ApplyChangeset\<close>: the builder's content and the position in the text.\<close>

fun apply_ops :: "string \<Rightarrow> Op list \<Rightarrow> string \<Rightarrow> int \<Rightarrow> (apply_error + string \<times> int) outcome" where
  "apply_ops text [] result srcPos = Ret (Inr (result, srcPos))"
| "apply_ops text (op # ops) result srcPos =
     (case Type op of
        OpRetain \<Rightarrow>
          if int64 (srcPos + Len op) > len text
          then Ret (Inl (RetainExceeds (Len op) srcPos (len text)))
          else bind_outcome (slice text srcPos (int64 (srcPos + Len op)))
            (\<lambda>chars. apply_ops text ops (result @ chars) (int64 (srcPos + Len op)))
      | OpInsert \<Rightarrow> apply_ops text ops (result @ Chars op) srcPos
      | OpDelete \<Rightarrow>
          if int64 (srcPos + Len op) > len text
          then Ret (Inl (DeleteExceeds (Len op) srcPos (len text)))
          else apply_ops text ops result (int64 (srcPos + Len op))
      | OpOther t \<Rightarrow> Ret (Inl (ApplyUnknownOp (OpOther t))))"

text \<open>\<^verbatim>\<open>strings.Builder.Grow\<close> panics on a negative count.\<close>

definition builder_Grow :: "int \<Rightarrow> unit outcome" where
  "builder_Grow n = (if n < 0 then Panic else Ret ())"

definition ApplyChangeset :: "string \<Rightarrow> Changeset \<Rightarrow> (apply_error + string) outcome" where
  "ApplyChangeset text c =
     (if OldLen c \<noteq> len text then Ret (Inl (OldLenMismatch (OldLen c) (len text)))
      else bind_outcome (builder_Grow (NewLen c)) (\<lambda>_.
        bind_outcome (apply_ops text (Ops c) [] 0) (\<lambda>r.
          case r of
            Inl e \<Rightarrow> Ret (Inl e)
          | Inr (result, srcPos) \<Rightarrow>
              if srcPos \<noteq> len text then Ret (Inl (NotConsumed srcPos (len text)))
              else Ret (Inr result))))"

lemma apply_ops_exec:
  "list_all proper_op ops \<Longrightarrow> len text < 2 ^ 63 \<Longrightarrow>
   p + src_len (map edit_of ops) = length text \<Longrightarrow>
   apply_ops text ops acc (int p) =
     Ret (Inr (acc @ exec (map edit_of ops) (drop p text), len text))"
proof (induction ops arbitrary: acc p)
  case (Cons op ops)
  show ?case
  proof (cases "Type op")
    case OpRetain
    with Cons.prems Cons.IH [of "p + nat (Len op)"] show ?thesis
      by (simp add: slice_Ret add.commute)
  next
    case OpInsert
    with Cons.prems Cons.IH [of p] show ?thesis by simp
  next
    case OpDelete
    with Cons.prems Cons.IH [of "p + nat (Len op)"] show ?thesis
      by (simp add: add.commute)
  next
    case (OpOther t)
    with Cons.prems show ?thesis by simp
  qed
qed simp

text \<open>
  On proper operations whose lengths do not overflow the loop never panics; it reports an error
  unless the operations consume no more than the text.
\<close>

lemma apply_ops_total:
  "list_all proper_op ops \<Longrightarrow> p \<le> length text \<Longrightarrow>
   int p + int (src_len (map edit_of ops)) < 2 ^ 63 \<Longrightarrow>
   (\<exists>e. apply_ops text ops acc (int p) = Ret (Inl e)) \<or>
   (\<exists>r. apply_ops text ops acc (int p) = Ret (Inr (r, int (p + src_len (map edit_of ops)))))"
proof (induction ops arbitrary: acc p)
  case (Cons op ops)
  show ?case
  proof (cases "Type op")
    case OpRetain
    with Cons.prems Cons.IH [of "p + nat (Len op)"] show ?thesis
      by (cases "p + nat (Len op) \<le> length text") (auto simp: slice_Ret add.assoc nat_le_iff)
  next
    case OpInsert
    with Cons.prems Cons.IH [of p] show ?thesis by simp
  next
    case OpDelete
    with Cons.prems Cons.IH [of "p + nat (Len op)"] show ?thesis
      by (cases "p + nat (Len op) \<le> length text") (auto simp: add.assoc nat_le_iff)
  next
    case (OpOther t)
    with Cons.prems show ?thesis by simp
  qed
qed auto

lemma ApplyChangeset_total:
  assumes "list_all proper_op (Ops c)" and "0 \<le> NewLen c" and "src_len (script c) < 2 ^ 63"
  shows "(\<exists>e. ApplyChangeset text c = Ret (Inl e)) \<or>
    (\<exists>r. ApplyChangeset text c = Ret (Inr r) \<and> OldLen c = len text \<and> length text = src_len (script c))"
proof (cases "OldLen c = len text")
  case True
  with assms apply_ops_total [of "Ops c" 0 "text" "[]"] show ?thesis
    by (cases "src_len (script c) = length text")
      (auto simp: ApplyChangeset_def builder_Grow_def script_def)
qed (simp add: ApplyChangeset_def)

lemma ApplyChangeset_exec:
  assumes "wf_changeset c" and "OldLen c = len text"
  shows "ApplyChangeset text c = Ret (Inr (exec (script c) text))"
  using assms apply_ops_exec [of "Ops c" "text" 0 "[]"]
  by (simp add: ApplyChangeset_def builder_Grow_def wf_changeset_def script_def)

end
