(* ===== verification/OT_Cursor.thy ===== *)
theory OT_Cursor
  imports OT_Changeset
begin

text \<open>
  The helpers that \<open>Compose\<close> and \<open>Follow\<close> declare as closures: the cursor \<^verbatim>\<open>opSlice\<close> over
  the operations of a changeset with \<open>peek\<close> and \<open>consume\<close>, and \<open>addOp\<close>, which appends to the
  result or merges with its last operation (\<^verbatim>\<open>src/internal/ot/compose.go\<close>,
  \<^verbatim>\<open>src/internal/ot/follow.go\<close>). A cursor stands for the operations that remain.
\<close>

section \<open>The cursor\<close>

record opSlice =
  ops :: "Op list"
  pos :: nat
  off :: int

definition newSlice :: "Op list \<Rightarrow> opSlice" where
  "newSlice os = \<lparr>ops = os, pos = 0, off = 0\<rparr>"

definition peek :: "opSlice \<Rightarrow> Op option outcome" where
  "peek s =
     (if pos s \<ge> length (ops s) then Ret None
      else let op = ops s ! pos s in
        if Type op = OpInsert
        then bind_outcome (slice (Chars op) (off s) (len (Chars op)))
          (\<lambda>chars. Ret (Some (op\<lparr>Chars := chars\<rparr>)))
        else Ret (Some (op\<lparr>Len := int64 (Len op - off s)\<rparr>)))"

function consume :: "opSlice \<Rightarrow> int \<Rightarrow> opSlice" where
  "consume s n =
     (if n > 0 \<and> pos s < length (ops s)
      then let op = ops s ! pos s;
               rem = (if Type op = OpInsert then int64 (len (Chars op) - off s)
                      else int64 (Len op - off s))
           in if n \<ge> rem then consume (s\<lparr>pos := pos s + 1, off := 0\<rparr>) (int64 (n - rem))
              else s\<lparr>off := int64 (off s + n)\<rparr>
      else s)"
  by pat_completeness auto
termination
  by (relation "measure (\<lambda>(s, n). length (ops s) - pos s)") auto

declare consume.simps [simp del]

text \<open>The length of an operation, and what is left of it after \<open>n\<close> of its characters.\<close>

definition op_len :: "Op \<Rightarrow> int" where
  "op_len op = (if Type op = OpInsert then len (Chars op) else Len op)"

definition op_drop :: "int \<Rightarrow> Op \<Rightarrow> Op" where
  "op_drop n op =
     (if Type op = OpInsert then op\<lparr>Chars := drop (nat n) (Chars op)\<rparr>
      else op\<lparr>Len := Len op - n\<rparr>)"

definition remaining :: "opSlice \<Rightarrow> Op list" where
  "remaining s =
     (if pos s < length (ops s)
      then op_drop (off s) (ops s ! pos s) # drop (Suc (pos s)) (ops s) else [])"

definition slice_ok :: "opSlice \<Rightarrow> bool" where
  "slice_ok s \<longleftrightarrow>
     list_all proper_op (ops s) \<and> list_all (\<lambda>op. op_len op < 2 ^ 63) (ops s) \<and> 0 \<le> off s \<and>
     (if pos s < length (ops s) then off s < op_len (ops s ! pos s) else off s = 0)"

lemma op_drop_0 [simp]: "op_drop 0 op = op"
  by (simp add: op_drop_def)

lemma Type_op_drop [simp]: "Type (op_drop n op) = Type op"
  by (simp add: op_drop_def)

lemma op_len_pos: "proper_op op \<Longrightarrow> 0 < op_len op"
  by (cases "Type op") (auto simp: op_len_def)

lemma op_len_drop: "0 \<le> n \<Longrightarrow> n \<le> op_len op \<Longrightarrow> op_len (op_drop n op) = op_len op - n"
  by (auto simp: op_len_def op_drop_def split: if_splits)

lemma op_drop_drop: "0 \<le> m \<Longrightarrow> 0 \<le> n \<Longrightarrow> op_drop m (op_drop n op) = op_drop (n + m) op"
  by (simp add: op_drop_def nat_add_distrib add.commute)

lemma proper_op_drop: "proper_op op \<Longrightarrow> 0 \<le> n \<Longrightarrow> n < op_len op \<Longrightarrow> proper_op (op_drop n op)"
  by (cases "Type op") (auto simp: op_len_def op_drop_def)

lemma slice_ok_newSlice:
  "list_all proper_op os \<Longrightarrow> list_all (\<lambda>op. op_len op < 2 ^ 63) os \<Longrightarrow> slice_ok (newSlice os)"
  by (cases os) (auto simp: slice_ok_def newSlice_def op_len_pos simp del: proper_op.simps)

lemma remaining_newSlice [simp]: "remaining (newSlice os) = os"
  by (cases os) (simp_all add: remaining_def newSlice_def)

lemma proper_remaining: "slice_ok s \<Longrightarrow> list_all proper_op (remaining s)"
  by (auto simp: slice_ok_def remaining_def proper_op_drop list_all_drop list_all_nth
      simp del: proper_op.simps)

lemma op_len_remaining: "slice_ok s \<Longrightarrow> list_all (\<lambda>op. op_len op < 2 ^ 63) (remaining s)"
  using list_all_nth [of "\<lambda>op. op_len op < 2 ^ 63" "ops s" "pos s"]
  by (auto simp: slice_ok_def remaining_def op_len_drop list_all_drop)

lemma peek_remaining:
  assumes "slice_ok s"
  shows "peek s = Ret (case remaining s of [] \<Rightarrow> None | op # _ \<Rightarrow> Some op)"
proof (cases "pos s < length (ops s)")
  case True
  with assms have "0 \<le> off s" "off s < op_len (ops s ! pos s)" "op_len (ops s ! pos s) < 2 ^ 63"
    by (auto simp: slice_ok_def list_all_length)
  with True show ?thesis
    by (auto simp: peek_def remaining_def op_drop_def op_len_def Let_def slice_from)
qed (simp add: peek_def remaining_def)

text \<open>Consuming at most the operation in front keeps the cursor right.\<close>

lemma consume_remaining:
  assumes ok: "slice_ok s" and rem: "remaining s = op # os" and n: "0 < n" "n \<le> op_len op"
  shows "slice_ok (consume s n)"
    and "remaining (consume s n) = (if n = op_len op then os else op_drop n op # os)"
proof -
  let ?o = "ops s ! pos s"
  have in_range: "pos s < length (ops s)" and op: "op = op_drop (off s) ?o"
    and os: "os = drop (Suc (pos s)) (ops s)"
    using rem by (auto simp: remaining_def split: if_splits)
  have off: "0 \<le> off s" "off s < op_len ?o" "op_len ?o < 2 ^ 63"
    using ok in_range by (auto simp: slice_ok_def list_all_length)
  then have len: "op_len op = op_len ?o - off s" by (simp add: op op_len_drop)
  have rem_eq: "(if Type ?o = OpInsert then int64 (len (Chars ?o) - off s)
      else int64 (Len ?o - off s)) = op_len op"
    using off len by (auto simp: op_len_def)
  show "slice_ok (consume s n)"
    and "remaining (consume s n) = (if n = op_len op then os else op_drop n op # os)"
  proof (atomize(full), cases "n = op_len op")
    case True
    then have "consume s n = s\<lparr>pos := pos s + 1, off := 0\<rparr>"
      using in_range n rem_eq by (subst consume.simps, simp add: Let_def)
        (subst consume.simps, simp add: int64_def)
    with ok True show "slice_ok (consume s n) \<and>
        remaining (consume s n) = (if n = op_len op then os else op_drop n op # os)"
      by (auto simp: slice_ok_def remaining_def os list_all_length op_len_pos Cons_nth_drop_Suc
          simp del: proper_op.simps)
  next
    case False
    then have "consume s n = s\<lparr>off := off s + n\<rparr>"
      using in_range n rem_eq off len by (subst consume.simps, simp add: Let_def)
    with ok False in_range off n len show "slice_ok (consume s n) \<and>
        remaining (consume s n) = (if n = op_len op then os else op_drop n op # os)"
      by (auto simp: slice_ok_def remaining_def os op op_drop_drop)
  qed
qed

text \<open>The same in terms of scripts.\<close>

abbreviation edits :: "Op list \<Rightarrow> char script" where
  "edits \<equiv> map edit_of"

abbreviation rest :: "opSlice \<Rightarrow> char script" where
  "rest s \<equiv> edits (remaining s)"

fun edit_drop :: "nat \<Rightarrow> 'a edit \<Rightarrow> 'a script \<Rightarrow> 'a script" where
  "edit_drop n (Keep m) es = keep_rest (m - n) es"
| "edit_drop n (Ins s) es = ins_rest (drop n s) es"
| "edit_drop n (Del m) es = del_rest (m - n) es"

lemma edits_op_drop:
  "proper_op op \<Longrightarrow> 0 < n \<Longrightarrow> n \<le> op_len op \<Longrightarrow>
     edits (if n = op_len op then os else op_drop n op # os) =
       edit_drop (nat n) (edit_of op) (edits os)"
  by (cases "Type op")
    (auto simp: op_len_def op_drop_def keep_rest_def ins_rest_def del_rest_def nat_diff_distrib)

lemma consume_edits:
  assumes "slice_ok s" and "remaining s = op # os" and "0 < n" and "n \<le> op_len op"
  shows "slice_ok (consume s n)"
    and "edits (remaining (consume s n)) = edit_drop (nat n) (edit_of op) (edits os)"
proof -
  show "slice_ok (consume s n)" using assms by (rule consume_remaining)
  have "proper_op op" using proper_remaining [OF assms(1)] by (simp add: assms(2))
  then show "edits (remaining (consume s n)) = edit_drop (nat n) (edit_of op) (edits os)"
    using edits_op_drop [OF _ assms(3,4)] consume_remaining(2) [OF assms] by metis
qed

lemma remaining_hd:
  "slice_ok s \<Longrightarrow> remaining s = op # os \<Longrightarrow> proper_op op \<and> 0 < op_len op \<and> op_len op < 2 ^ 63"
  using proper_remaining [of s] op_len_remaining [of s] by (simp add: op_len_pos del: proper_op.simps)

lemma work_edit_drop: "0 < n \<Longrightarrow> proper e \<Longrightarrow> work (edit_drop n e es) < work (e # es)"
  by (cases e) (auto simp: keep_rest_def ins_rest_def del_rest_def)

section \<open>Building the result\<close>

text \<open>\<open>addOp\<close> of \<open>Compose\<close> and of \<open>DiffToChangeset\<close>.\<close>

definition addOp :: "Op list \<Rightarrow> Op \<Rightarrow> Op list" where
  "addOp rs op =
     (if length rs > 0 \<and> Type (last rs) = Type op
      then case Type op of
          OpRetain \<Rightarrow> butlast rs @ [(last rs)\<lparr>Len := int64 (Len (last rs) + Len op)\<rparr>]
        | OpDelete \<Rightarrow> butlast rs @ [(last rs)\<lparr>Len := int64 (Len (last rs) + Len op)\<rparr>]
        | OpInsert \<Rightarrow> butlast rs @ [(last rs)\<lparr>Chars := Chars (last rs) @ Chars op\<rparr>]
        | OpOther t \<Rightarrow> rs @ [op]
      else rs @ [op])"

lemma addOp_snoc:
  "proper_op x \<Longrightarrow> proper_op op \<Longrightarrow> int (src_len (edits [x, op])) < 2 ^ 63 \<Longrightarrow>
     edits (addOp (rs @ [x]) op) = edits rs @ merge_edit (edit_of x) (edit_of op) \<and>
     (list_all proper_op rs \<longrightarrow> list_all proper_op (addOp (rs @ [x]) op))"
  by (cases "Type x"; cases "Type op") (auto simp: addOp_def nat_add_distrib)

lemma addOp_edits:
  assumes "list_all proper_op rs" and "proper_op op" and "int (src_len (edits (rs @ [op]))) < 2 ^ 63"
  shows "edits (addOp rs op) = add_edit (edits rs) (edit_of op)"
    and "list_all proper_op (addOp rs op)"
proof -
  have "edits (addOp rs op) = add_edit (edits rs) (edit_of op) \<and> list_all proper_op (addOp rs op)"
  proof (cases rs rule: rev_cases)
    case Nil
    with assms show ?thesis by (simp add: addOp_def del: proper_op.simps)
  next
    case (snoc ys x)
    with assms addOp_snoc [of x op ys] show ?thesis
      using src_len_append [of "edits [x]" "edits [op]"]
      by (simp add: add_edit_snoc del: proper_op.simps)
  qed
  then show "edits (addOp rs op) = add_edit (edits rs) (edit_of op)"
    and "list_all proper_op (addOp rs op)" by auto
qed

section \<open>Steps of the scripts by a common length\<close>

lemma compose_script_min:
  "k = min m n \<Longrightarrow> compose_script (Keep m # as) (Keep n # bs) =
     Keep k # compose_script (edit_drop k (Keep m) as) (edit_drop k (Keep n) bs)"
  "k = min m n \<Longrightarrow> compose_script (Keep m # as) (Del n # bs) =
     Del k # compose_script (edit_drop k (Keep m) as) (edit_drop k (Del n) bs)"
  "k = min (length s) n \<Longrightarrow> compose_script (Ins s # as) (Keep n # bs) =
     Ins (take k s) # compose_script (edit_drop k (Ins s) as) (edit_drop k (Keep n) bs)"
  "k = min (length s) n \<Longrightarrow> compose_script (Ins s # as) (Del n # bs) =
     compose_script (edit_drop k (Ins s) as) (edit_drop k (Del n) bs)"
  by (cases "m \<le> n"; cases "length s \<le> n"; simp add: min_def)+

lemma follow_script_min:
  fixes as bs :: "'a::linorder script"
  shows "k = min m n \<Longrightarrow> follow_script (Keep m # as) (Keep n # bs) =
     Keep k # follow_script (edit_drop k (Keep m) as) (edit_drop k (Keep n) bs)"
  "k = min m n \<Longrightarrow> follow_script (Keep m # as) (Del n # bs) =
     Del k # follow_script (edit_drop k (Keep m) as) (edit_drop k (Del n) bs)"
  "k = min m n \<Longrightarrow> follow_script (Del m # as) (Keep n # bs) =
     follow_script (edit_drop k (Del m) as) (edit_drop k (Keep n) bs)"
  "k = min m n \<Longrightarrow> follow_script (Del m # as) (Del n # bs) =
     follow_script (edit_drop k (Del m) as) (edit_drop k (Del n) bs)"
  by (cases "m \<le> n"; simp add: min_def)+

lemma src_len_edit_drop:
  "k \<le> m \<Longrightarrow> src_len (edit_drop k (Keep m) es) = m - k + src_len es"
  "k \<le> m \<Longrightarrow> src_len (edit_drop k (Del m) es) = m - k + src_len es"
  "src_len (edit_drop k (Ins s) es) = src_len es"
  by simp_all

lemma dst_len_edit_drop:
  "k \<le> m \<Longrightarrow> dst_len (edit_drop k (Keep m) es) = m - k + dst_len es"
  "dst_len (edit_drop k (Del m) es) = dst_len es"
  "k \<le> length s \<Longrightarrow> dst_len (edit_drop k (Ins s) es) = length s - k + dst_len es"
  by simp_all

lemma ins_len_edit_drop:
  "ins_len (edit_drop k (Keep m) es) = ins_len es"
  "ins_len (edit_drop k (Del m) es) = ins_len es"
  by simp_all

end
