(* ===== verification/OT_Compose.thy ===== *)
theory OT_Compose
  imports OT_Cursor
begin

text \<open>
  \<^verbatim>\<open>src/internal/ot/compose.go\<close>: \<open>Compose\<close> as the loop the code has, one \<open>compose_round\<close> per
  iteration. \<open>None\<close> says that the loop does not end. On proper operations whose lengths do not
  overflow it ends and computes the composition of the two scripts.
\<close>

section \<open>The loop\<close>

record composeState =
  resOps :: "Op list"
  aSlice :: opSlice
  bSlice :: opSlice

definition compose_round :: "composeState \<Rightarrow> (composeState, Op list) round outcome" where
  "compose_round st =
     bind_outcome (peek (bSlice st)) (\<lambda>bOp.
     bind_outcome (peek (aSlice st)) (\<lambda>aOp.
       if bOp = None \<and> aOp = None then Ret (Break (resOps st))
       else if bOp \<noteq> None \<and> Type (the bOp) = OpInsert then
         Ret (Continue \<lparr>resOps = addOp (resOps st) (Insert (Chars (the bOp))),
           aSlice = aSlice st, bSlice = consume (bSlice st) (len (Chars (the bOp)))\<rparr>)
       else if aOp \<noteq> None \<and> Type (the aOp) = OpDelete then
         Ret (Continue \<lparr>resOps = addOp (resOps st) (Delete (Len (the aOp))),
           aSlice = consume (aSlice st) (Len (the aOp)), bSlice = bSlice st\<rparr>)
       else if aOp = None \<or> bOp = None then Ret (Break (resOps st))
       else
         let a = the aOp; b = the bOp;
             aLen = (if Type a = OpInsert then len (Chars a) else Len a);
             bLen = Len b;
             n = (if bLen < aLen then bLen else aLen)
         in bind_outcome
           (if Type a = OpRetain \<and> Type b = OpRetain then Ret (addOp (resOps st) (Retain n))
            else if Type a = OpRetain \<and> Type b = OpDelete then Ret (addOp (resOps st) (Delete n))
            else if Type a = OpInsert \<and> Type b = OpRetain then
              bind_outcome (slice (Chars a) 0 n) (\<lambda>chars. Ret (addOp (resOps st) (Insert chars)))
            else Ret (resOps st))
           (\<lambda>rs. Ret (Continue \<lparr>resOps = rs, aSlice = consume (aSlice st) n,
              bSlice = consume (bSlice st) n\<rparr>))))"

definition Compose :: "Changeset \<Rightarrow> Changeset \<Rightarrow> Changeset outcome option" where
  "Compose A B =
     map_option (\<lambda>r. bind_outcome r (\<lambda>rs. Ret \<lparr>OldLen = OldLen A, NewLen = NewLen B, Ops = rs\<rparr>))
       (go_loop compose_round
         \<lparr>resOps = [], aSlice = newSlice (Ops A), bSlice = newSlice (Ops B)\<rparr>)"

section \<open>What the loop computes\<close>

definition compose_inv :: "composeState \<Rightarrow> bool" where
  "compose_inv st \<longleftrightarrow>
     slice_ok (aSlice st) \<and> slice_ok (bSlice st) \<and> list_all proper_op (resOps st) \<and>
     src_len (edits (resOps st)) + src_len (rest (aSlice st)) < 2 ^ 63"

definition compose_post :: "composeState \<Rightarrow> Op list \<Rightarrow> bool" where
  "compose_post st rs \<longleftrightarrow>
     list_all proper_op rs \<and>
     edits rs = add_edits (edits (resOps st))
       (compose_script (rest (aSlice st)) (rest (bSlice st)))"

definition compose_work :: "composeState \<Rightarrow> nat" where
  "compose_work st = work (rest (aSlice st)) + work (rest (bSlice st))"

text \<open>A round that goes on is right when it takes one step of \<open>compose_script\<close>.\<close>

definition compose_next :: "composeState \<Rightarrow> composeState \<Rightarrow> bool" where
  "compose_next st st' \<longleftrightarrow>
     compose_inv st' \<and> compose_work st' < compose_work st \<and>
     (\<forall>rs. compose_post st' rs \<longrightarrow> compose_post st rs)"

lemmas compose_defs = compose_inv_def compose_post_def compose_work_def compose_next_def

lemma compose_next_emit:
  assumes "compose_inv st" and "proper_op op" and "slice_ok a" and "slice_ok b"
    and "compose_script (rest (aSlice st)) (rest (bSlice st)) =
      edit_of op # compose_script (rest a) (rest b)"
    and "src_len [edit_of op] + src_len (rest a) \<le> src_len (rest (aSlice st))"
    and "work (rest a) + work (rest b) < work (rest (aSlice st)) + work (rest (bSlice st))"
  shows "compose_next st \<lparr>resOps = addOp (resOps st) op, aSlice = a, bSlice = b\<rparr>"
proof -
  have "int (src_len (edits (resOps st @ [op]))) < 2 ^ 63"
    using assms(1,6) by (simp add: compose_inv_def)
  with assms addOp_edits [of "resOps st" op] show ?thesis
    by (auto simp: compose_defs simp del: proper_op.simps)
qed

lemma compose_next_skip:
  assumes "compose_inv st" and "slice_ok a" and "slice_ok b"
    and "compose_script (rest (aSlice st)) (rest (bSlice st)) = compose_script (rest a) (rest b)"
    and "src_len (rest a) \<le> src_len (rest (aSlice st))"
    and "work (rest a) + work (rest b) < work (rest (aSlice st)) + work (rest (bSlice st))"
  shows "compose_next st \<lparr>resOps = resOps st, aSlice = a, bSlice = b\<rparr>"
  using assms by (auto simp: compose_defs)

text \<open>One round, by what the two cursors stand at.\<close>

lemma compose_round_b_insert:
  assumes "compose_inv st" and rb: "remaining (bSlice st) = y # ys" and "Type y = OpInsert"
  shows "\<exists>st'. compose_round st = Ret (Continue st') \<and> compose_next st st'"
proof -
  have a: "slice_ok (aSlice st)" and b: "slice_ok (bSlice st)"
    using assms(1) by (auto simp: compose_inv_def)
  note y = remaining_hd [OF b rb]
  have ly: "op_len y = len (Chars y)" using assms(3) by (simp add: op_len_def)
  note c = consume_edits [OF b rb, of "op_len y"]
  have "compose_next st \<lparr>resOps = addOp (resOps st) (Insert (Chars y)), aSlice = aSlice st,
      bSlice = consume (bSlice st) (op_len y)\<rparr>"
    using assms y c ly by (intro compose_next_emit) (auto simp: a b rb)
  with assms(3) show ?thesis
    by (simp add: compose_round_def peek_remaining a b rb ly)
qed

lemma compose_round_a_delete:
  assumes "compose_inv st" and ra: "remaining (aSlice st) = x # xs" and "Type x = OpDelete"
    and nb: "\<And>y ys. remaining (bSlice st) = y # ys \<Longrightarrow> Type y \<noteq> OpInsert"
  shows "\<exists>st'. compose_round st = Ret (Continue st') \<and> compose_next st st'"
proof -
  have a: "slice_ok (aSlice st)" and b: "slice_ok (bSlice st)"
    using assms(1) by (auto simp: compose_inv_def)
  note x = remaining_hd [OF a ra]
  have lx: "op_len x = Len x" using assms(3) by (simp add: op_len_def)
  note c = consume_edits [OF a ra, of "op_len x"]
  have "compose_script (rest (aSlice st)) (rest (bSlice st)) =
      Del (nat (Len x)) # compose_script (edits xs) (rest (bSlice st))"
  proof (cases "remaining (bSlice st)")
    case Nil
    with ra assms(3) show ?thesis by simp
  next
    case (Cons y ys)
    with ra assms(3) nb [OF Cons] remaining_hd [OF b Cons] show ?thesis
      by (cases "Type y") auto
  qed
  then have "compose_next st \<lparr>resOps = addOp (resOps st) (Delete (Len x)),
      aSlice = consume (aSlice st) (op_len x), bSlice = bSlice st\<rparr>"
    using assms(1,3) x c lx by (intro compose_next_emit) (auto simp: a b ra)
  with assms(3) nb show ?thesis
    by (auto simp: compose_round_def peek_remaining a b ra lx split: list.splits)
qed

lemma compose_round_both:
  assumes "compose_inv st" and ra: "remaining (aSlice st) = x # xs"
    and rb: "remaining (bSlice st) = y # ys" and "Type x \<noteq> OpDelete" and "Type y \<noteq> OpInsert"
  shows "\<exists>st'. compose_round st = Ret (Continue st') \<and> compose_next st st'"
proof -
  have a: "slice_ok (aSlice st)" and b: "slice_ok (bSlice st)"
    using assms(1) by (auto simp: compose_inv_def)
  note x = remaining_hd [OF a ra] and y = remaining_hd [OF b rb]
  define n where "n = (if op_len y < op_len x then op_len y else op_len x)"
  have n: "0 < n" "n \<le> op_len x" "n \<le> op_len y" "nat n = min (nat (op_len x)) (nat (op_len y))"
    using x y by (auto simp: n_def)
  note ca = consume_edits [OF a ra n(1,2)] and cb = consume_edits [OF b rb n(1,3)]
  have work: "work (rest (consume (aSlice st) n)) + work (rest (consume (bSlice st) n))
      < work (rest (aSlice st)) + work (rest (bSlice st))"
    using work_edit_drop [of "nat n" "edit_of x" "edits xs"] x n(1)
      work_edit_drop [of "nat n" "edit_of y" "edits ys"] y
    by (simp add: ra rb ca cb proper_edit_of del: proper_op.simps)
  note nxt = ca(1) cb(1) work
  let ?st = "\<lambda>rs. \<lparr>resOps = rs, aSlice = consume (aSlice st) n, bSlice = consume (bSlice st) n\<rparr>"
  have ev: "compose_round st = bind_outcome
      (if Type x = OpRetain \<and> Type y = OpRetain then Ret (addOp (resOps st) (Retain n))
       else if Type x = OpRetain \<and> Type y = OpDelete then Ret (addOp (resOps st) (Delete n))
       else if Type x = OpInsert \<and> Type y = OpRetain then
         bind_outcome (slice (Chars x) 0 n) (\<lambda>chars. Ret (addOp (resOps st) (Insert chars)))
       else Ret (resOps st)) (\<lambda>rs. Ret (Continue (?st rs)))"
    using assms(4,5)
    by (simp add: compose_round_def peek_remaining a b ra rb Let_def n_def op_len_def)
  show ?thesis
  proof (cases "Type x"; cases "Type y")
    assume t: "Type x = OpRetain" "Type y = OpRetain"
    then have k: "nat n = min (nat (Len x)) (nat (Len y))" using n(4) by (simp add: op_len_def)
    have "compose_next st (?st (addOp (resOps st) (Retain n)))"
      by (rule compose_next_emit [OF assms(1) _ nxt(1,2) _ _ nxt(3)])
        (use t n(1) k in \<open>simp_all add: ra rb ca cb compose_script_min src_len_edit_drop
          del: edit_drop.simps compose_script.simps\<close>)
    with t show ?thesis by (simp add: ev)
  next
    assume t: "Type x = OpRetain" "Type y = OpDelete"
    then have k: "nat n = min (nat (Len x)) (nat (Len y))" using n(4) by (simp add: op_len_def)
    have "compose_next st (?st (addOp (resOps st) (Delete n)))"
      by (rule compose_next_emit [OF assms(1) _ nxt(1,2) _ _ nxt(3)])
        (use t n(1) k in \<open>simp_all add: ra rb ca cb compose_script_min src_len_edit_drop
          del: edit_drop.simps compose_script.simps\<close>)
    with t show ?thesis by (simp add: ev)
  next
    assume t: "Type x = OpInsert" "Type y = OpRetain"
    then have k: "nat n = min (length (Chars x)) (nat (Len y))" using n(4) by (simp add: op_len_def)
    have "compose_next st (?st (addOp (resOps st) (Insert (take (nat n) (Chars x)))))"
      by (rule compose_next_emit [OF assms(1) _ nxt(1,2) _ _ nxt(3)])
        (use t n(1) k x in \<open>simp_all add: ra rb ca cb compose_script_min src_len_edit_drop
          del: edit_drop.simps compose_script.simps\<close>)
    with t n show ?thesis by (simp add: ev slice_to op_len_def)
  next
    assume t: "Type x = OpInsert" "Type y = OpDelete"
    then have k: "nat n = min (length (Chars x)) (nat (Len y))" using n(4) by (simp add: op_len_def)
    have "compose_next st (?st (resOps st))"
      by (rule compose_next_skip [OF assms(1) nxt(1,2) _ _ nxt(3)])
        (use t k in \<open>simp_all add: ra rb ca cb compose_script_min src_len_edit_drop
          del: edit_drop.simps compose_script.simps\<close>)
    with t show ?thesis by (simp add: ev)
  qed (use assms(4,5) x y in auto)
qed

lemma compose_round_end:
  assumes "compose_inv st" and "remaining (aSlice st) = [] \<or> remaining (bSlice st) = []"
    and na: "\<And>x xs. remaining (aSlice st) = x # xs \<Longrightarrow> Type x \<noteq> OpDelete"
    and nb: "\<And>y ys. remaining (bSlice st) = y # ys \<Longrightarrow> Type y \<noteq> OpInsert"
  shows "compose_round st = Ret (Break (resOps st)) \<and> compose_post st (resOps st)"
proof -
  have a: "slice_ok (aSlice st)" and b: "slice_ok (bSlice st)"
    and res: "list_all proper_op (resOps st)"
    using assms(1) by (auto simp: compose_inv_def)
  have "compose_script (rest (aSlice st)) (rest (bSlice st)) = []"
  proof (cases "remaining (aSlice st)")
    case Nil
    then show ?thesis using nb proper_remaining [OF b]
      by (cases "remaining (bSlice st)"; cases "Type (hd (remaining (bSlice st)))") auto
  next
    case (Cons x xs)
    with assms(2) na [OF Cons] proper_remaining [OF a] show ?thesis
      by (cases "Type x") auto
  qed
  with res assms(2) na nb show ?thesis
    by (auto simp: compose_round_def compose_post_def peek_remaining a b split: list.splits)
qed

lemma compose_round_step:
  assumes "compose_inv st"
  shows "(\<exists>st'. compose_round st = Ret (Continue st') \<and> compose_next st st') \<or>
         compose_round st = Ret (Break (resOps st)) \<and> compose_post st (resOps st)"
proof (cases "\<exists>y ys. remaining (bSlice st) = y # ys \<and> Type y = OpInsert")
  case True
  with assms show ?thesis by (blast dest: compose_round_b_insert)
next
  case b: False
  show ?thesis
  proof (cases "\<exists>x xs. remaining (aSlice st) = x # xs \<and> Type x = OpDelete")
    case True
    with assms b show ?thesis by (blast dest: compose_round_a_delete)
  next
    case a: False
    show ?thesis
    proof (cases "remaining (aSlice st) = [] \<or> remaining (bSlice st) = []")
      case True
      with assms a b show ?thesis by (blast dest: compose_round_end)
    next
      case False
      with assms a b show ?thesis by (auto simp: neq_Nil_conv dest: compose_round_both)
    qed
  qed
qed

text \<open>The whole loop: total, and the script of the result is the composition, merged.\<close>

lemma compose_loop:
  assumes "compose_inv st"
  shows "\<exists>rs. go_loop compose_round st = Some (Ret rs) \<and> compose_post st rs"
proof (rule go_loop_total [where I = compose_inv and m = compose_work])
  fix st assume "compose_inv st"
  then show "(\<exists>st'. compose_round st = Ret (Continue st') \<and> compose_inv st' \<and>
      compose_work st' < compose_work st) \<or> (\<exists>rs. compose_round st = Ret (Break rs) \<and> compose_post st rs)"
    using compose_round_step [of st] by (auto simp: compose_next_def)
next
  fix st st' rs
  assume "compose_inv st" "compose_round st = Ret (Continue st')" "compose_post st' rs"
  then show "compose_post st rs"
    using compose_round_step [of st] by (auto simp: compose_next_def)
qed (fact assms)

lemma Compose_script:
  assumes "list_all proper_op (Ops A)" and "list_all proper_op (Ops B)"
    and "list_all (\<lambda>op. op_len op < 2 ^ 63) (Ops A)" and "list_all (\<lambda>op. op_len op < 2 ^ 63) (Ops B)"
    and "src_len (script A) < 2 ^ 63"
  shows "\<exists>C. Compose A B = Some (Ret C) \<and> OldLen C = OldLen A \<and> NewLen C = NewLen B \<and>
    list_all proper_op (Ops C) \<and> script C = add_edits [] (compose_script (script A) (script B))"
proof -
  let ?st = "\<lparr>resOps = [], aSlice = newSlice (Ops A), bSlice = newSlice (Ops B)\<rparr>"
  have "compose_inv ?st"
    using assms by (simp add: compose_inv_def slice_ok_newSlice script_def)
  then obtain rs where "go_loop compose_round ?st = Some (Ret rs)" "compose_post ?st rs"
    by (blast dest: compose_loop)
  then show ?thesis
    by (intro exI [of _ "\<lparr>OldLen = OldLen A, NewLen = NewLen B, Ops = rs\<rparr>"])
      (auto simp: Compose_def compose_post_def script_def)
qed

end
