(* ===== verification/OT_Follow.thy ===== *)
theory OT_Follow
  imports OT_Cursor
begin

text \<open>
  \<^verbatim>\<open>src/internal/ot/follow.go\<close>: \<open>Follow\<close>, the rebase of one changeset over another, as the loop
  the code has. On proper operations whose lengths do not overflow it ends and computes the rebase
  of the scripts, and the \<open>NewLen\<close> it counts up is the length of what the result produces.
\<close>

section \<open>The loop\<close>

text \<open>\<open>addOp\<close> of \<open>Follow\<close>, which keeps count of the new length.\<close>

definition follow_addOp :: "Changeset \<Rightarrow> Op \<Rightarrow> Changeset" where
  "follow_addOp r op =
     (let appended =
        (let r' = r\<lparr>Ops := Ops r @ [op]\<rparr> in
         case Type op of
           OpRetain \<Rightarrow> r'\<lparr>NewLen := int64 (NewLen r' + Len op)\<rparr>
         | OpInsert \<Rightarrow> r'\<lparr>NewLen := int64 (NewLen r' + len (Chars op))\<rparr>
         | OpDelete \<Rightarrow> r'
         | OpOther t \<Rightarrow> r')
      in if length (Ops r) > 0 \<and> Type (last (Ops r)) = Type op
         then let l = last (Ops r); init = butlast (Ops r) in
           case Type op of
             OpRetain \<Rightarrow> r\<lparr>Ops := init @ [l\<lparr>Len := int64 (Len l + Len op)\<rparr>],
                           NewLen := int64 (NewLen r + Len op)\<rparr>
           | OpDelete \<Rightarrow> r\<lparr>Ops := init @ [l\<lparr>Len := int64 (Len l + Len op)\<rparr>]\<rparr>
           | OpInsert \<Rightarrow> r\<lparr>Ops := init @ [l\<lparr>Chars := Chars l @ Chars op\<rparr>],
                           NewLen := int64 (NewLen r + len (Chars op))\<rparr>
           | OpOther t \<Rightarrow> appended
         else appended)"

record followState =
  result :: Changeset
  aCur :: opSlice
  bCur :: opSlice

definition follow_round :: "followState \<Rightarrow> (followState, Changeset) round outcome" where
  "follow_round st =
     bind_outcome (peek (aCur st)) (\<lambda>aOp.
     bind_outcome (peek (bCur st)) (\<lambda>bOp.
       if aOp = None \<and> bOp = None then Ret (Break (result st))
       else if aOp \<noteq> None \<and> Type (the aOp) = OpInsert \<and> bOp \<noteq> None \<and> Type (the bOp) = OpInsert then
         (if Chars (the aOp) \<le> Chars (the bOp) then
            Ret (Continue \<lparr>result = follow_addOp (result st) (Retain (len (Chars (the aOp)))),
              aCur = consume (aCur st) (len (Chars (the aOp))), bCur = bCur st\<rparr>)
          else
            Ret (Continue \<lparr>result = follow_addOp (result st) (Insert (Chars (the bOp))),
              aCur = aCur st, bCur = consume (bCur st) (len (Chars (the bOp)))\<rparr>))
       else if aOp \<noteq> None \<and> Type (the aOp) = OpInsert then
         Ret (Continue \<lparr>result = follow_addOp (result st) (Retain (len (Chars (the aOp)))),
           aCur = consume (aCur st) (len (Chars (the aOp))), bCur = bCur st\<rparr>)
       else if bOp \<noteq> None \<and> Type (the bOp) = OpInsert then
         Ret (Continue \<lparr>result = follow_addOp (result st) (Insert (Chars (the bOp))),
           aCur = aCur st, bCur = consume (bCur st) (len (Chars (the bOp)))\<rparr>)
       else if aOp = None \<or> bOp = None then Ret (Break (result st))
       else
         let a = the aOp; b = the bOp;
             n = (if Len b < Len a then Len b else Len a);
             r = (if Type a = OpRetain \<and> Type b = OpRetain then follow_addOp (result st) (Retain n)
                  else if Type a = OpRetain \<and> Type b = OpDelete then follow_addOp (result st) (Delete n)
                  else result st)
         in Ret (Continue \<lparr>result = r, aCur = consume (aCur st) n, bCur = consume (bCur st) n\<rparr>)))"

definition Follow :: "Changeset \<Rightarrow> Changeset \<Rightarrow> Changeset outcome option" where
  "Follow A B =
     go_loop follow_round
       \<lparr>result = \<lparr>OldLen = NewLen A, NewLen = 0, Ops = []\<rparr>,
        aCur = newSlice (Ops A), bCur = newSlice (Ops B)\<rparr>"

section \<open>What the loop computes\<close>

lemma follow_addOp_Ops [simp]: "Ops (follow_addOp r op) = addOp (Ops r) op"
  by (cases "Type op") (auto simp: follow_addOp_def addOp_def Let_def)

lemma follow_addOp_OldLen [simp]: "OldLen (follow_addOp r op) = OldLen r"
  by (cases "Type op") (auto simp: follow_addOp_def Let_def)

lemma follow_addOp_NewLen:
  "proper_op op \<Longrightarrow> 0 \<le> NewLen r \<Longrightarrow> NewLen r + int (dst_len [edit_of op]) < 2 ^ 63 \<Longrightarrow>
     NewLen (follow_addOp r op) = NewLen r + int (dst_len [edit_of op])"
  by (cases "Type op") (auto simp: follow_addOp_def Let_def)

definition follow_inv :: "followState \<Rightarrow> bool" where
  "follow_inv st \<longleftrightarrow>
     slice_ok (aCur st) \<and> slice_ok (bCur st) \<and> list_all proper_op (Ops (result st)) \<and>
     NewLen (result st) = int (dst_len (edits (Ops (result st)))) \<and>
     src_len (edits (Ops (result st))) + dst_len (rest (aCur st)) < 2 ^ 63 \<and>
     dst_len (edits (Ops (result st))) + dst_len (rest (aCur st)) + ins_len (rest (bCur st)) < 2 ^ 63"

definition follow_post :: "followState \<Rightarrow> Changeset \<Rightarrow> bool" where
  "follow_post st r \<longleftrightarrow>
     list_all proper_op (Ops r) \<and> OldLen r = OldLen (result st) \<and>
     NewLen r = int (dst_len (edits (Ops r))) \<and>
     edits (Ops r) = add_edits (edits (Ops (result st)))
       (follow_script (rest (aCur st)) (rest (bCur st)))"

definition follow_work :: "followState \<Rightarrow> nat" where
  "follow_work st = work (rest (aCur st)) + work (rest (bCur st))"

definition follow_next :: "followState \<Rightarrow> followState \<Rightarrow> bool" where
  "follow_next st st' \<longleftrightarrow>
     follow_inv st' \<and> follow_work st' < follow_work st \<and>
     (\<forall>r. follow_post st' r \<longrightarrow> follow_post st r)"

lemmas follow_defs = follow_inv_def follow_post_def follow_work_def follow_next_def

lemma follow_next_emit:
  assumes "follow_inv st" and "proper_op op" and "slice_ok a" and "slice_ok b"
    and "follow_script (rest (aCur st)) (rest (bCur st)) =
      edit_of op # follow_script (rest a) (rest b)"
    and "src_len [edit_of op] + dst_len (rest a) \<le> dst_len (rest (aCur st))"
    and "dst_len [edit_of op] + dst_len (rest a) + ins_len (rest b)
      \<le> dst_len (rest (aCur st)) + ins_len (rest (bCur st))"
    and "work (rest a) + work (rest b) < work (rest (aCur st)) + work (rest (bCur st))"
  shows "follow_next st \<lparr>result = follow_addOp (result st) op, aCur = a, bCur = b\<rparr>"
proof -
  let ?rs = "Ops (result st)"
  have "int (src_len (edits (?rs @ [op]))) < 2 ^ 63"
    using assms(1,6) by (simp add: follow_inv_def)
  then have add: "edits (addOp ?rs op) = add_edit (edits ?rs) (edit_of op)"
    "list_all proper_op (addOp ?rs op)"
    using assms(1,2) addOp_edits [of ?rs op] by (auto simp: follow_inv_def simp del: proper_op.simps)
  have new: "NewLen (follow_addOp (result st) op) = int (dst_len (edits (addOp ?rs op)))"
    using assms(1,2,7) follow_addOp_NewLen [of op "result st"] add
    by (simp add: follow_inv_def del: proper_op.simps)
  show ?thesis using assms add new by (auto simp: follow_defs simp del: proper_op.simps)
qed

lemma follow_next_skip:
  assumes "follow_inv st" and "slice_ok a" and "slice_ok b"
    and "follow_script (rest (aCur st)) (rest (bCur st)) = follow_script (rest a) (rest b)"
    and "dst_len (rest a) \<le> dst_len (rest (aCur st))" and "ins_len (rest b) \<le> ins_len (rest (bCur st))"
    and "work (rest a) + work (rest b) < work (rest (aCur st)) + work (rest (bCur st))"
  shows "follow_next st \<lparr>result = result st, aCur = a, bCur = b\<rparr>"
  using assms by (auto simp: follow_defs)

text \<open>Consuming an insertion as a whole.\<close>

lemma consume_insert:
  assumes "slice_ok s" and "remaining s = op # os" and "Type op = OpInsert"
  shows "slice_ok (consume s (len (Chars op)))" and "rest (consume s (len (Chars op))) = edits os"
    and "Chars op \<noteq> []" and "rest s = Ins (Chars op) # edits os"
proof -
  have l: "op_len op = len (Chars op)" using assms(3) by (simp add: op_len_def)
  then show "Chars op \<noteq> []" using remaining_hd [OF assms(1,2)] by auto
  show "slice_ok (consume s (len (Chars op)))" and "rest (consume s (len (Chars op))) = edits os"
    using consume_edits [OF assms(1,2), of "op_len op"] remaining_hd [OF assms(1,2)] assms(3) l
    by auto
  show "rest s = Ins (Chars op) # edits os" using assms by simp
qed

text \<open>What the script does when \<open>a\<close> inserts and goes first, and when \<open>b\<close> does.\<close>

definition a_first :: "Op list \<Rightarrow> Op list \<Rightarrow> bool" where
  "a_first as bs \<longleftrightarrow> as \<noteq> [] \<and> Type (hd as) = OpInsert \<and>
     (bs \<noteq> [] \<and> Type (hd bs) = OpInsert \<longrightarrow> Chars (hd as) \<le> Chars (hd bs))"

definition b_first :: "Op list \<Rightarrow> Op list \<Rightarrow> bool" where
  "b_first as bs \<longleftrightarrow> bs \<noteq> [] \<and> Type (hd bs) = OpInsert \<and>
     (as \<noteq> [] \<and> Type (hd as) = OpInsert \<longrightarrow> \<not> Chars (hd as) \<le> Chars (hd bs))"

lemma follow_script_a_first:
  "list_all proper_op (x # xs) \<Longrightarrow> list_all proper_op bs \<Longrightarrow> a_first (x # xs) bs \<Longrightarrow>
     follow_script (edits (x # xs)) (edits bs) =
       Keep (length (Chars x)) # follow_script (edits xs) (edits bs)"
  by (cases bs; cases "Type (hd bs)") (auto simp: a_first_def)

lemma follow_script_b_first:
  "list_all proper_op as \<Longrightarrow> list_all proper_op (y # ys) \<Longrightarrow> b_first as (y # ys) \<Longrightarrow>
     follow_script (edits as) (edits (y # ys)) =
       Ins (Chars y) # follow_script (edits as) (edits ys)"
  by (cases as; cases "Type (hd as)") (auto simp: b_first_def)

lemma follow_round_a_first:
  assumes "follow_inv st" and "a_first (remaining (aCur st)) (remaining (bCur st))"
  shows "\<exists>st'. follow_round st = Ret (Continue st') \<and> follow_next st st'"
proof -
  have a: "slice_ok (aCur st)" and b: "slice_ok (bCur st)"
    using assms(1) by (auto simp: follow_inv_def)
  obtain x xs where ra: "remaining (aCur st) = x # xs" and t: "Type x = OpInsert"
    using assms(2) by (cases "remaining (aCur st)") (auto simp: a_first_def)
  note c = consume_insert [OF a ra t]
  have "follow_script (rest (aCur st)) (rest (bCur st)) =
      Keep (length (Chars x)) # follow_script (edits xs) (rest (bCur st))"
    using follow_script_a_first [of x xs] assms(2) proper_remaining [OF a] proper_remaining [OF b] ra
    by simp
  then have "follow_next st \<lparr>result = follow_addOp (result st) (Retain (len (Chars x))),
      aCur = consume (aCur st) (len (Chars x)), bCur = bCur st\<rparr>"
    using assms(1) b c t ra by (intro follow_next_emit) auto
  with assms(2) t show ?thesis
    by (auto simp: follow_round_def peek_remaining a b ra a_first_def split: list.splits)
qed

lemma follow_round_b_first:
  assumes "follow_inv st" and "b_first (remaining (aCur st)) (remaining (bCur st))"
  shows "\<exists>st'. follow_round st = Ret (Continue st') \<and> follow_next st st'"
proof -
  have a: "slice_ok (aCur st)" and b: "slice_ok (bCur st)"
    using assms(1) by (auto simp: follow_inv_def)
  obtain y ys where rb: "remaining (bCur st) = y # ys" and t: "Type y = OpInsert"
    using assms(2) by (cases "remaining (bCur st)") (auto simp: b_first_def)
  note c = consume_insert [OF b rb t]
  have "follow_script (rest (aCur st)) (rest (bCur st)) =
      Ins (Chars y) # follow_script (rest (aCur st)) (edits ys)"
    using follow_script_b_first [of _ y ys] assms(2) proper_remaining [OF a] proper_remaining [OF b] rb
    by simp
  then have "follow_next st \<lparr>result = follow_addOp (result st) (Insert (Chars y)),
      aCur = aCur st, bCur = consume (bCur st) (len (Chars y))\<rparr>"
    using assms(1) a c t rb by (intro follow_next_emit) auto
  with assms(2) t show ?thesis
    by (auto simp: follow_round_def peek_remaining a b rb b_first_def split: list.splits)
qed

lemma follow_round_both:
  assumes "follow_inv st" and ra: "remaining (aCur st) = x # xs" and rb: "remaining (bCur st) = y # ys"
    and "Type x \<noteq> OpInsert" and "Type y \<noteq> OpInsert"
  shows "\<exists>st'. follow_round st = Ret (Continue st') \<and> follow_next st st'"
proof -
  have a: "slice_ok (aCur st)" and b: "slice_ok (bCur st)"
    using assms(1) by (auto simp: follow_inv_def)
  note x = remaining_hd [OF a ra] and y = remaining_hd [OF b rb]
  have len: "op_len x = Len x" "op_len y = Len y" using assms(4,5) by (auto simp: op_len_def)
  define n where "n = (if Len y < Len x then Len y else Len x)"
  have n: "0 < n" "n \<le> op_len x" "n \<le> op_len y" and k: "nat n = min (nat (Len x)) (nat (Len y))"
    using x y len by (auto simp: n_def)
  note ca = consume_edits [OF a ra n(1,2)] and cb = consume_edits [OF b rb n(1,3)]
  have work: "work (rest (consume (aCur st) n)) + work (rest (consume (bCur st) n))
      < work (rest (aCur st)) + work (rest (bCur st))"
    using work_edit_drop [of "nat n" "edit_of x" "edits xs"] x n(1)
      work_edit_drop [of "nat n" "edit_of y" "edits ys"] y
    by (simp add: ra rb ca cb proper_edit_of del: proper_op.simps)
  let ?st = "\<lambda>r. \<lparr>result = r, aCur = consume (aCur st) n, bCur = consume (bCur st) n\<rparr>"
  have ev: "follow_round st = Ret (Continue (?st
      (if Type x = OpRetain \<and> Type y = OpRetain then follow_addOp (result st) (Retain n)
       else if Type x = OpRetain \<and> Type y = OpDelete then follow_addOp (result st) (Delete n)
       else result st)))"
    using assms(4,5) by (simp add: follow_round_def peek_remaining a b ra rb Let_def n_def)
  note lens = src_len_edit_drop dst_len_edit_drop ins_len_edit_drop
  note emit = follow_next_emit [OF assms(1) _ ca(1) cb(1) _ _ _ work]
    and skip = follow_next_skip [OF assms(1) ca(1) cb(1) _ _ _ work]
  show ?thesis
  proof (cases "Type x"; cases "Type y")
    assume t: "Type x = OpRetain" "Type y = OpRetain"
    have "follow_next st (?st (follow_addOp (result st) (Retain n)))"
      by (rule emit) (use t n(1) k in \<open>simp_all add: ra rb ca cb follow_script_min lens
        del: edit_drop.simps follow_script.simps\<close>)
    with t show ?thesis by (simp add: ev)
  next
    assume t: "Type x = OpRetain" "Type y = OpDelete"
    have "follow_next st (?st (follow_addOp (result st) (Delete n)))"
      by (rule emit) (use t n(1) k in \<open>simp_all add: ra rb ca cb follow_script_min lens
        del: edit_drop.simps follow_script.simps\<close>)
    with t show ?thesis by (simp add: ev)
  next
    assume t: "Type x = OpDelete" "Type y = OpRetain"
    have "follow_next st (?st (result st))"
      by (rule skip) (use t k in \<open>simp_all add: ra rb ca cb follow_script_min lens
        del: edit_drop.simps follow_script.simps\<close>)
    with t show ?thesis by (simp add: ev)
  next
    assume t: "Type x = OpDelete" "Type y = OpDelete"
    have "follow_next st (?st (result st))"
      by (rule skip) (use t k in \<open>simp_all add: ra rb ca cb follow_script_min lens
        del: edit_drop.simps follow_script.simps\<close>)
    with t show ?thesis by (simp add: ev)
  qed (use assms(4,5) x y in auto)
qed

lemma follow_round_end:
  assumes "follow_inv st" and "remaining (aCur st) = [] \<or> remaining (bCur st) = []"
    and "\<not> a_first (remaining (aCur st)) (remaining (bCur st))"
    and "\<not> b_first (remaining (aCur st)) (remaining (bCur st))"
  shows "follow_round st = Ret (Break (result st)) \<and> follow_post st (result st)"
proof -
  have a: "slice_ok (aCur st)" and b: "slice_ok (bCur st)"
    using assms(1) by (auto simp: follow_inv_def)
  have "follow_script (rest (aCur st)) (rest (bCur st)) = []"
  proof (cases "remaining (aCur st)")
    case Nil
    then show ?thesis using assms(4) proper_remaining [OF b]
      by (cases "remaining (bCur st)"; cases "Type (hd (remaining (bCur st)))")
        (auto simp: b_first_def)
  next
    case (Cons x xs)
    with assms(2,3) proper_remaining [OF a] show ?thesis
      by (cases "Type x") (auto simp: a_first_def)
  qed
  with assms show ?thesis
    by (auto simp: follow_round_def follow_post_def follow_inv_def a_first_def b_first_def
        peek_remaining split: list.splits)
qed

lemma follow_round_step:
  assumes "follow_inv st"
  shows "(\<exists>st'. follow_round st = Ret (Continue st') \<and> follow_next st st') \<or>
         follow_round st = Ret (Break (result st)) \<and> follow_post st (result st)"
proof -
  let ?a = "remaining (aCur st)" and ?b = "remaining (bCur st)"
  consider "a_first ?a ?b" | "b_first ?a ?b" | "?a = [] \<or> ?b = []" "\<not> a_first ?a ?b" "\<not> b_first ?a ?b"
    | x xs y ys where "?a = x # xs" "?b = y # ys" "Type x \<noteq> OpInsert" "Type y \<noteq> OpInsert"
    by (cases ?a; cases ?b) (auto simp: a_first_def b_first_def)
  then show ?thesis
  proof cases
    case 4
    with assms show ?thesis by (auto dest: follow_round_both)
  qed (use assms in \<open>auto dest: follow_round_a_first follow_round_b_first follow_round_end\<close>)
qed

lemma follow_loop:
  assumes "follow_inv st"
  shows "\<exists>r. go_loop follow_round st = Some (Ret r) \<and> follow_post st r"
proof (rule go_loop_total [where I = follow_inv and m = follow_work])
  fix st assume "follow_inv st"
  then show "(\<exists>st'. follow_round st = Ret (Continue st') \<and> follow_inv st' \<and>
      follow_work st' < follow_work st) \<or> (\<exists>r. follow_round st = Ret (Break r) \<and> follow_post st r)"
    using follow_round_step [of st] by (auto simp: follow_next_def)
next
  fix st st' r
  assume "follow_inv st" "follow_round st = Ret (Continue st')" "follow_post st' r"
  then show "follow_post st r"
    using follow_round_step [of st] by (auto simp: follow_next_def)
qed (fact assms)

text \<open>\<open>Follow\<close> returns, and its result is the rebase of the scripts, merged.\<close>

lemma Follow_script:
  assumes "list_all proper_op (Ops A)" and "list_all proper_op (Ops B)"
    and "list_all (\<lambda>op. op_len op < 2 ^ 63) (Ops A)" and "list_all (\<lambda>op. op_len op < 2 ^ 63) (Ops B)"
    and "dst_len (script A) + ins_len (script B) < 2 ^ 63"
  shows "\<exists>C. Follow A B = Some (Ret C) \<and> OldLen C = NewLen A \<and>
    NewLen C = int (dst_len (script C)) \<and> list_all proper_op (Ops C) \<and>
    script C = add_edits [] (follow_script (script A) (script B))"
proof -
  let ?st = "\<lparr>result = \<lparr>OldLen = NewLen A, NewLen = 0, Ops = []\<rparr>,
    aCur = newSlice (Ops A), bCur = newSlice (Ops B)\<rparr>"
  have "follow_inv ?st"
    using assms by (simp add: follow_inv_def slice_ok_newSlice script_def)
  then obtain r where "go_loop follow_round ?st = Some (Ret r)" "follow_post ?st r"
    by (blast dest: follow_loop)
  then show ?thesis by (auto simp: Follow_def follow_post_def script_def)
qed

end
