(* ===== verification/OT_Laws.thy ===== *)
theory OT_Laws
  imports OT_Compose OT_Follow
begin

text \<open>
  The laws of operational transformation for the code's \<open>Compose\<close>, \<open>Follow\<close>,
  \<open>ApplyChangeset\<close> and \<open>Validate\<close>, from the script semantics and the loop theorems.
\<close>

section \<open>Changesets in range\<close>

lemma edit_len_src:
  "e \<in> set es \<Longrightarrow> (case e of Keep n \<Rightarrow> n \<le> src_len es | Del n \<Rightarrow> n \<le> src_len es | Ins s \<Rightarrow> length s \<le> dst_len es)"
  by (induction es rule: src_len.induct) (auto split: edit.splits)

lemma op_len_bound:
  assumes "list_all proper_op os" and "src_len (edits os) < 2 ^ 63" and "dst_len (edits os) < 2 ^ 63"
  shows "list_all (\<lambda>op. op_len op < 2 ^ 63) os"
  unfolding list_all_iff
proof
  fix op assume op: "op \<in> set os"
  then have "edit_of op \<in> set (edits os)" and p: "proper_op op"
    using assms by (auto simp: list_all_iff)
  with edit_len_src [of "edit_of op" "edits os"] assms(2,3) show "op_len op < 2 ^ 63"
    by (cases "Type op") (auto simp: op_len_def)
qed

lemma wf_op_len: "wf_changeset c \<Longrightarrow> list_all (\<lambda>op. op_len op < 2 ^ 63) (Ops c)"
  by (rule op_len_bound) (auto simp: wf_changeset_def script_def)

lemma wf_ops: "wf_changeset c \<Longrightarrow> list_all proper_op (Ops c)"
  by (simp add: wf_changeset_def)

text \<open>\<open>Compose\<close> and \<open>Follow\<close> on well-formed changesets that fit together.\<close>

lemma Compose_wf:
  assumes "wf_changeset A" and "wf_changeset B" and "NewLen A = OldLen B"
  obtains C where "Compose A B = Some (Ret C)" and "wf_changeset C"
    and "OldLen C = OldLen A" and "NewLen C = NewLen B" and "merged (script C)"
    and "\<And>t. len t = OldLen A \<Longrightarrow> exec (script C) t = exec (script B) (exec (script A) t)"
proof -
  obtain C where C: "Compose A B = Some (Ret C)" "OldLen C = OldLen A" "NewLen C = NewLen B"
    "list_all proper_op (Ops C)" "script C = add_edits [] (compose_script (script A) (script B))"
    using Compose_script [OF assms(1,2)[THEN wf_ops] assms(1,2)[THEN wf_op_len]] wf_lens [OF assms(1)]
    by auto
  have pr: "list_all proper (script A)" "list_all proper (script B)"
    using assms by (simp_all add: wf_proper)
  have fit: "dst_len (script A) = src_len (script B)"
    using assms(3) wf_lens(2) [OF assms(1)] wf_lens(1) [OF assms(2)] by simp
  have "wf_changeset C"
    using C fit pr wf_lens [OF assms(1)] wf_lens [OF assms(2)]
    by (simp add: wf_changeset_def src_len_compose dst_len_compose)
  moreover have "merged (script C)" by (simp add: C(5) merged_add_edits)
  moreover have "exec (script C) t = exec (script B) (exec (script A) t)" if "len t = OldLen A" for t
    using that exec_compose [OF pr fit, of t] wf_lens(1) [OF assms(1)] by (simp add: C(5) exec_add_edits)
  ultimately show thesis using C that by blast
qed

text \<open>What \<open>B\<close> may add to the text without leaving the range of an \<^verbatim>\<open>int\<close>.\<close>

definition fits :: "Changeset \<Rightarrow> Changeset \<Rightarrow> bool" where
  "fits A B \<longleftrightarrow> NewLen A + int (ins_len (script B)) < 2 ^ 63"

lemma Follow_wf:
  assumes "wf_changeset A" and "wf_changeset B" and "OldLen A = OldLen B" and "fits A B"
  obtains C where "Follow A B = Some (Ret C)" and "wf_changeset C" and "OldLen C = NewLen A"
    and "merged (script C)" and "ins_len (script C) = ins_len (script B)"
    and "\<And>t. exec (script C) t = exec (follow_script (script A) (script B)) t"
proof -
  have bound: "dst_len (script A) + ins_len (script B) < 2 ^ 63"
    using assms(4) wf_lens(2) [OF assms(1)] by (simp add: fits_def)
  obtain C where C: "Follow A B = Some (Ret C)" "OldLen C = NewLen A"
    "NewLen C = int (dst_len (script C))" "list_all proper_op (Ops C)"
    "script C = add_edits [] (follow_script (script A) (script B))"
    using Follow_script [OF assms(1,2)[THEN wf_ops] assms(1,2)[THEN wf_op_len] bound] by blast
  have pr: "list_all proper (script A)" "list_all proper (script B)"
    using assms by (simp_all add: wf_proper)
  have fit: "src_len (script A) = src_len (script B)"
    using assms(3) wf_lens(1) [OF assms(1)] wf_lens(1) [OF assms(2)] by simp
  have "wf_changeset C"
    using C bound dst_len_follow_le [OF pr fit] src_len_follow [OF pr fit] wf_lens [OF assms(1)]
    by (simp add: wf_changeset_def)
  moreover have "merged (script C)" by (simp add: C(5) merged_add_edits)
  moreover have "ins_len (script C) = ins_len (script B)"
    using ins_len_follow [OF pr fit] by (simp add: C(5))
  moreover have "exec (script C) t = exec (follow_script (script A) (script B)) t" for t
    by (simp add: C(5) exec_add_edits)
  ultimately show thesis using C that by blast
qed

section \<open>Composition\<close>

text \<open>
  C11. \<open>Compose\<close> returns on any two well-formed changesets where the second starts from the length
  the first produces, and applying its result to a text is applying the first changeset and then the
  second; the result is well formed, passes \<open>Validate\<close> and has no two neighbouring operations of
  one type.
\<close>

theorem Compose_correct:
  assumes "wf_changeset A" and "wf_changeset B" and "NewLen A = OldLen B" and "OldLen A = len t"
  shows "\<exists>C mid out. Compose A B = Some (Ret C) \<and> wf_changeset C \<and> Validate C = None \<and>
    merged (script C) \<and>
    ApplyChangeset t A = Ret (Inr mid) \<and> ApplyChangeset mid B = Ret (Inr out) \<and>
    ApplyChangeset t C = Ret (Inr out)"
proof -
  obtain C where C: "Compose A B = Some (Ret C)" "wf_changeset C" "OldLen C = OldLen A"
    "merged (script C)" and ex: "exec (script C) t = exec (script B) (exec (script A) t)"
    using Compose_wf [OF assms(1-3)] assms(4) by metis
  have "len (exec (script A) t) = NewLen A"
    using assms wf_lens [OF assms(1)] by (simp add: length_exec)
  then have "ApplyChangeset (exec (script A) t) B = Ret (Inr (exec (script C) t))"
    using ApplyChangeset_exec [OF assms(2)] assms(3) ex by simp
  moreover have "ApplyChangeset t C = Ret (Inr (exec (script C) t))"
    using ApplyChangeset_exec [OF C(2)] C(3) assms(4) by simp
  ultimately show ?thesis
    using C ApplyChangeset_exec [OF assms(1,4)] by (auto simp: wf_Validate)
qed

section \<open>Convergence\<close>

text \<open>
  C3. Two well-formed changesets on the same text, neither with two insertions in a row: \<open>Follow\<close>
  returns both ways, and applying each changeset followed by the other one rebased over it leads to
  the same text on both sides.
\<close>

theorem Follow_converges:
  assumes "wf_changeset A" and "wf_changeset B" and "OldLen A = len t" and "OldLen B = len t"
    and "fits A B" and "fits B A" and "ins_separated (script A)" and "ins_separated (script B)"
  shows "\<exists>A' B' tA tB out. Follow A B = Some (Ret B') \<and> Follow B A = Some (Ret A') \<and>
    ApplyChangeset t A = Ret (Inr tA) \<and> ApplyChangeset t B = Ret (Inr tB) \<and>
    ApplyChangeset tA B' = Ret (Inr out) \<and> ApplyChangeset tB A' = Ret (Inr out)"
proof -
  have o: "OldLen A = OldLen B" using assms(3,4) by simp
  obtain B' where B': "Follow A B = Some (Ret B')" "wf_changeset B'" "OldLen B' = NewLen A"
    "exec (script B') (exec (script A) t) =
      exec (follow_script (script A) (script B)) (exec (script A) t)"
    using Follow_wf [OF assms(1,2) o assms(5)] by metis
  obtain A' where A': "Follow B A = Some (Ret A')" "wf_changeset A'" "OldLen A' = NewLen B"
    "exec (script A') (exec (script B) t) =
      exec (follow_script (script B) (script A)) (exec (script B) t)"
    using Follow_wf [OF assms(2,1) o [symmetric] assms(6)] by metis
  have la: "length t = src_len (script A)" and lb: "length t = src_len (script B)"
    using assms(3,4) wf_lens(1) [OF assms(1)] wf_lens(1) [OF assms(2)] by auto
  have "exec (script B') (exec (script A) t) = exec (script A') (exec (script B) t)"
    using follow_converges [of "script A" "script B" t] assms la lb A'(4) B'(4)
    by (simp add: wf_proper)
  moreover have "len (exec (script A) t) = NewLen A" "len (exec (script B) t) = NewLen B"
    using la lb wf_lens [OF assms(1)] wf_lens [OF assms(2)] by (simp_all add: length_exec)
  ultimately show ?thesis
    using A' B' ApplyChangeset_exec [OF assms(1,3)] ApplyChangeset_exec [OF assms(2,4)]
      ApplyChangeset_exec [OF A'(2)] ApplyChangeset_exec [OF B'(2)] by auto
qed

text \<open>Sample changesets for the witnesses: an insertion and a deletion on a text of length three.\<close>

definition sample_insert :: Changeset where
  "sample_insert = \<lparr>OldLen = 3, NewLen = 5, Ops = [Retain 1, Insert ''xy'', Retain 2]\<rparr>"

definition sample_delete :: Changeset where
  "sample_delete = \<lparr>OldLen = 3, NewLen = 2, Ops = [Delete 1, Retain 2]\<rparr>"

definition sample_next :: Changeset where
  "sample_next = \<lparr>OldLen = 5, NewLen = 4, Ops = [Retain 2, Delete 2, Insert ''z'', Retain 1]\<rparr>"

lemmas sample_defs = sample_insert_def sample_delete_def sample_next_def

lemma wf_samples: "wf_changeset sample_insert" "wf_changeset sample_delete" "wf_changeset sample_next"
  by (simp_all add: sample_defs wf_changeset_def script_def)

theorem Compose_correct_witness:
  "wf_changeset sample_insert \<and> wf_changeset sample_next \<and>
   (\<exists>C mid out. Compose sample_insert sample_next = Some (Ret C) \<and> wf_changeset C \<and>
    Validate C = None \<and> merged (script C) \<and>
    ApplyChangeset ''abc'' sample_insert = Ret (Inr mid) \<and>
    ApplyChangeset mid sample_next = Ret (Inr out) \<and> ApplyChangeset ''abc'' C = Ret (Inr out))"
  using Compose_correct [OF wf_samples(1,3), of "''abc''"] wf_samples by (simp add: sample_defs)

theorem Follow_converges_witness:
  "fits sample_insert sample_delete \<and> fits sample_delete sample_insert \<and>
   (\<exists>A' B' tA tB out. Follow sample_insert sample_delete = Some (Ret B') \<and>
    Follow sample_delete sample_insert = Some (Ret A') \<and>
    ApplyChangeset ''abc'' sample_insert = Ret (Inr tA) \<and>
    ApplyChangeset ''abc'' sample_delete = Ret (Inr tB) \<and>
    ApplyChangeset tA B' = Ret (Inr out) \<and> ApplyChangeset tB A' = Ret (Inr out))"
proof -
  have f: "fits sample_insert sample_delete" "fits sample_delete sample_insert"
    by (simp_all add: fits_def sample_defs script_def)
  show ?thesis
    using f Follow_converges [OF wf_samples(1,2) _ _ f, of "''abc''"]
    by (simp add: sample_defs script_def)
qed

text \<open>Two insertions in a row, \<open>x\<close> and then \<open>a\<close>, between \<open>u\<close> and \<open>v\<close>.\<close>

definition retained :: "string \<Rightarrow> Op list" where
  "retained u = (if u = [] then [] else [Retain (len u)])"

definition twin :: "string \<Rightarrow> string \<Rightarrow> string \<Rightarrow> string \<Rightarrow> Changeset" where
  "twin u v x a =
     \<lparr>OldLen = len u + len v, NewLen = len u + len x + len a + len v,
      Ops = retained u @ [Insert x, Insert a] @ retained v\<rparr>"

lemma script_twin: "script (twin u v x a) = keep_rest (length u) (Ins x # Ins a # keep_rest (length v) [])"
  by (simp add: twin_def script_def retained_def keep_rest_def)

lemma twin_wf:
  assumes "x \<noteq> []" and "a \<noteq> []" and "len u + len x + len a + len v < 2 ^ 63"
  shows "wf_changeset (twin u v x a)"
proof -
  have "list_all proper_op (Ops (twin u v x a))" using assms by (simp add: twin_def retained_def)
  then show ?thesis
    using assms(3) by (simp add: wf_changeset_def script_twin) (simp add: twin_def)
qed

lemma exec_twin: "exec (script (twin u v x a)) (u @ v) = u @ x @ a @ v"
  by (cases u; cases v) (simp_all add: script_twin keep_rest_def)

lemma follow_twin:
  assumes "a \<le> x"
  shows "follow_script (script (twin u v x a)) (script (twin u v x b)) =
    keep_rest (length u) (Keep (length x) # Keep (length a) # Ins x # Ins b # keep_rest (length v) [])"
  using assms by (simp add: script_twin keep_rest_def)

text \<open>
  C17. The hypothesis of the convergence theorem about insertions is needed: \<open>Validate\<close> accepts changesets with two
  insertions in a row, and two such changesets that insert the same text first, and then different texts that do not come
  after it in the order of strings, diverge at every place of every text: each side puts the
  insertions of the other behind its own.
\<close>

theorem Follow_twin_insertions_diverge:
  assumes "x \<noteq> []" and "a \<noteq> []" and "b \<noteq> []" and "a \<le> x" and "b \<le> x" and "a @ x @ b \<noteq> b @ x @ a"
    and "len u + 2 * len x + len a + len b + len v < 2 ^ 63"
  shows "Validate (twin u v x a) = None \<and> Validate (twin u v x b) = None \<and>
    (\<exists>a' b' ta tb oa ob. Follow (twin u v x a) (twin u v x b) = Some (Ret b') \<and> Follow (twin u v x b) (twin u v x a) = Some (Ret a') \<and>
      ApplyChangeset (u @ v) (twin u v x a) = Ret (Inr ta) \<and> ApplyChangeset ta b' = Ret (Inr oa) \<and>
      ApplyChangeset (u @ v) (twin u v x b) = Ret (Inr tb) \<and> ApplyChangeset tb a' = Ret (Inr ob) \<and>
      oa = u @ x @ a @ x @ b @ v \<and> ob = u @ x @ b @ x @ a @ v \<and> oa \<noteq> ob)"
proof -
  have wf: "wf_changeset (twin u v x a)" "wf_changeset (twin u v x b)" using assms(1-3,7) by (auto intro!: twin_wf)
  have one: "\<exists>c'. Follow (twin u v x c) (twin u v x d) = Some (Ret c') \<and>
      ApplyChangeset (u @ v) (twin u v x c) = Ret (Inr (u @ x @ c @ v)) \<and> ApplyChangeset (u @ x @ c @ v) c' = Ret (Inr (u @ x @ c @ x @ d @ v))"
    if wf: "wf_changeset (twin u v x c)" "wf_changeset (twin u v x d)" and le: "c \<le> x" and room: "len u + 2 * len x + len c + len d + len v < 2 ^ 63" for c d
  proof -
    have "fits (twin u v x c) (twin u v x d)" using room by (simp add: fits_def script_twin) (simp add: twin_def)
    moreover have "OldLen (twin u v x c) = OldLen (twin u v x d)" by (simp add: twin_def)
    ultimately obtain c' where c': "Follow (twin u v x c) (twin u v x d) = Some (Ret c')" "wf_changeset c'" "OldLen c' = NewLen (twin u v x c)"
      "\<And>t. exec (script c') t = exec (follow_script (script (twin u v x c)) (script (twin u v x d))) t"
      using Follow_wf [OF wf] by metis
    have "exec (script c') (u @ x @ c @ v) = u @ x @ c @ x @ d @ v"
      using follow_twin [OF le] by (cases u; cases v) (simp_all add: c'(4) keep_rest_def)
    moreover have "OldLen c' = len (u @ x @ c @ v)" using c'(3) by (simp add: twin_def)
    ultimately have "ApplyChangeset (u @ x @ c @ v) c' = Ret (Inr (u @ x @ c @ x @ d @ v))"
      using ApplyChangeset_exec [OF c'(2)] by simp
    moreover have "ApplyChangeset (u @ v) (twin u v x c) = Ret (Inr (u @ x @ c @ v))"
      using ApplyChangeset_exec [OF wf(1), of "u @ v"] by (simp add: exec_twin) (simp add: twin_def)
    ultimately show ?thesis using c'(1) by blast
  qed
  have "u @ x @ a @ x @ b @ v \<noteq> u @ x @ b @ x @ a @ v" using assms(6) by (metis append.assoc append_same_eq same_append_eq)
  then show ?thesis
    using one [OF wf assms(4)] one [OF wf(2,1) assms(5)] assms(7) wf by (auto simp: wf_Validate)
qed

theorem Follow_twin_insertions_diverge_witness:
  "Validate (twin ''<'' ''>'' ''x'' ''a'') = None \<and>
   (\<exists>a' b' ta tb. Follow (twin ''<'' ''>'' ''x'' ''a'') (twin ''<'' ''>'' ''x'' ''b'') = Some (Ret b') \<and>
     Follow (twin ''<'' ''>'' ''x'' ''b'') (twin ''<'' ''>'' ''x'' ''a'') = Some (Ret a') \<and>
     ApplyChangeset ta b' = Ret (Inr ''<xaxb>'') \<and> ApplyChangeset tb a' = Ret (Inr ''<xbxa>''))"
proof -
  have "''a'' \<le> ''x''" "''b'' \<le> ''x''" by code_simp+
  then show ?thesis using Follow_twin_insertions_diverge [of "''x''" "''a''" "''b''" "''<''" "''>''"] by simp blast
qed

section \<open>Well-formedness\<close>

text \<open>
  C12. The rebase of a well-formed changeset over another on the same text is well formed: it starts
  from the length the other one produces, counts its new length right, passes \<open>Validate\<close>, inserts as
  many bytes as before, and has no two neighbours of one type, so the convergence
  theorem applies to it again.
\<close>

theorem Follow_well_formed:
  assumes "wf_changeset A" and "wf_changeset B" and "OldLen A = OldLen B" and "fits A B"
  shows "\<exists>C. Follow A B = Some (Ret C) \<and> wf_changeset C \<and> Validate C = None \<and>
    OldLen C = NewLen A \<and> NewLen C = int (dst_len (script C)) \<and>
    ins_len (script C) = ins_len (script B) \<and> merged (script C) \<and> ins_separated (script C)"
proof -
  obtain C where "Follow A B = Some (Ret C)" "wf_changeset C" "OldLen C = NewLen A"
    "merged (script C)" "ins_len (script C) = ins_len (script B)"
    using Follow_wf [OF assms] by metis
  then show ?thesis by (auto simp: wf_Validate merged_ins_separated wf_lens(2))
qed

theorem Follow_well_formed_witness:
  "fits sample_insert sample_delete \<and>
   (\<exists>C. Follow sample_insert sample_delete = Some (Ret C) \<and> wf_changeset C \<and> Validate C = None \<and>
    OldLen C = 5 \<and> NewLen C = int (dst_len (script C)) \<and>
    ins_len (script C) = ins_len (script sample_delete) \<and> merged (script C) \<and>
    ins_separated (script C))"
proof -
  have f: "fits sample_insert sample_delete"
    by (simp add: fits_def sample_defs script_def)
  show ?thesis using f Follow_well_formed [OF wf_samples(1,2) _ f] by (simp add: sample_defs)
qed

text \<open>
  C13. \<open>Validate\<close> accepts a changeset whose operations sum up within the range of an \<^verbatim>\<open>int\<close> exactly
  when it is well formed, and then applying it to any text of its old length succeeds with a text of
  its new length; on a text of another length it reports the mismatch.
\<close>

theorem Validate_sound_complete:
  assumes "src_len (script c) < 2 ^ 63" and "dst_len (script c) < 2 ^ 63"
  shows "(Validate c = None \<longleftrightarrow> wf_changeset c) \<and>
    (Validate c = None \<longrightarrow>
      (if OldLen c = len t then \<exists>out. ApplyChangeset t c = Ret (Inr out) \<and> len out = NewLen c
       else ApplyChangeset t c = Ret (Inl (OldLenMismatch (OldLen c) (len t)))))"
proof -
  have iff: "Validate c = None \<longleftrightarrow> wf_changeset c"
    using assms by (auto intro: wf_Validate Validate_wf)
  show ?thesis
  proof (cases "OldLen c = len t")
    case True
    then show ?thesis using iff ApplyChangeset_exec [of c t] wf_lens [of c]
      by (auto simp: length_exec)
  next
    case False
    then show ?thesis using iff by (simp add: ApplyChangeset_def)
  qed
qed

theorem Validate_sound_complete_witness:
  "Validate sample_insert = None \<and>
   (\<exists>out. ApplyChangeset ''abc'' sample_insert = Ret (Inr out) \<and> len out = 5)"
  using Validate_sound_complete [of sample_insert "''abc''"] wf_samples(1)
  by (simp add: sample_defs script_def)

text \<open>
  C18. Without that bound the sums of \<open>Validate\<close> wrap around. For every text that is not empty, and all retains of which the
  first stays in the text, the second makes the position wrap and all four add up to \<open>2 ^ 64\<close> more than the text has,
  \<open>Validate\<close> accepts the changeset of the four, and \<open>ApplyChangeset\<close> panics on it.
\<close>

theorem Validate_wraps_and_Apply_panics:
  assumes "0 < p" and "p \<le> len t" and "n < 2 ^ 63" and "2 ^ 63 \<le> p + n" and "0 < m" and "m < 2 ^ 63" and "0 < k" and "k < 2 ^ 63"
    and "p + n + m + k = 2 ^ 64 + len t" and "len t < 2 ^ 63" and "c = \<lparr>OldLen = len t, NewLen = len t, Ops = [Retain p, Retain n, Retain m, Retain k]\<rparr>"
  shows "Validate c = None \<and> ApplyChangeset t c = Panic"
proof
  have wrap_once: "int64 (2 ^ 64 + len t) = len t"
    using mod_add_self1 [of "2 ^ 64" "len t + 2 ^ 63"] assms(10) by (simp add: int64_def algebra_simps)
  have "int64 (int64 (int64 (p + n) + m) + k) = int64 (p + n + m + k)" by (simp add: int64_def mod_simps algebra_simps)
  then have sums: "int64 (int64 (int64 (p + n) + m) + k) = len t" using assms(9) wrap_once by simp
  have wrap: "int64 (p + n) = p + n - 2 ^ 64" 
    using minus_mod_self2 [of "p + n + 2 ^ 63" "2 ^ 64"] mod_pos_pos_trivial [of "p + n - 2 ^ 63" "2 ^ 64"] assms(1-4,10)
    by (simp add: int64_def)
  have p: "int64 p = p" using assms(1,2,10) by simp
  show "Validate c = None" using assms(1-8,10) sums p by (simp add: Validate_def assms(11))
  have "slice t p (p + n - 2 ^ 64) = Panic" using assms(2,3,10) by (simp add: slice_def)
  then show "ApplyChangeset t c = Panic"
    using assms(1,2,3,10) p wrap by (simp add: ApplyChangeset_def assms(11) builder_Grow_def slice_Ret)
qed

theorem Validate_wraps_and_Apply_panics_witness:
  "Validate \<lparr>OldLen = 5, NewLen = 5, Ops = [Retain 1, Retain 9223372036854775807, Retain 9223372036854775807, Retain 6]\<rparr> = None \<and>
   ApplyChangeset ''hello'' \<lparr>OldLen = 5, NewLen = 5, Ops = [Retain 1, Retain 9223372036854775807, Retain 9223372036854775807, Retain 6]\<rparr> = Panic"
  using Validate_wraps_and_Apply_panics [of 1 "''hello''" 9223372036854775807 9223372036854775807 6, OF _ _ _ _ _ _ _ _ _ _ HOL.refl] by simp

text \<open>
  C19. \<open>Follow\<close> has no check of its own: over a changeset that begins with an empty insertion it never
  returns, whatever is rebased. \<open>Validate\<close> is what keeps such a changeset out.
\<close>

theorem Follow_empty_insert_never_returns:
  assumes "Ops A = Insert [] # as"
  shows "Follow A B = None \<and> Validate A = Some InsertEmpty"
proof -
  have step: "\<exists>st'. follow_round st = Ret (Continue st') \<and> aCur st' = newSlice (Insert [] # as) \<and>
      bCur st' = newSlice (Ops B)"
    if "aCur st = newSlice (Insert [] # as) \<and> bCur st = newSlice (Ops B)" for st
    using that
    by (cases "Ops B") (auto simp: follow_round_def peek_def newSlice_def slice_def Let_def consume.simps)
  have "Follow A B = None"
    unfolding Follow_def
    by (rule go_loop_diverges [where I = "\<lambda>st. aCur st = newSlice (Insert [] # as) \<and>
        bCur st = newSlice (Ops B)"]) (use step assms in auto)
  with assms show ?thesis by (simp add: Validate_def)
qed

theorem Follow_empty_insert_never_returns_witness:
  "Follow \<lparr>OldLen = 0, NewLen = 0, Ops = [Insert []]\<rparr> sample_insert = None"
  using Follow_empty_insert_never_returns [of "\<lparr>OldLen = 0, NewLen = 0, Ops = [Insert []]\<rparr>"] by simp

section \<open>Constructors\<close>

lemma MakeInsert_wf:
  assumes "0 \<le> p" and "p \<le> len t" and "s \<noteq> []" and "len t + len s < 2 ^ 63"
  shows "wf_changeset (MakeInsert (len t) p s)"
    and "OldLen (MakeInsert (len t) p s) = len t"
    and "exec (script (MakeInsert (len t) p s)) t = take (nat p) t @ s @ drop (nat p) t"
  using assms by (auto simp: MakeInsert_def wf_changeset_def script_def Let_def nat_diff_distrib)

lemma MakeDelete_wf:
  assumes "0 \<le> p" and "0 < c" and "p + c \<le> len t" and "len t < 2 ^ 63"
  shows "wf_changeset (MakeDelete (len t) p c)"
    and "OldLen (MakeDelete (len t) p c) = len t"
    and "exec (script (MakeDelete (len t) p c)) t = take (nat p) t @ drop (nat (p + c)) t"
  using assms
  by (auto simp: MakeDelete_def wf_changeset_def script_def Let_def nat_diff_distrib nat_add_distrib
      add.commute)

text \<open>
  C20. \<open>MakeInsert\<close> with a non-empty text at a position inside the document is well formed and puts
  the text there; \<open>MakeDelete\<close> with a positive count inside the document is well formed and takes that
  range out; and deleting what was inserted gives the document back.
\<close>

theorem MakeInsert_MakeDelete_correct:
  assumes "0 \<le> p" and "p \<le> len t" and "s \<noteq> []" and "len t + len s < 2 ^ 63"
  shows "\<exists>u. u = take (nat p) t @ s @ drop (nat p) t \<and>
    Validate (MakeInsert (len t) p s) = None \<and> Validate (MakeDelete (len u) p (len s)) = None \<and>
    ApplyChangeset t (MakeInsert (len t) p s) = Ret (Inr u) \<and>
    ApplyChangeset u (MakeDelete (len u) p (len s)) = Ret (Inr t)"
proof -
  define u where "u = take (nat p) t @ s @ drop (nat p) t"
  have lu: "len u = len t + len s" using assms by (auto simp: u_def)
  have pre: "0 < len s" "p + len s \<le> len u" "len u < 2 ^ 63" using assms lu by auto
  note i = MakeInsert_wf [OF assms] and d = MakeDelete_wf [OF assms(1) pre]
  have "take (nat p) u @ drop (nat (p + len s)) u = t"
    using assms by (simp add: u_def nat_add_distrib)
  then have "ApplyChangeset u (MakeDelete (len u) p (len s)) = Ret (Inr t)"
    using ApplyChangeset_exec [OF d(1,2)] d(3) by simp
  moreover have "ApplyChangeset t (MakeInsert (len t) p s) = Ret (Inr u)"
    using ApplyChangeset_exec [OF i(1,2)] i(3) by (simp add: u_def)
  ultimately show ?thesis using u_def i(1) d(1) wf_Validate by blast
qed

theorem MakeInsert_MakeDelete_correct_witness:
  "\<exists>u. u = ''axyzbc'' \<and> ApplyChangeset ''abc'' (MakeInsert 3 1 ''xyz'') = Ret (Inr u) \<and>
    ApplyChangeset u (MakeDelete 6 1 3) = Ret (Inr ''abc'')"
  using MakeInsert_MakeDelete_correct [of 1 "''abc''" "''xyz''"] by simp

section \<open>Identity\<close>

lemma follow_identity_right:
  "list_all proper as \<Longrightarrow> src_len as = n \<Longrightarrow>
     list_all (\<lambda>e. \<exists>k. e = Keep k) (follow_script as (keep_rest n []))"
proof (induction as arbitrary: n)
  case (Cons a as)
  then show ?case
    by (cases a) (auto simp: keep_rest_def split: if_splits)
qed (simp add: keep_rest_def)

lemma add_edits_keeps:
  "list_all (\<lambda>e. \<exists>k. e = Keep k) es \<Longrightarrow>
     add_edits [Keep m] es = [Keep (m + src_len es)]"
  by (induction es arbitrary: m) auto

lemma edits_single_keep:
  "edits os = [Keep k] \<Longrightarrow> list_all proper_op os \<Longrightarrow>
     \<exists>op. os = [op] \<and> Type op = OpRetain \<and> Len op = int k"
  by (cases os; cases "Type (hd os)") auto

lemma keeps_IsIdentity:
  assumes "wf_changeset c" and "script c = add_edits [] es" and "list_all (\<lambda>e. \<exists>k. e = Keep k) es"
  shows "IsIdentity c"
proof (cases es)
  case Nil
  with assms show ?thesis by (auto simp: wf_changeset_def script_def IsIdentity_def)
next
  case (Cons e es')
  then obtain k where "script c = [Keep k]"
    using assms(2,3) add_edits_keeps by auto
  with assms(1) edits_single_keep [of "Ops c" k] show ?thesis
    by (auto simp: wf_changeset_def script_def IsIdentity_def)
qed

lemma Identity_wf:
  assumes "0 \<le> n" and "n < 2 ^ 63"
  shows "wf_changeset (Identity n)" and "OldLen (Identity n) = n" and "NewLen (Identity n) = n"
    and "script (Identity n) = keep_rest (nat n) []"
  using assms by (auto simp: Identity_def wf_changeset_def script_def keep_rest_def)

lemma IsIdentity_exec:
  assumes "wf_changeset c" and "IsIdentity c" and "len t = OldLen c"
  shows "exec (script c) t = t"
proof -
  consider "Ops c = []" | op where "Ops c = [op]" "Type op = OpRetain" "Len op = OldLen c"
    using assms(2) by (cases "Ops c") (auto simp: IsIdentity_def split: if_splits)
  then show ?thesis using assms(3) by cases (auto simp: script_def)
qed

text \<open>
  \<open>Identity n\<close> is recognised by \<open>IsIdentity\<close> and neutral: rebasing it over any well-formed
  changeset gives a changeset that \<open>IsIdentity\<close> recognises and that leaves every text it applies to
  unchanged.
\<close>

lemma Follow_Identity:
  assumes "wf_changeset A"
  shows "IsIdentity (Identity (OldLen A)) \<and>
    (\<exists>C. Follow A (Identity (OldLen A)) = Some (Ret C) \<and> IsIdentity C \<and>
      (\<forall>t. len t = NewLen A \<longrightarrow> ApplyChangeset t C = Ret (Inr t)))"
proof -
  have n: "0 \<le> OldLen A" "OldLen A < 2 ^ 63" using wf_lens [OF assms] by auto
  note id = Identity_wf [OF n]
  have sc: "script (Identity (OldLen A)) = keep_rest (src_len (script A)) []"
    using id(4) wf_lens(1) [OF assms] by simp
  have "dst_len (script A) + ins_len (script (Identity (OldLen A))) < 2 ^ 63"
    using sc wf_lens [OF assms] by simp
  then obtain C where C: "Follow A (Identity (OldLen A)) = Some (Ret C)" "OldLen C = NewLen A"
    "NewLen C = int (dst_len (script C))" "list_all proper_op (Ops C)"
    "script C = add_edits [] (follow_script (script A) (script (Identity (OldLen A))))"
    using Follow_script [OF wf_ops [OF assms] wf_ops [OF id(1)] wf_op_len [OF assms] wf_op_len [OF id(1)]]
    by blast
  obtain C' where "Follow A (Identity (OldLen A)) = Some (Ret C')" "wf_changeset C'"
    using Follow_wf [OF assms id(1)] id(2) sc wf_lens [OF assms] by (auto simp: fits_def)
  then have wf: "wf_changeset C" using C(1) by simp
  have "IsIdentity C"
    using keeps_IsIdentity [OF wf C(5)] follow_identity_right [OF wf_proper [OF assms]] sc by simp
  moreover have "IsIdentity (Identity (OldLen A))" using n by (simp add: Identity_def IsIdentity_def)
  ultimately show ?thesis
    using C(1,2) IsIdentity_exec [OF wf] ApplyChangeset_exec [OF wf] by auto
qed

end
