(* ===== verification/Document_FSM.thy ===== *)
theory Document_FSM
  imports OT_Laws
begin

text \<open>
  \<^verbatim>\<open>src/internal/fsm/types.go\<close> and \<^verbatim>\<open>src/internal/fsm/fsm.go\<close>: the document state machine that
  every replica runs over the committed log entries. \<open>Apply\<close> decodes an entry, drops it when the
  client has already submitted it, rebases its changeset over the revisions it has not seen, applies
  it to the head text and records the revision. The invariant says that replaying the revision log
  from the initial text gives the head text.
\<close>

section \<open>State\<close>

record RaftLogEntry =
  entry_ClientID :: string
  entry_SubmissionID :: int
  entry_BaseRev :: int
  entry_Changeset :: Changeset

record RevisionRecord =
  RevNumber :: int
  rec_Changeset :: Changeset
  Source :: string

record ApplyResult =
  CPrime :: Changeset
  NewRev :: int
  res_ClientID :: string
  IsDuplicate :: bool

text \<open>
  \<open>spawned\<close> holds the arguments of the goroutines started with \<^verbatim>\<open>go func() { fsm.onCommit(...) }()\<close>:
  the scheduler may run them in any order.
\<close>

record DocumentStateMachine =
  headText :: string
  headRev :: int
  revisionLog :: "RevisionRecord list"
  clientLastSubmission :: "string \<rightharpoonup> int"
  spawned :: "ApplyResult list"

definition NewDocumentStateMachine :: "string \<Rightarrow> DocumentStateMachine" where
  "NewDocumentStateMachine initialText =
     \<lparr>headText = initialText, headRev = 0, revisionLog = [], clientLastSubmission = Map.empty,
      spawned = []\<rparr>"

text \<open>The zero value of a \<open>Changeset\<close>.\<close>

definition zeroChangeset :: Changeset where
  "zeroChangeset = \<lparr>OldLen = 0, NewLen = 0, Ops = []\<rparr>"

section \<open>Operations\<close>

text \<open>\<^verbatim>\<open>for r := entry.BaseRev; r < fsm.headRev; r++\<close>\<close>

function rebase :: "RevisionRecord list \<Rightarrow> int \<Rightarrow> int \<Rightarrow> Changeset \<Rightarrow> Changeset outcome option" where
  "rebase log r head C =
     (if r < head
      then case index log r of
          Panic \<Rightarrow> Some Panic
        | Ret historical \<Rightarrow>
            (case Follow (rec_Changeset historical) C of
               None \<Rightarrow> None
             | Some Panic \<Rightarrow> Some Panic
             | Some (Ret C') \<Rightarrow> rebase log (r + 1) head C')
      else Some (Ret C))"
  by pat_completeness auto
termination
  by (relation "measure (\<lambda>(log, r, head, C). nat (head - r))") auto

declare rebase.simps [simp del]

text \<open>
  \<open>fsm_Apply\<close> on a decoded entry (\<open>None\<close>: the decoder reported an error). The value is \<open>None\<close> when the
  call does not return, otherwise a panic or the new state with the \<^verbatim>\<open>*ApplyResult\<close> (\<open>None\<close>: \<^verbatim>\<open>nil\<close>).
\<close>

definition fsm_Apply_entry :: "DocumentStateMachine \<Rightarrow> RaftLogEntry option \<Rightarrow>
    (DocumentStateMachine \<times> ApplyResult option) outcome option" where
  "fsm_Apply_entry fsm decoded =
     (case decoded of
        None \<Rightarrow> Some (Ret (fsm, None))
      | Some entry \<Rightarrow>
          if (case clientLastSubmission fsm (entry_ClientID entry) of
                None \<Rightarrow> False
              | Some lastSub \<Rightarrow> entry_SubmissionID entry \<le> lastSub)
          then let res = \<lparr>CPrime = zeroChangeset, NewRev = headRev fsm,
                          res_ClientID = entry_ClientID entry, IsDuplicate = True\<rparr>
               in Some (Ret (fsm\<lparr>spawned := spawned fsm @ [res]\<rparr>, Some res))
          else case rebase (revisionLog fsm) (entry_BaseRev entry) (headRev fsm) (entry_Changeset entry) of
              None \<Rightarrow> None
            | Some Panic \<Rightarrow> Some Panic
            | Some (Ret C) \<Rightarrow>
                (case ApplyChangeset (headText fsm) C of
                   Panic \<Rightarrow> Some Panic
                 | Ret (Inl err) \<Rightarrow> Some (Ret (fsm, None))
                 | Ret (Inr newText) \<Rightarrow>
                     let rev = \<lparr>RevNumber = headRev fsm, rec_Changeset = C,
                                    Source = entry_ClientID entry\<rparr>;
                         res = \<lparr>CPrime = C, NewRev = int64 (headRev fsm + 1),
                                   res_ClientID = entry_ClientID entry, IsDuplicate = False\<rparr>
                     in Some (Ret (fsm\<lparr>revisionLog := revisionLog fsm @ [rev],
                                       headText := newText,
                                       headRev := int64 (headRev fsm + 1),
                                       clientLastSubmission := (clientLastSubmission fsm)
                                         (entry_ClientID entry \<mapsto> entry_SubmissionID entry),
                                       spawned := spawned fsm @ [res]\<rparr>,
                                   Some res))))"

text \<open>
  \<open>Apply(data []byte)\<close>; \<open>decode\<close> stands for \<open>UnmarshalEntry\<close> (\<^verbatim>\<open>json.Unmarshal\<close> into a
  \<open>RaftLogEntry\<close>), \<open>None\<close> for its error.
\<close>

definition fsm_Apply :: "(string \<Rightarrow> RaftLogEntry option) \<Rightarrow> DocumentStateMachine \<Rightarrow> string \<Rightarrow>
    (DocumentStateMachine \<times> ApplyResult option) outcome option" where
  "fsm_Apply decode fsm data = fsm_Apply_entry fsm (decode data)"

definition HeadText :: "DocumentStateMachine \<Rightarrow> string" where
  "HeadText fsm = headText fsm"

definition HeadRev :: "DocumentStateMachine \<Rightarrow> int" where
  "HeadRev fsm = headRev fsm"

definition RevisionsSince :: "DocumentStateMachine \<Rightarrow> int \<Rightarrow> RevisionRecord list outcome" where
  "RevisionsSince fsm fromRev =
     (if fromRev \<ge> len (revisionLog fsm) then Ret []
      else slice (revisionLog fsm) fromRev (len (revisionLog fsm)))"

section \<open>The invariant\<close>

text \<open>Replaying changesets from a text, each well formed for the text it meets.\<close>

fun replay :: "string \<Rightarrow> Changeset list \<Rightarrow> string" where
  "replay t [] = t"
| "replay t (c # cs) = replay (exec (script c) t) cs"

fun history_ok :: "string \<Rightarrow> Changeset list \<Rightarrow> bool" where
  "history_ok t [] = True"
| "history_ok t (c # cs) = (wf_changeset c \<and> OldLen c = len t \<and> history_ok (exec (script c) t) cs)"

abbreviation changesets :: "DocumentStateMachine \<Rightarrow> Changeset list" where
  "changesets fsm \<equiv> map rec_Changeset (revisionLog fsm)"

text \<open>The text of the document at a revision.\<close>

definition text_at :: "string \<Rightarrow> DocumentStateMachine \<Rightarrow> nat \<Rightarrow> string" where
  "text_at init fsm r = replay init (take r (changesets fsm))"

definition fsm_inv :: "string \<Rightarrow> DocumentStateMachine \<Rightarrow> bool" where
  "fsm_inv init fsm \<longleftrightarrow>
     headRev fsm = len (revisionLog fsm) \<and> headRev fsm < 2 ^ 63 \<and> len (headText fsm) < 2 ^ 63 \<and>
     (\<forall>i < length (revisionLog fsm). RevNumber (revisionLog fsm ! i) = int i) \<and>
     history_ok init (changesets fsm) \<and> headText fsm = replay init (changesets fsm)"

lemma replay_append: "replay t (cs @ ds) = replay (replay t cs) ds"
  by (induction cs arbitrary: t) auto

lemma history_ok_append:
  "history_ok t (cs @ ds) \<longleftrightarrow> history_ok t cs \<and> history_ok (replay t cs) ds"
  by (induction cs arbitrary: t) auto

lemma history_ok_nth:
  assumes "history_ok t cs" and "i < length cs"
  shows "wf_changeset (cs ! i)" and "OldLen (cs ! i) = len (replay t (take i cs))"
    and "replay t (take (Suc i) cs) = exec (script (cs ! i)) (replay t (take i cs))"
    and "NewLen (cs ! i) = len (replay t (take (Suc i) cs))"
proof -
  have split: "cs = take i cs @ cs ! i # drop (Suc i) cs" using assms(2) by (simp add: id_take_nth_drop)
  then have "history_ok t (take i cs @ cs ! i # drop (Suc i) cs)" using assms(1) by simp
  then show 1: "wf_changeset (cs ! i)" and 2: "OldLen (cs ! i) = len (replay t (take i cs))"
    by (auto simp: history_ok_append simp del: append_take_drop_id)
  show 3: "replay t (take (Suc i) cs) = exec (script (cs ! i)) (replay t (take i cs))"
    using assms(2) by (simp add: take_Suc_conv_app_nth replay_append)
  show "NewLen (cs ! i) = len (replay t (take (Suc i) cs))"
    using 1 2 3 wf_lens [OF 1] by (simp add: length_exec)
qed

lemma fsm_inv_New: "len t < 2 ^ 63 \<Longrightarrow> fsm_inv t (NewDocumentStateMachine t)"
  by (simp add: fsm_inv_def NewDocumentStateMachine_def)

text \<open>The replay is what applying the changesets one by one with \<open>ApplyChangeset\<close> gives.\<close>

fun apply_all :: "string \<Rightarrow> Changeset list \<Rightarrow> (apply_error + string) outcome" where
  "apply_all t [] = Ret (Inr t)"
| "apply_all t (c # cs) =
     bind_outcome (ApplyChangeset t c) (\<lambda>r. case r of Inl e \<Rightarrow> Ret (Inl e) | Inr u \<Rightarrow> apply_all u cs)"

lemma apply_all_replay: "history_ok t cs \<Longrightarrow> apply_all t cs = Ret (Inr (replay t cs))"
  by (induction cs arbitrary: t) (auto simp: ApplyChangeset_exec)

section \<open>Rebasing over the log\<close>

text \<open>What the rebase loop keeps of a changeset, whatever revision it claims to be based on.\<close>

definition sound :: "Changeset \<Rightarrow> bool" where
  "sound c \<longleftrightarrow> list_all proper_op (Ops c) \<and> NewLen c = int (dst_len (script c)) \<and>
     src_len (script c) < 2 ^ 63 \<and> NewLen c < 2 ^ 63"

lemma wf_sound: "wf_changeset c \<Longrightarrow> sound c"
  by (auto simp: sound_def wf_changeset_def)

lemma sound_op_len: "sound c \<Longrightarrow> list_all (\<lambda>op. op_len op < 2 ^ 63) (Ops c)"
  by (rule op_len_bound) (auto simp: sound_def script_def)

lemma Follow_sound:
  assumes "wf_changeset A" and "sound C" and "fits A C"
  shows "\<exists>C'. Follow A C = Some (Ret C') \<and> sound C' \<and> OldLen C' = NewLen A \<and>
    ins_len (script C') \<le> ins_len (script C)"
proof -
  have bound: "dst_len (script A) + ins_len (script C) < 2 ^ 63"
    using assms(1,3) wf_lens(2) [OF assms(1)] by (simp add: fits_def)
  obtain C' where C': "Follow A C = Some (Ret C')" "OldLen C' = NewLen A"
    "NewLen C' = int (dst_len (script C'))" "list_all proper_op (Ops C')"
    "script C' = add_edits [] (follow_script (script A) (script C))"
    using Follow_script [OF wf_ops [OF assms(1)] _ wf_op_len [OF assms(1)] sound_op_len [OF assms(2)] bound]
      assms(2) by (auto simp: sound_def)
  moreover have "src_len (script C') \<le> dst_len (script A)"
    using src_len_follow_le [of "script A" "script C"] by (simp add: C'(5))
  moreover have ins: "ins_len (script C') \<le> ins_len (script C)"
    using ins_len_follow_le [of "script A" "script C"] by (simp add: C'(5))
  ultimately show ?thesis
    using bound dst_len_le [of "script C'"] by (auto simp: sound_def)
qed

text \<open>The lengths of all the texts of the history leave room for what a changeset inserts.\<close>

definition room :: "string \<Rightarrow> DocumentStateMachine \<Rightarrow> Changeset \<Rightarrow> bool" where
  "room init fsm c \<longleftrightarrow>
     (\<forall>r \<in> {0..length (revisionLog fsm)}. len (text_at init fsm r) + int (ins_len (script c)) < 2 ^ 63)"

lemma fits_room:
  assumes "fsm_inv init fsm" and "room init fsm C" and "i < length (revisionLog fsm)"
    and "ins_len (script C') \<le> ins_len (script C)"
  shows "fits (rec_Changeset (revisionLog fsm ! i)) C'"
proof -
  have "NewLen (changesets fsm ! i) = len (text_at init fsm (Suc i))"
    using assms(1,3) history_ok_nth(4) [of init "changesets fsm" i] by (simp add: fsm_inv_def text_at_def)
  moreover have "len (text_at init fsm (Suc i)) + int (ins_len (script C)) < 2 ^ 63"
    using assms(2,3) by (auto simp: room_def)
  ultimately show ?thesis using assms(3,4) by (simp add: fits_def)
qed

lemma rebase_sound:
  assumes inv: "fsm_inv init fsm" and room: "room init fsm C0"
  shows "sound C \<Longrightarrow> ins_len (script C) \<le> ins_len (script C0) \<Longrightarrow> 0 \<le> r \<Longrightarrow>
    \<exists>C'. rebase (revisionLog fsm) r (headRev fsm) C = Some (Ret C') \<and> sound C'"
proof (induction "nat (headRev fsm - r)" arbitrary: r C)
  case 0
  then show ?case by (subst rebase.simps) simp
next
  case (Suc k)
  let ?A = "rec_Changeset (revisionLog fsm ! nat r)"
  have r: "r < headRev fsm" "nat r < length (revisionLog fsm)" "index (revisionLog fsm) r = Ret (revisionLog fsm ! nat r)"
    using Suc.hyps(2) Suc.prems(3) inv by (auto simp: fsm_inv_def index_def)
  have "wf_changeset ?A" "fits ?A C"
    using inv r(2) history_ok_nth(1) [of init "changesets fsm" "nat r"] fits_room [OF inv room r(2) Suc.prems(2)]
    by (auto simp: fsm_inv_def)
  then obtain C' where C': "Follow ?A C = Some (Ret C')" "sound C'"
    "ins_len (script C') \<le> ins_len (script C)"
    using Follow_sound Suc.prems(1) by blast
  have "\<exists>C''. rebase (revisionLog fsm) (r + 1) (headRev fsm) C' = Some (Ret C'') \<and> sound C''"
    using Suc.hyps(2) Suc.prems C' by (intro Suc.hyps(1)) auto
  then show ?case using r C'(1) by (subst rebase.simps) simp
qed

text \<open>A changeset that fits the text at its base revision fits the head text after the loop.\<close>

lemma rebase_wf:
  assumes inv: "fsm_inv init fsm" and room: "room init fsm C0"
  shows "wf_changeset C \<Longrightarrow> ins_len (script C) = ins_len (script C0) \<Longrightarrow> 0 \<le> r \<Longrightarrow> r \<le> headRev fsm \<Longrightarrow>
    OldLen C = len (text_at init fsm (nat r)) \<Longrightarrow>
    \<exists>C'. rebase (revisionLog fsm) r (headRev fsm) C = Some (Ret C') \<and> wf_changeset C' \<and>
      OldLen C' = len (headText fsm) \<and> ins_len (script C') = ins_len (script C0) \<and>
      (r < headRev fsm \<longrightarrow> merged (script C'))"
proof (induction "nat (headRev fsm - r)" arbitrary: r C)
  case 0
  then have "r = headRev fsm" by simp
  then have "text_at init fsm (nat r) = headText fsm" using inv by (simp add: fsm_inv_def text_at_def)
  with 0 show ?case by (subst rebase.simps) auto
next
  case (Suc k)
  let ?A = "rec_Changeset (revisionLog fsm ! nat r)"
  have r: "r < headRev fsm" "nat r < length (revisionLog fsm)" "index (revisionLog fsm) r = Ret (revisionLog fsm ! nat r)"
    using Suc.hyps(2) Suc.prems(3) inv by (auto simp: fsm_inv_def index_def)
  note h = history_ok_nth [of init "changesets fsm" "nat r"]
  have A: "wf_changeset ?A" "OldLen ?A = OldLen C" "NewLen ?A = len (text_at init fsm (nat (r + 1)))"
    using inv r(2) h Suc.prems(3,5) by (auto simp: fsm_inv_def text_at_def nat_add_distrib)
  have "fits ?A C" using fits_room [OF inv room r(2)] Suc.prems(2) by simp
  then obtain C' where C': "Follow ?A C = Some (Ret C')" "wf_changeset C'" "OldLen C' = NewLen ?A"
    "merged (script C')" "ins_len (script C') = ins_len (script C)"
    using Follow_wf [OF A(1) Suc.prems(1) A(2)] by metis
  have "\<exists>C''. rebase (revisionLog fsm) (r + 1) (headRev fsm) C' = Some (Ret C'') \<and> wf_changeset C'' \<and>
      OldLen C'' = len (headText fsm) \<and> ins_len (script C'') = ins_len (script C0) \<and>
      (r + 1 < headRev fsm \<longrightarrow> merged (script C''))"
    using Suc.hyps(2) Suc.prems C' A(3) r(1) by (intro Suc.hyps(1)) auto
  then obtain C'' where C'': "rebase (revisionLog fsm) (r + 1) (headRev fsm) C' = Some (Ret C'')"
    "wf_changeset C''" "OldLen C'' = len (headText fsm)" "ins_len (script C'') = ins_len (script C0)"
    "r + 1 < headRev fsm \<longrightarrow> merged (script C'')" by blast
  moreover have "r + 1 = headRev fsm \<Longrightarrow> C'' = C'"
    using C''(1) by (subst (asm) rebase.simps) simp
  ultimately show ?case using r C'(1,4) by (subst rebase.simps) force
qed

section \<open>Apply\<close>

definition is_duplicate :: "DocumentStateMachine \<Rightarrow> RaftLogEntry \<Rightarrow> bool" where
  "is_duplicate fsm e \<longleftrightarrow>
     (\<exists>l. clientLastSubmission fsm (entry_ClientID e) = Some l \<and> entry_SubmissionID e \<le> l)"

lemma fsm_Apply_duplicate:
  assumes "decode data = Some e" and "is_duplicate fsm e"
  shows "\<exists>res. fsm_Apply decode fsm data = Some (Ret (fsm\<lparr>spawned := spawned fsm @ [res]\<rparr>, Some res)) \<and>
    IsDuplicate res \<and> NewRev res = headRev fsm \<and> res_ClientID res = entry_ClientID e"
  using assms by (auto simp: fsm_Apply_def fsm_Apply_entry_def is_duplicate_def Let_def)

lemma fsm_Apply_new:
  assumes "decode data = Some e" and "\<not> is_duplicate fsm e"
    and "rebase (revisionLog fsm) (entry_BaseRev e) (headRev fsm) (entry_Changeset e) = Some (Ret C)"
    and "ApplyChangeset (headText fsm) C = Ret (Inr u)"
  shows "fsm_Apply decode fsm data = Some (Ret (
    fsm\<lparr>revisionLog := revisionLog fsm @
          [\<lparr>RevNumber = headRev fsm, rec_Changeset = C, Source = entry_ClientID e\<rparr>],
        headText := u, headRev := int64 (headRev fsm + 1),
        clientLastSubmission := (clientLastSubmission fsm)(entry_ClientID e \<mapsto> entry_SubmissionID e),
        spawned := spawned fsm @ [\<lparr>CPrime = C, NewRev = int64 (headRev fsm + 1),
          res_ClientID = entry_ClientID e, IsDuplicate = False\<rparr>]\<rparr>,
    Some \<lparr>CPrime = C, NewRev = int64 (headRev fsm + 1), res_ClientID = entry_ClientID e,
      IsDuplicate = False\<rparr>))"
  using assms by (auto simp: fsm_Apply_def fsm_Apply_entry_def is_duplicate_def Let_def split: option.splits)

lemma fsm_Apply_rejected:
  assumes "decode data = Some e" and "\<not> is_duplicate fsm e"
    and "rebase (revisionLog fsm) (entry_BaseRev e) (headRev fsm) (entry_Changeset e) = Some (Ret C)"
    and "ApplyChangeset (headText fsm) C = Ret (Inl err)"
  shows "fsm_Apply decode fsm data = Some (Ret (fsm, None))"
  using assms by (auto simp: fsm_Apply_def fsm_Apply_entry_def is_duplicate_def split: option.splits)

text \<open>Appending a revision that fits the head text keeps the invariant.\<close>

lemma fsm_inv_append:
  assumes "fsm_inv init fsm" and "wf_changeset C" and "OldLen C = len (headText fsm)"
    and "headRev fsm + 1 < 2 ^ 63" and "RevNumber rec = headRev fsm" and "rec_Changeset rec = C"
  shows "fsm_inv init (fsm\<lparr>revisionLog := revisionLog fsm @ [rec],
    headText := exec (script C) (headText fsm), headRev := int64 (headRev fsm + 1),
    clientLastSubmission := m, spawned := sp\<rparr>)"
proof -
  have "len (exec (script C) (headText fsm)) < 2 ^ 63"
    using assms(2,3) wf_lens [OF assms(2)] by (simp add: length_exec)
  with assms show ?thesis
    by (auto simp: fsm_inv_def history_ok_append replay_append nth_append less_Suc_eq)
qed

lemma fsm_inv_spawned: "fsm_inv init (fsm\<lparr>spawned := sp\<rparr>) = fsm_inv init fsm"
  by (simp add: fsm_inv_def)

text \<open>A state with one revision and an entry of another client that has not seen it, for the witnesses.\<close>

definition sample_fsm :: DocumentStateMachine where
  "sample_fsm = \<lparr>headText = ''axybc'', headRev = 1,
     revisionLog = [\<lparr>RevNumber = 0, rec_Changeset = sample_insert, Source = ''c1''\<rparr>],
     clientLastSubmission = [''c1'' \<mapsto> 1], spawned = []\<rparr>"

definition sample_entry :: RaftLogEntry where
  "sample_entry = \<lparr>entry_ClientID = ''c2'', entry_SubmissionID = 1, entry_BaseRev = 0,
     entry_Changeset = sample_delete\<rparr>"

lemma sample_fsm_inv: "fsm_inv ''abc'' sample_fsm"
  using wf_samples(1) by (simp add: fsm_inv_def sample_fsm_def sample_insert_def script_def)

lemma sample_room: "room ''abc'' sample_fsm sample_delete"
  by (simp add: room_def sample_fsm_def text_at_def sample_defs script_def atLeast0_atMost_Suc)

lemma sample_new: "\<not> is_duplicate sample_fsm sample_entry"
  by (simp add: is_duplicate_def sample_fsm_def sample_entry_def)

text \<open>
  C5. For an entry with a well-formed changeset and a base revision that is not negative, \<open>Apply\<close>
  returns without a panic and keeps the invariant: the log only grows, and replaying it from the
  initial text with \<open>ApplyChangeset\<close> gives the head text. A rejected entry (a \<^verbatim>\<open>nil\<close> result) leaves
  the state as it was.
\<close>

theorem fsm_Apply_safe:
  assumes "fsm_inv init fsm" and "decode data = Some e" and "wf_changeset (entry_Changeset e)"
    and "0 \<le> entry_BaseRev e" and "room init fsm (entry_Changeset e)" and "headRev fsm + 1 < 2 ^ 63"
  shows "\<exists>fsm' res. fsm_Apply decode fsm data = Some (Ret (fsm', res)) \<and> fsm_inv init fsm' \<and>
    apply_all init (changesets fsm') = Ret (Inr (headText fsm')) \<and>
    (\<exists>new. revisionLog fsm' = revisionLog fsm @ new) \<and> (res = None \<longrightarrow> fsm' = fsm)"
proof -
  have replays: "apply_all init (changesets f) = Ret (Inr (headText f))" if "fsm_inv init f" for f
    using that by (simp add: fsm_inv_def apply_all_replay)
  show ?thesis
  proof (cases "is_duplicate fsm e")
    case True
    with assms fsm_Apply_duplicate [of decode data e fsm] replays show ?thesis
      by (fastforce simp: fsm_inv_spawned)
  next
    case False
    obtain C where C: "rebase (revisionLog fsm) (entry_BaseRev e) (headRev fsm) (entry_Changeset e) = Some (Ret C)"
      "sound C"
      using rebase_sound [OF assms(1,5) wf_sound [OF assms(3)] order_refl assms(4)] by blast
    then have "list_all proper_op (Ops C)" "0 \<le> NewLen C" "src_len (script C) < 2 ^ 63"
      by (auto simp: sound_def)
    then consider err where "ApplyChangeset (headText fsm) C = Ret (Inl err)"
      | u where "ApplyChangeset (headText fsm) C = Ret (Inr u)" "OldLen C = len (headText fsm)"
        "length (headText fsm) = src_len (script C)"
      using ApplyChangeset_total by blast
    then show ?thesis
    proof cases
      case 1
      with fsm_Apply_rejected [where decode = decode and data = data, OF assms(2) False C(1)] assms(1) replays show ?thesis by auto
    next
      case 2
      then have wf: "wf_changeset C" using C(2) by (auto simp: sound_def wf_changeset_def)
      then have u: "u = exec (script C) (headText fsm)"
        using 2 ApplyChangeset_exec [OF wf] by simp
      note fsm_Apply_new [where decode = decode and data = data, OF assms(2) False C(1) 2(1)]
      moreover have "fsm_inv init (fsm\<lparr>revisionLog := revisionLog fsm @
          [\<lparr>RevNumber = headRev fsm, rec_Changeset = C, Source = entry_ClientID e\<rparr>],
        headText := u, headRev := int64 (headRev fsm + 1),
        clientLastSubmission := (clientLastSubmission fsm)(entry_ClientID e \<mapsto> entry_SubmissionID e),
        spawned := spawned fsm @ [\<lparr>CPrime = C, NewRev = int64 (headRev fsm + 1),
          res_ClientID = entry_ClientID e, IsDuplicate = False\<rparr>]\<rparr>)"
        unfolding u using fsm_inv_append [OF assms(1) wf 2(2) assms(6)] by simp
      ultimately show ?thesis using replays by fastforce
    qed
  qed
qed

theorem fsm_Apply_safe_witness:
  "\<exists>fsm' res. fsm_Apply (\<lambda>d. Some sample_entry) sample_fsm ''data'' = Some (Ret (fsm', res)) \<and>
    fsm_inv ''abc'' fsm' \<and> apply_all ''abc'' (changesets fsm') = Ret (Inr (headText fsm')) \<and>
    (\<exists>new. revisionLog fsm' = revisionLog sample_fsm @ new) \<and> (res = None \<longrightarrow> fsm' = sample_fsm)"
  by (rule fsm_Apply_safe [OF sample_fsm_inv, where e = sample_entry])
    (use wf_samples(2) sample_room in \<open>simp_all add: sample_entry_def sample_fsm_def\<close>)

text \<open>
  C10. An entry that is not a duplicate and whose changeset is well formed for the text at its base
  revision is accepted: the head revision goes up by one, the changeset rebased over the revisions in
  between is recorded and applied to the head text, and it inserts exactly the bytes the client sent.
\<close>

theorem fsm_Apply_accepts:
  assumes "fsm_inv init fsm" and "decode data = Some e" and "wf_changeset (entry_Changeset e)"
    and "\<not> is_duplicate fsm e" and "0 \<le> entry_BaseRev e" and "entry_BaseRev e \<le> headRev fsm"
    and "OldLen (entry_Changeset e) = len (text_at init fsm (nat (entry_BaseRev e)))"
    and "room init fsm (entry_Changeset e)" and "headRev fsm + 1 < 2 ^ 63"
  shows "\<exists>fsm' C. fsm_Apply decode fsm data = Some (Ret (fsm', Some \<lparr>CPrime = C,
      NewRev = headRev fsm + 1, res_ClientID = entry_ClientID e, IsDuplicate = False\<rparr>)) \<and>
    fsm_inv init fsm' \<and> headRev fsm' = headRev fsm + 1 \<and>
    changesets fsm' = changesets fsm @ [C] \<and>
    ApplyChangeset (headText fsm) C = Ret (Inr (headText fsm')) \<and>
    ins_len (script C) = ins_len (script (entry_Changeset e)) \<and>
    clientLastSubmission fsm' (entry_ClientID e) = Some (entry_SubmissionID e)"
proof -
  obtain C where C: "rebase (revisionLog fsm) (entry_BaseRev e) (headRev fsm) (entry_Changeset e) = Some (Ret C)"
    "wf_changeset C" "OldLen C = len (headText fsm)" "ins_len (script C) = ins_len (script (entry_Changeset e))"
    using rebase_wf [OF assms(1,8,3) refl assms(5,6,7)] by blast
  note ap = ApplyChangeset_exec [OF C(2,3)]
  have rev: "int64 (headRev fsm + 1) = headRev fsm + 1"
    using assms(1,9) by (simp add: fsm_inv_def)
  note new = fsm_Apply_new [where decode = decode and data = data, OF assms(2,4) C(1) ap]
  show ?thesis
    using new fsm_inv_append [OF assms(1) C(2,3) assms(9)] C(4) ap
    by (auto simp: rev)
qed

theorem fsm_Apply_accepts_witness:
  "\<exists>fsm' C. fsm_Apply (\<lambda>d. Some sample_entry) sample_fsm ''data'' = Some (Ret (fsm', Some \<lparr>CPrime = C,
      NewRev = 2, res_ClientID = ''c2'', IsDuplicate = False\<rparr>)) \<and>
    fsm_inv ''abc'' fsm' \<and> headRev fsm' = 2 \<and> ApplyChangeset ''axybc'' C = Ret (Inr (headText fsm'))"
  using fsm_Apply_accepts [OF sample_fsm_inv, where decode = "\<lambda>d. Some sample_entry" and data = "''data''"
      and e = sample_entry] wf_samples(2) sample_room sample_new
  by (auto simp: sample_entry_def sample_fsm_def sample_delete_def text_at_def)

text \<open>
  C14. Submissions are idempotent: after an accepted entry, applying the same entry again changes
  neither the text nor the revision nor the log, and answers with the duplicate flag and the current
  head revision.
\<close>

theorem fsm_Apply_idempotent:
  assumes "decode data = Some e" and "fsm_Apply decode fsm data = Some (Ret (fsm', Some res))"
  shows "\<exists>dup. fsm_Apply decode fsm' data = Some (Ret (fsm'\<lparr>spawned := spawned fsm' @ [dup]\<rparr>, Some dup)) \<and>
    IsDuplicate dup \<and> NewRev dup = headRev fsm'"
proof -
  have "is_duplicate fsm' e"
    using assms
    by (auto simp: fsm_Apply_def fsm_Apply_entry_def is_duplicate_def Let_def
        split: option.splits outcome.splits sum.splits if_splits)
  then show ?thesis using fsm_Apply_duplicate [where decode = decode and data = data, OF assms(1)] by blast
qed

theorem fsm_Apply_idempotent_witness:
  "\<exists>fsm' dup. fsm_Apply (\<lambda>d. Some sample_entry) fsm' ''data'' =
      Some (Ret (fsm'\<lparr>spawned := spawned fsm' @ [dup]\<rparr>, Some dup)) \<and> headRev fsm' = 2 \<and>
    IsDuplicate dup \<and> NewRev dup = 2"
proof -
  obtain fsm' res where "fsm_Apply (\<lambda>d. Some sample_entry) sample_fsm ''data'' = Some (Ret (fsm', Some res))"
    "headRev fsm' = 2"
    using rebase_wf [OF sample_fsm_inv sample_room wf_samples(2), of 0] sample_new
      fsm_Apply_new [of "\<lambda>d. Some sample_entry" "''data''" sample_entry sample_fsm] ApplyChangeset_exec
    by (fastforce simp: sample_entry_def sample_fsm_def sample_delete_def text_at_def)
  then show ?thesis
    using fsm_Apply_idempotent [of "\<lambda>d. Some sample_entry" "''data''" sample_entry sample_fsm] by metis
qed

text \<open>
  C16. Neither \<open>Apply\<close> nor the code before it checks the base revision: an entry with a negative one
  that is not a duplicate makes \<open>Apply\<close> panic on every replica, whatever changeset it carries.
\<close>

theorem fsm_Apply_negative_base_panics:
  assumes "fsm_inv init fsm" and "decode data = Some e" and "\<not> is_duplicate fsm e" and "entry_BaseRev e < 0"
  shows "fsm_Apply decode fsm data = Some Panic"
proof -
  have "rebase (revisionLog fsm) (entry_BaseRev e) (headRev fsm) (entry_Changeset e) = Some Panic"
    using assms(1,4) by (subst rebase.simps) (auto simp: fsm_inv_def index_def)
  with assms(2,3) show ?thesis
    by (auto simp: fsm_Apply_def fsm_Apply_entry_def is_duplicate_def split: option.splits)
qed

theorem fsm_Apply_negative_base_panics_witness:
  "fsm_Apply (\<lambda>d. Some (sample_entry\<lparr>entry_BaseRev := - 1\<rparr>)) sample_fsm ''data'' = Some Panic"
  by (rule fsm_Apply_negative_base_panics [OF sample_fsm_inv, where e = "sample_entry\<lparr>entry_BaseRev := - 1\<rparr>"])
    (simp_all add: is_duplicate_def sample_entry_def sample_fsm_def)

text \<open>
  C15. The catch-up list is complete: for a revision in range, replaying \<open>RevisionsSince fromRev\<close>
  with \<open>ApplyChangeset\<close> from the text at that revision gives the head text; from the head revision
  on it is empty; and for a negative revision the call panics.
\<close>

theorem RevisionsSince_catches_up:
  assumes "fsm_inv init fsm"
  shows "(0 \<le> from \<and> from \<le> headRev fsm \<longrightarrow>
      (\<exists>rs. RevisionsSince fsm from = Ret rs \<and> len rs = headRev fsm - from \<and>
        apply_all (text_at init fsm (nat from)) (map rec_Changeset rs) = Ret (Inr (headText fsm)))) \<and>
    (headRev fsm \<le> from \<longrightarrow> RevisionsSince fsm from = Ret []) \<and>
    (from < 0 \<longrightarrow> RevisionsSince fsm from = Panic)"
proof -
  let ?n = "nat from" and ?cs = "changesets fsm"
  have split: "history_ok init (take ?n ?cs @ drop ?n ?cs)" "replay init (take ?n ?cs @ drop ?n ?cs) = headText fsm"
    using assms by (simp_all add: fsm_inv_def)
  then have ok: "apply_all (text_at init fsm ?n) (drop ?n ?cs) = Ret (Inr (headText fsm))"
    unfolding text_at_def by (simp only: history_ok_append replay_append apply_all_replay)
  have "RevisionsSince fsm from = Ret (drop ?n (revisionLog fsm))"
    if "0 \<le> from" "from \<le> headRev fsm"
    using that assms by (auto simp: RevisionsSince_def slice_from fsm_inv_def)
  moreover have "from < 0 \<Longrightarrow> RevisionsSince fsm from = Panic"
    by (simp add: RevisionsSince_def slice_def)
  ultimately show ?thesis
    using assms ok by (auto simp: fsm_inv_def RevisionsSince_def drop_map)
qed

theorem RevisionsSince_catches_up_witness:
  "(\<exists>rs. RevisionsSince sample_fsm 0 = Ret rs \<and> len rs = 1 \<and>
      apply_all ''abc'' (map rec_Changeset rs) = Ret (Inr ''axybc'')) \<and>
    RevisionsSince sample_fsm 1 = Ret [] \<and> RevisionsSince sample_fsm (- 1) = Panic"
  using RevisionsSince_catches_up [OF sample_fsm_inv, of 0] RevisionsSince_catches_up [OF sample_fsm_inv, of 1]
    RevisionsSince_catches_up [OF sample_fsm_inv, of "- 1"]
  by (simp add: sample_fsm_def text_at_def)

end
