(* ===== verification/Server_Node.thy ===== *)
theory Server_Node
  imports Document_FSM Raft_Process
begin

text \<open>
  \<^verbatim>\<open>src/internal/server/websocket.go\<close>: the server that clients connect to. It keeps the registered
  clients and, per client, a channel of outgoing messages; a goroutine per connection reads messages
  and registers clients, redirects them to the leader or hands their submissions to Raft; a goroutine
  per committed entry sends the acknowledgement and the broadcasts; a goroutine per client writes the
  channel to the connection. The server sits on a node of theory \<open>Raft_Process\<close> whose state
  machine is the document of theory \<open>Document_FSM\<close>. A step of the relation \<open>sstep\<close> is one
  critical section of one goroutine.
\<close>

section \<open>Messages\<close>

text \<open>
  A message is its payload; the JSON text of the envelope is left out (\<open>json.Marshal\<close> of these
  structs cannot fail). Texts of errors are values.
\<close>

record ConnectMsg =
  con_ClientID :: string
  LastKnownRev :: int

record ConnectAckMsg =
  ack_HeadText :: string
  ack_HeadRev :: int
  CatchUp :: "RevisionRecord list"

record SubmitMsg =
  sub_ClientID :: string
  sub_SubmissionID :: int
  sub_BaseRev :: int
  sub_Changeset :: Changeset

record AckMsg =
  ack_NewRev :: int

record BroadcastMsg =
  bc_Changeset :: Changeset
  bc_NewRev :: int

record RedirectMsg =
  redirect_LeaderAddr :: string

datatype error_text = InvalidChangeset validate_error | MarshalFailed | ApplyFailed raft_error

record ErrorMsg =
  Code :: int
  Message :: error_text

datatype ServerMsg =
    MsgConnectAck ConnectAckMsg
  | MsgAck AckMsg
  | MsgBroadcast BroadcastMsg
  | MsgRedirect RedirectMsg
  | MsgError ErrorMsg

text \<open>What the read loop makes of a message: \<open>None\<close> for a payload that does not decode.\<close>

datatype ClientMsg =
    InvalidEnvelope
  | MsgConnect "ConnectMsg option"
  | MsgSubmit "SubmitMsg option"
  | UnknownType string

section \<open>State\<close>

text \<open>\<open>written\<close> is what \<open>writePump\<close> has put on the connection, \<open>pumping\<close> that it has not returned.\<close>

record wsClient =
  client_id :: string
  client_conn :: nat
  sendCh :: "ServerMsg list"
  sendCh_closed :: bool
  written :: "ServerMsg list"
  pumping :: bool

text \<open>
  Where \<open>readPump\<close> of a connection is: waiting for a message; in \<open>handleConnect\<close> after the client has
  been registered, after \<open>IsLeader\<close> has returned false, after the leader check, after \<open>RevisionsSince\<close>, after \<open>HeadText\<close>; in
  \<open>handleSubmit\<close> after \<open>IsLeader\<close> has returned false, after it has returned true, waiting for a future;
  returned. Clients are addresses into the heap of all clients ever created.
\<close>

datatype conn_pc =
    Reading
  | Connecting nat int
  | Redirecting nat int
  | Admitted nat int
  | CaughtUp nat "RevisionRecord list"
  | HasText nat "RevisionRecord list" string
  | Refusing
  | Proposing SubmitMsg
  | Awaiting nat
  | Closed

record conn =
  conn_client :: "nat option"
  conn_pc :: conn_pc

record ('l, 's) Node =
  raftProc :: "('l, 's, DocumentStateMachine, ApplyResult option) Process"
  wsLeaderAddr :: string
  clients :: "(string \<times> nat) list"
  wsHeap :: "wsClient list"
  conns :: "conn list"

abbreviation raftNode :: "('l, 's) Node \<Rightarrow> ('l, 's, DocumentStateMachine, ApplyResult option) RaftNode" where
  "raftNode S \<equiv> node (raftProc S)"

text \<open>The state machine is the one the Raft node applies entries to.\<close>

abbreviation sm :: "('l, 's) Node \<Rightarrow> DocumentStateMachine" where
  "sm S \<equiv> node_fsm (raftNode S)"

definition NewNode :: "('l, 's, DocumentStateMachine, ApplyResult option) Process \<Rightarrow> string \<Rightarrow> ('l, 's) Node" where
  "NewNode rn addr = \<lparr>raftProc = rn, wsLeaderAddr = addr, clients = [], wsHeap = [], conns = []\<rparr>"

section \<open>Clients\<close>

text \<open>A send on a closed channel panics; a full channel drops the message.\<close>

definition send :: "ServerMsg \<Rightarrow> wsClient \<Rightarrow> wsClient outcome" where
  "send msg c =
     (if sendCh_closed c then Panic
      else if length (sendCh c) < 256 then Ret (c\<lparr>sendCh := sendCh c @ [msg]\<rparr>)
      else Ret c)"

definition sendTo :: "nat \<Rightarrow> ServerMsg \<Rightarrow> ('l, 's) Node \<Rightarrow> ('l, 's) Node outcome" where
  "sendTo c msg S =
     bind_outcome (send msg (wsHeap S ! c)) (\<lambda>w. Ret (S\<lparr>wsHeap := (wsHeap S)[c := w]\<rparr>))"

text \<open>One round of \<open>writePump\<close>: \<open>ok\<close> tells whether the write succeeded.\<close>

definition writePump :: "bool \<Rightarrow> wsClient \<Rightarrow> wsClient option" where
  "writePump ok c =
     (if \<not> pumping c then None
      else case sendCh c of
          msg # ms \<Rightarrow>
            Some (if ok then c\<lparr>sendCh := ms, written := written c @ [msg]\<rparr>
                  else c\<lparr>sendCh := ms, pumping := False\<rparr>)
        | [] \<Rightarrow>
            if sendCh_closed c then Some (c\<lparr>pumping := False\<rparr>)
            else if ok then None else Some (c\<lparr>pumping := False\<rparr>))"

definition removeClient :: "string \<Rightarrow> ('l, 's) Node \<Rightarrow> ('l, 's) Node" where
  "removeClient cid S = S\<lparr>clients := AList.delete cid (clients S)\<rparr>"

definition ConnectedClients :: "('l, 's) Node \<Rightarrow> nat" where
  "ConnectedClients S = length (clients S)"

section \<open>Commits\<close>

text \<open>The loop over the registered clients; Go leaves its order open.\<close>

fun broadcast :: "ApplyResult \<Rightarrow> (string \<times> nat) list \<Rightarrow> ('l, 's) Node \<Rightarrow> ('l, 's) Node outcome" where
  "broadcast res [] S = Ret S"
| "broadcast res ((cid, c) # ms) S =
     (if cid = res_ClientID res then broadcast res ms S
      else bind_outcome
             (sendTo c (MsgBroadcast \<lparr>bc_Changeset = CPrime res, bc_NewRev = NewRev res\<rparr>) S)
             (broadcast res ms))"

definition onCommit :: "ApplyResult \<Rightarrow> ('l, 's) Node \<Rightarrow> ('l, 's) Node outcome" where
  "onCommit res S =
     bind_outcome
       (case map_of (clients S) (res_ClientID res) of
          None \<Rightarrow> Ret S
        | Some origin \<Rightarrow> sendTo origin (MsgAck \<lparr>ack_NewRev = NewRev res\<rparr>) S)
       (\<lambda>S1. if IsDuplicate res then Ret S1 else broadcast res (clients S1) S1)"

section \<open>Connections\<close>

definition set_conn :: "nat \<Rightarrow> nat option \<Rightarrow> conn_pc \<Rightarrow> ('l, 's) Node \<Rightarrow> ('l, 's) Node" where
  "set_conn k cl p S = S\<lparr>conns := (conns S)[k := \<lparr>conn_client = cl, conn_pc = p\<rparr>]\<rparr>"

text \<open>\<open>ServeHTTP\<close>, once the upgrade has succeeded: \<^verbatim>\<open>go n.readPump(conn)\<close>.\<close>

definition ServeHTTP :: "('l, 's) Node \<Rightarrow> ('l, 's) Node" where
  "ServeHTTP S = S\<lparr>conns := conns S @ [\<lparr>conn_client = None, conn_pc = Reading\<rparr>]\<rparr>"

text \<open>\<open>handleConnect\<close>: the client is created and registered, \<open>writePump\<close> is started.\<close>

definition connect_register :: "nat \<Rightarrow> ConnectMsg \<Rightarrow> ('l, 's) Node \<Rightarrow> ('l, 's) Node \<times> nat" where
  "connect_register k msg S =
     (let c = length (wsHeap S);
          w = \<lparr>client_id = con_ClientID msg, client_conn = k, sendCh = [], sendCh_closed = False,
               written = [], pumping = True\<rparr>
      in (S\<lparr>wsHeap := wsHeap S @ [w], clients := AList.update (con_ClientID msg) c (clients S)\<rparr>, c))"

text \<open>The leader check, after \<open>IsLeader\<close> has returned false: \<open>None\<close> when the client is not redirected.\<close>

definition connect_redirect :: "nat \<Rightarrow> ('l, 's) Node \<Rightarrow> ('l, 's) Node outcome option" where
  "connect_redirect c S =
     (if node_LeaderAddr (raftNode S) \<noteq> []
      then Some (sendTo c (MsgRedirect \<lparr>redirect_LeaderAddr = node_LeaderAddr (raftNode S)\<rparr>) S)
      else None)"

definition connect_ack :: "nat \<Rightarrow> RevisionRecord list \<Rightarrow> string \<Rightarrow> int \<Rightarrow> ('l, 's) Node \<Rightarrow> ('l, 's) Node outcome" where
  "connect_ack c catchUp txt rv S =
     sendTo c (MsgConnectAck \<lparr>ack_HeadText = txt, ack_HeadRev = rv, CatchUp = catchUp\<rparr>) S"

text \<open>
  \<open>handleSubmit\<close>: the answer of a node that was not the leader when it was asked; and, for one that was, the rest
  up to the wait for the future: an answer is sent (\<open>None\<close>), or a future is pending.
  \<open>marshal\<close> stands for \<open>MarshalEntry\<close>, \<open>way\<close> is the way the \<^verbatim>\<open>select\<close> of \<open>Apply\<close> takes.
\<close>

definition submitEntry :: "SubmitMsg \<Rightarrow> RaftLogEntry" where
  "submitEntry msg =
     \<lparr>entry_ClientID = sub_ClientID msg, entry_SubmissionID = sub_SubmissionID msg,
      entry_BaseRev = sub_BaseRev msg, entry_Changeset = sub_Changeset msg\<rparr>"

definition submit_redirect :: "nat \<Rightarrow> ('l, 's) Node \<Rightarrow> ('l, 's) Node outcome" where
  "submit_redirect c S = sendTo c (MsgRedirect \<lparr>redirect_LeaderAddr = node_LeaderAddr (raftNode S)\<rparr>) S"

definition handleSubmit :: "(RaftLogEntry \<Rightarrow> bytes option) \<Rightarrow> nat \<Rightarrow> SubmitMsg \<Rightarrow> applyWay \<Rightarrow>
    ('l, 's) Node \<Rightarrow> (('l, 's) Node \<times> nat option) outcome" where
  "handleSubmit marshal c msg way S =
     (let answer = (\<lambda>m. bind_outcome (sendTo c m S) (\<lambda>S1. Ret (S1, None))) in
      case Validate (sub_Changeset msg) of
          Some err \<Rightarrow> answer (MsgError \<lparr>Code = 400, Message = InvalidChangeset err\<rparr>)
        | None \<Rightarrow>
            (case marshal (submitEntry msg) of
               None \<Rightarrow> answer (MsgError \<lparr>Code = 500, Message = MarshalFailed\<rparr>)
             | Some data \<Rightarrow>
                 let (r, future) = node_Apply (raftNode S) data way
                 in Ret (S\<lparr>raftProc := (raftProc S)\<lparr>node := r\<rparr>\<rparr>, Some future)))"

text \<open>The rest of \<open>handleSubmit\<close>, once \<^verbatim>\<open>future.Error()\<close> has returned.\<close>

definition submit_result :: "nat \<Rightarrow> nat \<Rightarrow> ('l, 's) Node \<Rightarrow> ('l, 's) Node outcome option" where
  "submit_result c future S =
     (case future_Error (futures (raftNode S) ! future) of
        None \<Rightarrow> None
      | Some (f, e) \<Rightarrow>
          let r = (raftNode S)\<lparr>futures := (futures (raftNode S))[future := f]\<rparr>;
              S1 = S\<lparr>raftProc := (raftProc S)\<lparr>node := r\<rparr>\<rparr>
          in Some (case e of
                 None \<Rightarrow> Ret S1
               | Some err \<Rightarrow> sendTo c (MsgError \<lparr>Code = 500, Message = ApplyFailed err\<rparr>) S1))"

text \<open>The deferred function of \<open>readPump\<close>; closing a closed channel panics.\<close>

definition closeConn :: "nat \<Rightarrow> ('l, 's) Node \<Rightarrow> ('l, 's) Node outcome" where
  "closeConn k S =
     (let S1 = set_conn k None Closed S in
      case conn_client (conns S ! k) of
        None \<Rightarrow> Ret S1
      | Some c \<Rightarrow>
          let w = wsHeap S ! c; S2 = removeClient (client_id w) S1
          in if sendCh_closed w then Panic else Ret (S2\<lparr>wsHeap := (wsHeap S)[c := w\<lparr>sendCh_closed := True\<rparr>]\<rparr>))"

section \<open>The server as a step relation\<close>

datatype server_label =
    RaftStep label
  | Accept
  | Read nat ClientMsg
  | Handle nat
  | Commit ApplyResult
  | WriteClient nat
  | Disconnect nat

text \<open>
  \<open>A\<close> is the state machine's \<open>Apply\<close>; the apply loop panics when it does (\<open>raft_panic\<close>). Reading a message that asks for nothing (an envelope or a
  payload that does not decode, an unknown type, a submission before any \<open>CONNECT\<close>) is \<open>read_ignored\<close>.
\<close>

definition ignored :: "conn \<Rightarrow> ClientMsg \<Rightarrow> bool" where
  "ignored cn m =
     (case m of
        InvalidEnvelope \<Rightarrow> True
      | MsgConnect p \<Rightarrow> p = None
      | MsgSubmit p \<Rightarrow> conn_client cn = None \<or> p = None
      | UnknownType t \<Rightarrow> True)"

text \<open>The results a goroutine has been started for and that no \<open>onCommit\<close> has handled yet.\<close>

definition take_spawned :: "ApplyResult \<Rightarrow> ('l, 's) Node \<Rightarrow> ('l, 's) Node" where
  "take_spawned res S =
     S\<lparr>raftProc := (raftProc S)\<lparr>node := (raftNode S)\<lparr>node_fsm := (sm S)
        \<lparr>spawned := remove1 res (spawned (sm S))\<rparr>\<rparr>\<rparr>\<rparr>"

inductive sstep :: "'l LogStore \<Rightarrow> 's StableStore \<Rightarrow> (DocumentStateMachine, ApplyResult option) FSM \<Rightarrow>
    (RaftLogEntry \<Rightarrow> bytes option) \<Rightarrow> ('l, 's) Node \<Rightarrow> server_label \<Rightarrow> ('l, 's) Node outcome \<Rightarrow> bool"
  for LS SS A marshal where
  raft: "pstep LS SS A (raftProc S) l P \<Longrightarrow> sstep LS SS A marshal S (RaftStep l) (Ret (S\<lparr>raftProc := P\<rparr>))"
| raft_panic: "applying (raftProc S) = Some (idx, commit) \<Longrightarrow> idx \<le> commit \<Longrightarrow> applyEntry LS A idx (raftNode S) = Some Panic \<Longrightarrow>
    sstep LS SS A marshal S (RaftStep Internal) Panic"
| accept: "sstep LS SS A marshal S Accept (Ret (ServeHTTP S))"
| read_ignored: "k < length (conns S) \<Longrightarrow> conn_pc (conns S ! k) = Reading \<Longrightarrow> ignored (conns S ! k) m \<Longrightarrow>
    sstep LS SS A marshal S (Read k m) (Ret S)"
| read_connect: "k < length (conns S) \<Longrightarrow> conns S ! k = \<lparr>conn_client = cl, conn_pc = Reading\<rparr> \<Longrightarrow>
    connect_register k msg S = (S1, c) \<Longrightarrow>
    sstep LS SS A marshal S (Read k (MsgConnect (Some msg)))
      (Ret (set_conn k cl (Connecting c (LastKnownRev msg)) S1))"
| connect_asked: "k < length (conns S) \<Longrightarrow> conns S ! k = \<lparr>conn_client = cl, conn_pc = Connecting c rv\<rparr> \<Longrightarrow>
    sstep LS SS A marshal S (Handle k)
      (Ret (set_conn k cl (if node_IsLeader (raftNode S) then Admitted c rv else Redirecting c rv) S))"
| connect_redirected: "k < length (conns S) \<Longrightarrow> conns S ! k = \<lparr>conn_client = cl, conn_pc = Redirecting c rv\<rparr> \<Longrightarrow>
    connect_redirect c S = Some out \<Longrightarrow>
    sstep LS SS A marshal S (Handle k) (bind_outcome out (\<lambda>S1. Ret (set_conn k (Some c) Reading S1)))"
| connect_kept: "k < length (conns S) \<Longrightarrow> conns S ! k = \<lparr>conn_client = cl, conn_pc = Redirecting c rv\<rparr> \<Longrightarrow>
    connect_redirect c S = None \<Longrightarrow> sstep LS SS A marshal S (Handle k) (Ret (set_conn k cl (Admitted c rv) S))"
| connect_catch_up: "k < length (conns S) \<Longrightarrow> conns S ! k = \<lparr>conn_client = cl, conn_pc = Admitted c rv\<rparr> \<Longrightarrow>
    sstep LS SS A marshal S (Handle k)
      (bind_outcome (RevisionsSince (sm S) rv) (\<lambda>rs. Ret (set_conn k cl (CaughtUp c rs) S)))"
| connect_text: "k < length (conns S) \<Longrightarrow> conns S ! k = \<lparr>conn_client = cl, conn_pc = CaughtUp c rs\<rparr> \<Longrightarrow>
    sstep LS SS A marshal S (Handle k) (Ret (set_conn k cl (HasText c rs (HeadText (sm S))) S))"
| connect_done: "k < length (conns S) \<Longrightarrow> conns S ! k = \<lparr>conn_client = cl, conn_pc = HasText c rs txt\<rparr> \<Longrightarrow>
    sstep LS SS A marshal S (Handle k)
      (bind_outcome (connect_ack c rs txt (HeadRev (sm S)) S) (\<lambda>S1. Ret (set_conn k (Some c) Reading S1)))"
| read_submit: "k < length (conns S) \<Longrightarrow> conns S ! k = \<lparr>conn_client = Some c, conn_pc = Reading\<rparr> \<Longrightarrow>
    sstep LS SS A marshal S (Read k (MsgSubmit (Some msg)))
      (Ret (set_conn k (Some c) (if node_IsLeader (raftNode S) then Proposing msg else Refusing) S))"
| submit_refused: "k < length (conns S) \<Longrightarrow> conns S ! k = \<lparr>conn_client = Some c, conn_pc = Refusing\<rparr> \<Longrightarrow>
    sstep LS SS A marshal S (Handle k) (bind_outcome (submit_redirect c S) (\<lambda>S1. Ret (set_conn k (Some c) Reading S1)))"
| submit_proposed: "k < length (conns S) \<Longrightarrow> conns S ! k = \<lparr>conn_client = Some c, conn_pc = Proposing msg\<rparr> \<Longrightarrow>
    applyWayOpen (raftNode S) way \<Longrightarrow>
    sstep LS SS A marshal S (Handle k)
      (bind_outcome (handleSubmit marshal c msg way S)
        (\<lambda>(S1, future). Ret (set_conn k (Some c) (case future of None \<Rightarrow> Reading | Some f \<Rightarrow> Awaiting f) S1)))"
| submit_done: "k < length (conns S) \<Longrightarrow> conns S ! k = \<lparr>conn_client = Some c, conn_pc = Awaiting f\<rparr> \<Longrightarrow>
    submit_result c f S = Some out \<Longrightarrow>
    sstep LS SS A marshal S (Handle k) (bind_outcome out (\<lambda>S1. Ret (set_conn k (Some c) Reading S1)))"
| commit: "res \<in> set (spawned (sm S)) \<Longrightarrow>
    sstep LS SS A marshal S (Commit res) (onCommit res (take_spawned res S))"
| pump: "c < length (wsHeap S) \<Longrightarrow> writePump ok (wsHeap S ! c) = Some w \<Longrightarrow>
    sstep LS SS A marshal S (WriteClient c) (Ret (S\<lparr>wsHeap := (wsHeap S)[c := w]\<rparr>))"
| disconnect: "k < length (conns S) \<Longrightarrow> conn_pc (conns S ! k) = Reading \<Longrightarrow>
    sstep LS SS A marshal S (Disconnect k) (closeConn k S)"

inductive sreach :: "'l LogStore \<Rightarrow> 's StableStore \<Rightarrow> (DocumentStateMachine, ApplyResult option) FSM \<Rightarrow>
    (RaftLogEntry \<Rightarrow> bytes option) \<Rightarrow> ('l, 's) Node \<Rightarrow> ('l, 's) Node \<Rightarrow> bool"
  for LS SS A marshal S where
  start: "sreach LS SS A marshal S S"
| step: "sreach LS SS A marshal S T \<Longrightarrow> sstep LS SS A marshal T l (Ret U) \<Longrightarrow> sreach LS SS A marshal S U"

end
