(* ===== verification/Server_Laws.thy ===== *)
theory Server_Laws
  imports Server_Node
begin

text \<open>
  Properties of the server of theory \<open>Server_Node\<close>: the invariant of its clients, channels and
  connections, what a commit sends to whom, and how submissions and commits reach the clients.
\<close>

section \<open>The invariant\<close>

text \<open>The clients a connection's goroutine refers to.\<close>

definition held :: "conn \<Rightarrow> nat set" where
  "held cn =
     set_option (conn_client cn) \<union>
     (case conn_pc cn of Connecting c rv \<Rightarrow> {c} | Redirecting c rv \<Rightarrow> {c} | Admitted c rv \<Rightarrow> {c} | CaughtUp c rs \<Rightarrow> {c} | HasText c rs t \<Rightarrow> {c} | _ \<Rightarrow> {})"

text \<open>A client that exists and whose channel is open.\<close>

definition open_client :: "('l, 's) Node \<Rightarrow> nat \<Rightarrow> bool" where
  "open_client S c \<longleftrightarrow> c < length (wsHeap S) \<and> \<not> sendCh_closed (wsHeap S ! c)"

definition server_inv :: "('l, 's) Node \<Rightarrow> bool" where
  "server_inv S \<longleftrightarrow>
     distinct (map fst (clients S)) \<and>
     (\<forall>(cid, c) \<in> set (clients S). open_client S c \<and> client_id (wsHeap S ! c) = cid) \<and>
     (\<forall>k < length (conns S). \<forall>c \<in> held (conns S ! k). open_client S c \<and> client_conn (wsHeap S ! c) = k) \<and>
     (\<forall>w \<in> set (wsHeap S). length (sendCh w) \<le> 256)"

text \<open>Changes of the clients that only move messages.\<close>

definition moves :: "wsClient list \<Rightarrow> wsClient list \<Rightarrow> bool" where
  "moves h h' \<longleftrightarrow>
     list_all2 (\<lambda>w w'. client_id w' = client_id w \<and> client_conn w' = client_conn w \<and>
       sendCh_closed w' = sendCh_closed w \<and> (length (sendCh w) \<le> 256 \<longrightarrow> length (sendCh w') \<le> 256)) h h'"

lemma moves_refl [simp]: "moves h h"
  by (simp add: moves_def list_all2_refl)

lemma moves_trans: "moves h h' \<Longrightarrow> moves h' h'' \<Longrightarrow> moves h h''"
  unfolding moves_def by (rule list_all2_trans) auto

lemma moves_update:
  "c < length h \<Longrightarrow> client_id w = client_id (h ! c) \<Longrightarrow> client_conn w = client_conn (h ! c) \<Longrightarrow>
   sendCh_closed w = sendCh_closed (h ! c) \<Longrightarrow> (length (sendCh (h ! c)) \<le> 256 \<Longrightarrow> length (sendCh w) \<le> 256) \<Longrightarrow>
   moves h (h[c := w])"
  by (auto simp: moves_def list_all2_conv_all_nth nth_list_update)

lemma server_inv_moves:
  assumes "server_inv S" and "moves (wsHeap S) h"
  shows "server_inv (S\<lparr>wsHeap := h\<rparr>)"
proof -
  have h: "length h = length (wsHeap S)" "c < length h \<Longrightarrow> client_id (h ! c) = client_id (wsHeap S ! c) \<and>
      client_conn (h ! c) = client_conn (wsHeap S ! c) \<and> sendCh_closed (h ! c) = sendCh_closed (wsHeap S ! c) \<and>
      (length (sendCh (wsHeap S ! c)) \<le> 256 \<longrightarrow> length (sendCh (h ! c)) \<le> 256)" for c
    using assms(2) by (auto simp: moves_def list_all2_conv_all_nth)
  then have "\<forall>w \<in> set h. length (sendCh w) \<le> 256"
    using assms(1) by (metis in_set_conv_nth server_inv_def)
  then show ?thesis using assms(1) h by (force simp: server_inv_def open_client_def)
qed

lemma server_inv_raftProc [simp]: "server_inv (S\<lparr>raftProc := P\<rparr>) = server_inv S"
  by (simp add: server_inv_def open_client_def)

lemma open_client_simps [simp]:
  "open_client (S\<lparr>raftProc := P\<rparr>) c = open_client S c" "open_client (S\<lparr>conns := cs\<rparr>) c = open_client S c"
  "open_client (S\<lparr>clients := m\<rparr>) c = open_client S c"
  by (simp_all add: open_client_def)

lemma nth_updated: "j < length xs \<Longrightarrow> xs[i := x] ! j = (if j = i then x else xs ! j)"
  by simp

lemma server_inv_set_conn:
  assumes "server_inv S" and "\<forall>c \<in> held \<lparr>conn_client = cl, conn_pc = p\<rparr>. open_client S c \<and> client_conn (wsHeap S ! c) = k"
  shows "server_inv (set_conn k cl p S)"
  using assms by (auto simp: server_inv_def set_conn_def nth_updated split: if_splits)

section \<open>Sending\<close>

definition enqueue :: "ServerMsg \<Rightarrow> ServerMsg list \<Rightarrow> ServerMsg list" where
  "enqueue m ch = (if length ch < 256 then ch @ [m] else ch)"

lemma sendTo_open:
  assumes "open_client S c"
  shows "sendTo c m S = Ret (S\<lparr>wsHeap := (wsHeap S)[c := (wsHeap S ! c)\<lparr>sendCh := enqueue m (sendCh (wsHeap S ! c))\<rparr>]\<rparr>)"
    and "moves (wsHeap S) ((wsHeap S)[c := (wsHeap S ! c)\<lparr>sendCh := enqueue m (sendCh (wsHeap S ! c))\<rparr>])"
proof -
  show "sendTo c m S = Ret (S\<lparr>wsHeap := (wsHeap S)[c := (wsHeap S ! c)\<lparr>sendCh := enqueue m (sendCh (wsHeap S ! c))\<rparr>]\<rparr>)"
    using assms by (simp add: sendTo_def send_def enqueue_def open_client_def)
  show "moves (wsHeap S) ((wsHeap S)[c := (wsHeap S ! c)\<lparr>sendCh := enqueue m (sendCh (wsHeap S ! c))\<rparr>])"
    using assms by (intro moves_update) (auto simp: open_client_def enqueue_def)
qed

lemma sendTo_inv:
  assumes "server_inv S" and "open_client S c"
  obtains h where "sendTo c m S = Ret (S\<lparr>wsHeap := h\<rparr>)" "moves (wsHeap S) h" "server_inv (S\<lparr>wsHeap := h\<rparr>)"
  using sendTo_open [OF assms(2)] server_inv_moves [OF assms(1)] that by blast

lemma open_client_moves: "moves (wsHeap S) h \<Longrightarrow> open_client (S\<lparr>wsHeap := h\<rparr>) c = open_client S c"
  by (auto simp: moves_def open_client_def list_all2_conv_all_nth)

text \<open>What a broadcast puts into each channel.\<close>

abbreviation bcast :: "ApplyResult \<Rightarrow> ServerMsg" where
  "bcast res \<equiv> MsgBroadcast \<lparr>bc_Changeset = CPrime res, bc_NewRev = NewRev res\<rparr>"

abbreviation channel :: "('l, 's) Node \<Rightarrow> nat \<Rightarrow> ServerMsg list" where
  "channel S c \<equiv> sendCh (wsHeap S ! c)"

lemma broadcast_channels:
  assumes "\<forall>(cid, c) \<in> set cs. open_client S c" and "distinct (map snd cs)"
  shows "\<exists>h. broadcast res cs S = Ret (S\<lparr>wsHeap := h\<rparr>) \<and> moves (wsHeap S) h \<and>
    (\<forall>c < length h. h ! c = (if \<exists>cid. (cid, c) \<in> set cs \<and> cid \<noteq> res_ClientID res
       then (wsHeap S ! c)\<lparr>sendCh := enqueue (bcast res) (channel S c)\<rparr> else wsHeap S ! c))"
  using assms
proof (induction cs arbitrary: S)
  case Nil
  then show ?case by (auto intro: exI [of _ "wsHeap S"])
next
  case (Cons p cs)
  obtain cid c where p: "p = (cid, c)" by fastforce
  show ?case
  proof (cases "cid = res_ClientID res")
    case True
    have "(\<exists>cid'. (cid', d) \<in> set (p # cs) \<and> cid' \<noteq> res_ClientID res) \<longleftrightarrow>
        (\<exists>cid'. (cid', d) \<in> set cs \<and> cid' \<noteq> res_ClientID res)" for d
      using True p by auto
    then show ?thesis using Cons.IH [of S] Cons.prems True p by simp
  next
    case False
    let ?h = "(wsHeap S)[c := (wsHeap S ! c)\<lparr>sendCh := enqueue (bcast res) (channel S c)\<rparr>]"
    let ?S = "S\<lparr>wsHeap := ?h\<rparr>"
    have c: "open_client S c" using Cons.prems(1) p by auto
    note s = sendTo_open [OF c, of "bcast res"]
    have "\<forall>(cid, d) \<in> set cs. open_client ?S d"
      using Cons.prems(1) open_client_moves [OF s(2)] by auto
    then have "\<exists>h. broadcast res cs ?S = Ret (S\<lparr>wsHeap := h\<rparr>) \<and> moves ?h h \<and>
      (\<forall>d < length h. h ! d = (if \<exists>cid. (cid, d) \<in> set cs \<and> cid \<noteq> res_ClientID res
         then (?h ! d)\<lparr>sendCh := enqueue (bcast res) (sendCh (?h ! d))\<rparr> else ?h ! d))"
      using Cons.IH [of ?S] Cons.prems(2) p by (simp cong: if_cong)
    then obtain h where h: "broadcast res cs ?S = Ret (S\<lparr>wsHeap := h\<rparr>)" "moves ?h h"
      "\<forall>d < length h. h ! d = (if \<exists>cid. (cid, d) \<in> set cs \<and> cid \<noteq> res_ClientID res
         then (?h ! d)\<lparr>sendCh := enqueue (bcast res) (sendCh (?h ! d))\<rparr> else ?h ! d)"
      by blast
    have "(cid', c) \<notin> set cs" for cid' using Cons.prems(2) p by (force simp: image_iff)
    then have "\<forall>d < length h. h ! d = (if \<exists>cid. (cid, d) \<in> set (p # cs) \<and> cid \<noteq> res_ClientID res
         then (wsHeap S ! d)\<lparr>sendCh := enqueue (bcast res) (channel S d)\<rparr> else wsHeap S ! d)"
      using h(3) p False c by (auto simp: nth_list_update open_client_def)
    moreover have "broadcast res (p # cs) S = Ret (S\<lparr>wsHeap := h\<rparr>)" using h(1) s(1) p False by simp
    ultimately show ?thesis using moves_trans [OF s(2) h(2)] by blast
  qed
qed

lemma client_registered:
  "server_inv S \<Longrightarrow> (cid, c) \<in> set (clients S) \<Longrightarrow> open_client S c \<and> client_id (wsHeap S ! c) = cid"
  by (auto simp: server_inv_def)

lemma clients_distinct:
  assumes "server_inv S"
  shows "distinct (map snd (clients S))"
proof -
  have "inj_on snd (set (clients S))"
    by (rule inj_onI) (metis client_registered [OF assms] prod.collapse)
  moreover have "distinct (clients S)" using assms by (simp add: server_inv_def distinct_map)
  ultimately show ?thesis by (simp add: distinct_map)
qed

text \<open>The message a commit has for a registered client.\<close>

definition commit_msg :: "ApplyResult \<Rightarrow> string \<Rightarrow> ServerMsg option" where
  "commit_msg res cid =
     (if cid = res_ClientID res then Some (MsgAck \<lparr>ack_NewRev = NewRev res\<rparr>)
      else if IsDuplicate res then None
      else Some (bcast res))"

definition put :: "ServerMsg option \<Rightarrow> wsClient \<Rightarrow> wsClient" where
  "put m w = (case m of None \<Rightarrow> w | Some msg \<Rightarrow> w\<lparr>sendCh := enqueue msg (sendCh w)\<rparr>)"

lemma map_of_unique: "distinct (map fst m) \<Longrightarrow> (k, v) \<in> set m \<Longrightarrow> map_of m k = Some v"
  by simp

lemma onCommit_effect:
  assumes inv: "server_inv S"
  shows "\<exists>h. onCommit res S = Ret (S\<lparr>wsHeap := h\<rparr>) \<and> moves (wsHeap S) h \<and>
    (\<forall>c < length h. (\<forall>cid. (cid, c) \<in> set (clients S) \<longrightarrow> h ! c = put (commit_msg res cid) (wsHeap S ! c)) \<and>
       (c \<notin> snd ` set (clients S) \<longrightarrow> h ! c = wsHeap S ! c))"
proof -
  let ?ack = "MsgAck \<lparr>ack_NewRev = NewRev res\<rparr>"
  let ?origin = "map_of (clients S) (res_ClientID res)"
  define h1 where "h1 = (case ?origin of None \<Rightarrow> wsHeap S
    | Some c \<Rightarrow> (wsHeap S)[c := (wsHeap S ! c)\<lparr>sendCh := enqueue ?ack (channel S c)\<rparr>])"
  have origin: "open_client S c" "(res_ClientID res, c) \<in> set (clients S)" if "?origin = Some c" for c
    using client_registered [OF inv map_of_SomeD [OF that]] map_of_SomeD [OF that] by simp_all
  have first: "(case ?origin of None \<Rightarrow> Ret S | Some c \<Rightarrow> sendTo c ?ack S) = Ret (S\<lparr>wsHeap := h1\<rparr>)" "moves (wsHeap S) h1"
    using sendTo_open [OF origin(1)] by (auto simp: h1_def split: option.split)
  have len: "length h1 = length (wsHeap S)" by (simp add: h1_def split: option.split)
  have owner: "cid = cid'" if "(cid, c) \<in> set (clients S)" "(cid', c) \<in> set (clients S)" for cid cid' c
    using client_registered [OF inv] that by blast
  have id: "(cid, c) \<in> set (clients S) \<Longrightarrow> cid = res_ClientID res \<longleftrightarrow> ?origin = Some c" for cid c
    using inv owner origin(2) by (auto simp: server_inv_def)
  have reg: "(cid, c) \<in> set (clients S) \<Longrightarrow> c \<in> snd ` set (clients S)" for cid c by force
  then have unreg: "c \<notin> snd ` set (clients S) \<Longrightarrow> ?origin \<noteq> Some c" for c using origin(2) by blast
  have h1: "h1 ! c = (if ?origin = Some c then (wsHeap S ! c)\<lparr>sendCh := enqueue ?ack (channel S c)\<rparr> else wsHeap S ! c)"
    if "c < length h1" for c
    using that by (auto simp: h1_def nth_updated split: option.split)
  show ?thesis
  proof (cases "IsDuplicate res")
    case True
    then have "onCommit res S = Ret (S\<lparr>wsHeap := h1\<rparr>)" using first(1) by (simp add: onCommit_def)
    then show ?thesis
      using first(2) h1 True id unreg by (intro exI [of _ h1]) (auto simp: put_def commit_msg_def)
  next
    case False
    have "\<forall>(cid, c) \<in> set (clients S). open_client (S\<lparr>wsHeap := h1\<rparr>) c"
      using client_registered [OF inv] open_client_moves [OF first(2)] by auto
    then obtain h where h: "broadcast res (clients S) (S\<lparr>wsHeap := h1\<rparr>) = Ret (S\<lparr>wsHeap := h\<rparr>)" "moves h1 h"
      "\<forall>c < length h. h ! c = (if \<exists>cid. (cid, c) \<in> set (clients S) \<and> cid \<noteq> res_ClientID res
         then (h1 ! c)\<lparr>sendCh := enqueue (bcast res) (sendCh (h1 ! c))\<rparr> else h1 ! c)"
      using broadcast_channels [OF _ clients_distinct [OF inv], of "S\<lparr>wsHeap := h1\<rparr>" res] by (simp cong: if_cong) blast
    have "onCommit res S = Ret (S\<lparr>wsHeap := h\<rparr>)" using first(1) h(1) False by (simp add: onCommit_def)
    moreover have "length h = length h1" using h(2) by (simp add: moves_def list_all2_lengthD)
    moreover have "(\<forall>cid. (cid, c) \<in> set (clients S) \<longrightarrow> h ! c = put (commit_msg res cid) (wsHeap S ! c)) \<and>
       (c \<notin> snd ` set (clients S) \<longrightarrow> h ! c = wsHeap S ! c)" if "c < length h" for c
      using h(3) h1 that calculation(2) False id owner unreg reg by (auto simp: put_def commit_msg_def)
    ultimately show ?thesis using moves_trans [OF first(2) h(2)] by blast
  qed
qed

section \<open>Every step keeps the invariant\<close>

lemma held_simps [simp]:
  "held \<lparr>conn_client = cl, conn_pc = Reading\<rparr> = set_option cl"
  "held \<lparr>conn_client = cl, conn_pc = Connecting c rv\<rparr> = insert c (set_option cl)"
  "held \<lparr>conn_client = cl, conn_pc = Redirecting c rv\<rparr> = insert c (set_option cl)"
  "held \<lparr>conn_client = cl, conn_pc = Admitted c rv\<rparr> = insert c (set_option cl)"
  "held \<lparr>conn_client = cl, conn_pc = Refusing\<rparr> = set_option cl"
  "held \<lparr>conn_client = cl, conn_pc = Proposing msg\<rparr> = set_option cl"
  "held \<lparr>conn_client = cl, conn_pc = CaughtUp c rs\<rparr> = insert c (set_option cl)"
  "held \<lparr>conn_client = cl, conn_pc = HasText c rs t\<rparr> = insert c (set_option cl)"
  "held \<lparr>conn_client = cl, conn_pc = Awaiting f\<rparr> = set_option cl"
  "held \<lparr>conn_client = cl, conn_pc = Closed\<rparr> = set_option cl"
  by (auto simp: held_def)

lemma server_inv_held:
  "server_inv S \<Longrightarrow> k < length (conns S) \<Longrightarrow> c \<in> held (conns S ! k) \<Longrightarrow>
    open_client S c \<and> client_conn (wsHeap S ! c) = k"
  by (auto simp: server_inv_def)

text \<open>A step that sends to a client of connection \<open>k\<close> and moves that connection on.\<close>

lemma send_and_move:
  assumes inv: "server_inv S" and k: "k < length (conns S)" and c: "c \<in> held (conns S ! k)"
    and cl: "held \<lparr>conn_client = cl, conn_pc = p\<rparr> \<subseteq> held (conns S ! k)"
  shows "\<exists>T. bind_outcome (sendTo c m S) (\<lambda>S1. Ret (set_conn k cl p S1)) = Ret T \<and> server_inv T"
proof -
  obtain h where h: "sendTo c m S = Ret (S\<lparr>wsHeap := h\<rparr>)" "moves (wsHeap S) h" "server_inv (S\<lparr>wsHeap := h\<rparr>)"
    using sendTo_inv [OF inv] server_inv_held [OF inv k c] by metis
  have "server_inv (set_conn k cl p (S\<lparr>wsHeap := h\<rparr>))"
    using server_inv_held [OF h(3), of k] k cl by (intro server_inv_set_conn [OF h(3)]) auto
  then show ?thesis using h(1) by simp
qed

lemma server_inv_move:
  assumes "server_inv S" and "k < length (conns S)" and "held \<lparr>conn_client = cl, conn_pc = p\<rparr> \<subseteq> held (conns S ! k)"
  shows "server_inv (set_conn k cl p S)"
  using assms server_inv_held [OF assms(1,2)] by (intro server_inv_set_conn) auto

lemma connect_register_inv:
  assumes inv: "server_inv S" and k: "k < length (conns S)" and reg: "connect_register k msg S = (S1, c)"
    and cl: "set_option cl \<subseteq> held (conns S ! k)"
  shows "server_inv (set_conn k cl (Connecting c rv) S1)"
proof -
  have S1: "length (wsHeap S1) = Suc c" "c = length (wsHeap S)" "conns S1 = conns S"
    "clients S1 = AList.update (con_ClientID msg) c (clients S)" "wsHeap S1 ! c = \<lparr>client_id = con_ClientID msg,
       client_conn = k, sendCh = [], sendCh_closed = False, written = [], pumping = True\<rparr>"
    "\<And>d. d < c \<Longrightarrow> wsHeap S1 ! d = wsHeap S ! d" "\<forall>w \<in> set (wsHeap S1). length (sendCh w) \<le> 256"
    using reg inv by (auto simp: connect_register_def Let_def nth_append server_inv_def)
  have old: "open_client S d \<Longrightarrow> open_client S1 d \<and> wsHeap S1 ! d = wsHeap S ! d" for d
    using S1 by (auto simp: open_client_def)
  have new: "open_client S1 c" "client_conn (wsHeap S1 ! c) = k" "client_id (wsHeap S1 ! c) = con_ClientID msg"
    using S1(1,5) by (simp_all add: open_client_def)
  have "open_client S1 d \<and> client_id (wsHeap S1 ! d) = cid" if "(cid, d) \<in> set (clients S1)" for cid d
  proof -
    have dist: "distinct (map fst (clients S))" using inv by (simp add: server_inv_def)
    then have "map_of (clients S1) cid = Some d" using that S1(4) by (simp add: distinct_update)
    then have "(if cid = con_ClientID msg then Some c else map_of (clients S) cid) = Some d"
      using S1(4) by (simp add: update_conv)
    then show ?thesis
      using new client_registered [OF inv map_of_SomeD] old by (auto split: if_splits)
  qed
  then have "server_inv S1"
    using inv S1(3,4,7) old server_inv_held [OF inv] by (auto simp: server_inv_def distinct_update)
  then show ?thesis
    using new cl old server_inv_held [OF inv k] by (intro server_inv_set_conn) auto
qed

lemma closeConn_inv:
  assumes inv: "server_inv S" and k: "k < length (conns S)"
  shows "\<exists>T. closeConn k S = Ret T \<and> server_inv T"
proof (cases "conn_client (conns S ! k)")
  case None
  then show ?thesis
    using server_inv_move [OF inv k, of None Closed] by (simp add: closeConn_def)
next
  case (Some c)
  let ?w = "wsHeap S ! c"
  let ?T = "(removeClient (client_id ?w) (set_conn k None Closed S))
    \<lparr>wsHeap := (wsHeap S)[c := ?w\<lparr>sendCh_closed := True\<rparr>]\<rparr>"
  have c: "open_client S c" "client_conn ?w = k"
    using server_inv_held [OF inv k, of c] Some by (auto simp: held_def)
  have other: "open_client ?T d \<and> wsHeap ?T ! d = wsHeap S ! d" if "open_client S d" "d \<noteq> c" for d
    using that by (auto simp: open_client_def)
  have "open_client ?T d \<and> client_id (wsHeap ?T ! d) = cid" if "(cid, d) \<in> set (clients ?T)" for cid d
  proof -
    have *: "(cid, d) \<in> set (clients S)" "cid \<noteq> client_id ?w"
      using that by (auto simp: removeClient_def set_conn_def AList.delete_eq)
    moreover from this have "d \<noteq> c" using client_registered [OF inv] by metis
    ultimately show ?thesis using other [of d] client_registered [OF inv *(1)] by simp
  qed
  moreover have "open_client ?T d \<and> client_conn (wsHeap ?T ! d) = j"
    if "j < length (conns S)" "d \<in> held (conns ?T ! j)" for j d
  proof -
    have "j \<noteq> k" "d \<in> held (conns S ! j)"
      using that by (auto simp: removeClient_def set_conn_def nth_updated split: if_splits)
    moreover from this have "d \<noteq> c" using server_inv_held [OF inv that(1), of d] c(2) by auto
    ultimately show ?thesis using server_inv_held [OF inv that(1), of d] other [of d] by simp
  qed
  moreover have "distinct (map fst (clients ?T))" "\<forall>w \<in> set (wsHeap ?T). length (sendCh w) \<le> 256"
    using inv c(1) by (auto simp: server_inv_def removeClient_def set_conn_def open_client_def distinct_delete
        dest!: set_update_subset_insert [THEN subsetD])
  ultimately have "server_inv ?T"
    unfolding server_inv_def by (auto simp: removeClient_def set_conn_def)
  then show ?thesis using Some c(1) by (auto simp: closeConn_def open_client_def Let_def)
qed

text \<open>The only panic of the code of the connections: \<open>CONNECT\<close> with a negative revision.\<close>

definition negative_connect :: "('l, 's) Node \<Rightarrow> server_label \<Rightarrow> bool" where
  "negative_connect S l \<longleftrightarrow>
     (\<exists>k cl c rv. l = Handle k \<and> k < length (conns S) \<and>
        conns S ! k = \<lparr>conn_client = cl, conn_pc = Admitted c rv\<rparr> \<and> rv < 0)"

text \<open>The panic of the apply loop: the state machine panics on the data of the entry it is given.\<close>

definition apply_panics :: "'l LogStore \<Rightarrow> (DocumentStateMachine, ApplyResult option) FSM \<Rightarrow> ('l, 's) Node \<Rightarrow> server_label \<Rightarrow> bool" where
  "apply_panics LS A S l \<longleftrightarrow>
     (\<exists>idx commit entry. l = RaftStep Internal \<and> applying (raftProc S) = Some (idx, commit) \<and> idx \<le> commit \<and>
        GetLog LS (logStore (raftNode S)) idx = Inr entry \<and> A (sm S) (Data entry) = Some Panic)"

lemma bind_outcome_eq_Panic: "bind_outcome x f = Panic \<longleftrightarrow> x = Panic \<or> (\<exists>y. x = Ret y \<and> f y = Panic)"
  by (cases x) simp_all

lemma applyEntry_panics:
  "applyEntry LS A idx r = Some Panic \<Longrightarrow> \<exists>entry. GetLog LS (logStore r) idx = Inr entry \<and> A (node_fsm r) (Data entry) = Some Panic"
  by (auto simp: applyEntry_def Let_def bind_outcome_eq_Panic split: sum.splits option.splits outcome.splits prod.splits if_splits)

lemma RevisionsSince_cases: "(\<exists>rs. RevisionsSince f rv = Ret rs) \<or> RevisionsSince f rv = Panic \<and> rv < 0"
  by (auto simp: RevisionsSince_def slice_def)

lemma handleSubmit_inv:
  assumes inv: "server_inv S" and k: "k < length (conns S)"
    and cn: "conns S ! k = \<lparr>conn_client = Some c, conn_pc = Proposing msg\<rparr>"
  shows "\<exists>T. bind_outcome (handleSubmit marshal c msg way S)
      (\<lambda>(S1, future). Ret (set_conn k (Some c) (case future of None \<Rightarrow> Reading | Some f \<Rightarrow> Awaiting f) S1)) = Ret T \<and>
    server_inv T"
proof -
  have c: "open_client S c" using server_inv_held [OF inv k, of c] cn by simp
  obtain h where h: "\<And>m. sendTo c m S = Ret (S\<lparr>wsHeap := h m\<rparr>)" "\<And>m. server_inv (S\<lparr>wsHeap := h m\<rparr>)"
    using sendTo_open [OF c] server_inv_moves [OF inv] by meson
  then have "server_inv (set_conn k (Some c) Reading (S\<lparr>wsHeap := h m\<rparr>))" for m
    using k cn by (intro server_inv_move) simp_all
  moreover have "server_inv (set_conn k (Some c) (Awaiting f) (S\<lparr>raftProc := P\<rparr>))" for f P
    using inv k cn by (intro server_inv_move) simp_all
  ultimately show ?thesis
    using h by (auto simp: handleSubmit_def Let_def split: option.split prod.split)
qed

lemma submit_result_inv:
  assumes inv: "server_inv S" and k: "k < length (conns S)"
    and cn: "conns S ! k = \<lparr>conn_client = Some c, conn_pc = Awaiting f\<rparr>" and out: "submit_result c f S = Some out"
  shows "\<exists>T. bind_outcome out (\<lambda>S1. Ret (set_conn k (Some c) Reading S1)) = Ret T \<and> server_inv T"
proof -
  obtain P e where out': "out = (case e of None \<Rightarrow> Ret (S\<lparr>raftProc := P\<rparr>)
      | Some err \<Rightarrow> sendTo c (MsgError \<lparr>Code = 500, Message = ApplyFailed err\<rparr>) (S\<lparr>raftProc := P\<rparr>))"
  proof -
    obtain g e where "future_Error (futures (raftNode S) ! f) = Some (g, e)"
      using out by (auto simp: submit_result_def split: option.splits)
    then show ?thesis
      using out that [of "(raftProc S)\<lparr>node := (raftNode S)\<lparr>futures := (futures (raftNode S))[f := g]\<rparr>\<rparr>" e]
      by (simp add: submit_result_def Let_def)
  qed
  have inv': "server_inv (S\<lparr>raftProc := P\<rparr>)" using inv by simp
  show ?thesis
  proof (cases e)
    case None
    then show ?thesis using out' server_inv_move [OF inv', of k "Some c" Reading] k cn by simp
  next
    case (Some err)
    then show ?thesis using out' send_and_move [OF inv', of k c "Some c" Reading] k cn by simp
  qed
qed

lemma server_step:
  assumes "sstep LS SS A marshal S l out" and "server_inv S"
  shows "(\<exists>T. out = Ret T \<and> server_inv T) \<or> out = Panic \<and> (negative_connect S l \<or> apply_panics LS A S l)"
  using assms
proof (induction rule: sstep.induct)
  case (raft S l P)
  then show ?case by simp
next
  case (raft_panic S idx commit)
  then show ?case using applyEntry_panics [OF raft_panic.hyps(3)] by (auto simp: apply_panics_def)
next
  case (connect_asked k S cl c rv)
  then show ?case by (auto intro!: server_inv_move)
next
  case (connect_kept k S cl c rv)
  then show ?case by (auto intro!: server_inv_move)
next
  case (accept S)
  then show ?case
    by (auto simp: server_inv_def ServeHTTP_def nth_append less_Suc_eq)
next
  case (read_ignored k S m)
  then show ?case by simp
next
  case (read_connect k S cl msg S1 c)
  then show ?case using connect_register_inv [OF read_connect.prems read_connect.hyps(1,3)] by simp
next
  case (connect_redirected k S cl c rv out)
  then obtain m where "out = sendTo c m S" by (auto simp: connect_redirect_def split: if_splits)
  then show ?case
    using send_and_move [OF connect_redirected.prems connect_redirected.hyps(1), of c "Some c" Reading m]
      connect_redirected.hyps(2) by simp
next
  case (connect_catch_up k S cl c rv)
  then have "server_inv (set_conn k cl (CaughtUp c rs) S)" for rs by (intro server_inv_move) simp_all
  then show ?case using RevisionsSince_cases [of "sm S" rv] connect_catch_up.hyps by (auto simp: negative_connect_def)
next
  case (connect_text k S cl c rs)
  then show ?case by (auto intro!: server_inv_move)
next
  case (connect_done k S cl c rs t)
  then show ?case
    unfolding connect_ack_def
    using send_and_move [OF connect_done.prems connect_done.hyps(1), of c "Some c" Reading] by simp
next
  case (read_submit k S c msg)
  then show ?case by (auto intro!: server_inv_move)
next
  case (submit_refused k S c)
  then show ?case
    unfolding submit_redirect_def
    using send_and_move [OF submit_refused.prems submit_refused.hyps(1), of c "Some c" Reading] by simp
next
  case (submit_proposed k S c msg way)
  then show ?case using handleSubmit_inv [OF submit_proposed.prems submit_proposed.hyps(1,2)] by blast
next
  case (submit_done k S c f out)
  then show ?case using submit_result_inv by blast
next
  case (commit res S)
  have inv: "server_inv (take_spawned res S)" using commit.prems by (simp add: take_spawned_def)
  then show ?case using onCommit_effect [OF inv, of res] server_inv_moves [OF inv] by auto
next
  case (pump c S ok w)
  have "moves (wsHeap S) ((wsHeap S)[c := w])"
    using pump.hyps by (intro moves_update) (auto simp: writePump_def split: if_splits list.splits)
  then show ?case using server_inv_moves [OF pump.prems] by auto
next
  case (disconnect k S)
  then show ?case using closeConn_inv by blast
qed

lemma server_inv_New: "server_inv (NewNode rn addr)"
  by (simp add: server_inv_def NewNode_def)

lemma server_reach:
  assumes "sreach LS SS A marshal S T" and "server_inv S"
  shows "server_inv T"
  using assms by (induction rule: sreach.induct) (auto dest: server_step)

section \<open>Channels\<close>

text \<open>
  C26. The server never sends on a closed channel and never closes a channel twice, whatever the
  interleaving of connections, commits, disconnects and steps of Raft: in every reachable state each registered
  client is registered under its own name, its channel is open and holds at most 256 messages, and a
  step panics only in one of two ways: \<open>CONNECT\<close> with a negative \<open>last_known_rev\<close>, or the apply loop, when the state machine panics
  on the data of the entry it is given (as \<open>fsm_Apply\<close> does on a submission with a negative \<open>base_rev\<close>).
\<close>

theorem server_channels_safe:
  assumes "sreach LS SS A marshal (NewNode rn addr) S"
  shows "(\<forall>(cid, c) \<in> set (clients S). c < length (wsHeap S) \<and> client_id (wsHeap S ! c) = cid \<and>
        \<not> sendCh_closed (wsHeap S ! c)) \<and>
    (\<forall>w \<in> set (wsHeap S). length (sendCh w) \<le> 256) \<and>
    (\<forall>l. sstep LS SS A marshal S l Panic \<longrightarrow> negative_connect S l \<or> apply_panics LS A S l)"
proof -
  have inv: "server_inv S" by (rule server_reach [OF assms server_inv_New])
  have "negative_connect S l \<or> apply_panics LS A S l" if "sstep LS SS A marshal S l Panic" for l
    using server_step [OF that inv] by simp
  with inv show ?thesis by (auto simp: server_inv_def open_client_def)
qed

text \<open>A node that follows a leader at address \<open>L\<close>, and a client that connects and is redirected.\<close>

definition sample_raft :: "(InmemLogStore, InmemStableStore, DocumentStateMachine, ApplyResult option) RaftNode" where
  "sample_raft =
     \<lparr>config = DefaultConfig, currentTerm = 1, votedFor = [],
      logStore = NewInmemLogStore, stableStore = NewInmemStableStore,
      state = Follower, commitIndex = 0, lastApplied = 0, peers = [], peer_heap = [], leaderID = ''l'',
      leaderAddr = ''L'', node_fsm = NewDocumentStateMachine ''abc'', pendingFutures = [], futures = [], applyCh = [],
      commitNotifyCh = False, shutdownCh = False\<rparr>"

definition sample_client :: "string \<Rightarrow> nat \<Rightarrow> ServerMsg list \<Rightarrow> wsClient" where
  "sample_client i k ms =
     \<lparr>client_id = i, client_conn = k, sendCh = ms, sendCh_closed = False, written = [], pumping = True\<rparr>"

definition sample_server :: "(InmemLogStore, InmemStableStore) Node" where
  "sample_server =
     \<lparr>raftProc = start sample_raft, wsLeaderAddr = ''W'', clients = [(''x'', 0)],
      wsHeap = [sample_client ''x'' 0 [MsgRedirect \<lparr>redirect_LeaderAddr = ''L''\<rparr>]],
      conns = [\<lparr>conn_client = Some 0, conn_pc = Reading\<rparr>]\<rparr>"

lemma sample_server_reached: "sreach InmemLog InmemStable A marshal (NewNode (start sample_raft) ''W'') sample_server"
proof -
  let ?S0 = "NewNode (start sample_raft) ''W''" and ?msg = "\<lparr>con_ClientID = ''x'', LastKnownRev = 0\<rparr>"
  let ?S1 = "ServeHTTP ?S0"
  let ?S2 = "set_conn 0 None (Connecting 0 0) (fst (connect_register 0 ?msg ?S1))"
  have 1: "sreach InmemLog InmemStable A marshal ?S0 ?S1"
    by (rule sreach.step [OF sreach.start accept])
  have 2: "sstep InmemLog InmemStable A marshal ?S1 (Read 0 (MsgConnect (Some ?msg)))
      (Ret (set_conn 0 None (Connecting 0 (LastKnownRev ?msg)) (fst (connect_register 0 ?msg ?S1))))"
    by (rule read_connect) (simp_all add: ServeHTTP_def NewNode_def connect_register_def)
  then have 2: "sreach InmemLog InmemStable A marshal ?S0 ?S2" using sreach.step [OF 1] by simp
  let ?S3 = "set_conn 0 None (Redirecting 0 0) ?S2"
  have leader: "\<not> node_IsLeader (raftNode ?S2)"
    by (simp add: node_IsLeader_def node_State_def set_conn_def connect_register_def ServeHTTP_def NewNode_def start_def sample_raft_def)
  have "sstep InmemLog InmemStable A marshal ?S2 (Handle 0) (Ret ?S3)"
    using connect_asked [of 0 ?S2 None 0 0] leader by (simp add: set_conn_def connect_register_def ServeHTTP_def NewNode_def)
  then have 3: "sreach InmemLog InmemStable A marshal ?S0 ?S3" by (rule sreach.step [OF 2])
  have "connect_redirect 0 ?S3 = Some (sendTo 0 (MsgRedirect \<lparr>redirect_LeaderAddr = ''L''\<rparr>) ?S3)"
    by (simp add: connect_redirect_def node_IsLeader_def node_State_def node_LeaderAddr_def set_conn_def
        connect_register_def ServeHTTP_def NewNode_def start_def sample_raft_def)
  from connect_redirected [OF _ _ this, of 0 None 0]
  have "sstep InmemLog InmemStable A marshal ?S3 (Handle 0)
      (bind_outcome (sendTo 0 (MsgRedirect \<lparr>redirect_LeaderAddr = ''L''\<rparr>) ?S3) (\<lambda>S1. Ret (set_conn 0 (Some 0) Reading S1)))"
    by (simp add: set_conn_def connect_register_def ServeHTTP_def NewNode_def)
  moreover have "bind_outcome (sendTo 0 (MsgRedirect \<lparr>redirect_LeaderAddr = ''L''\<rparr>) ?S3)
      (\<lambda>S1. Ret (set_conn 0 (Some 0) Reading S1)) = Ret sample_server"
    by (simp add: sendTo_def send_def set_conn_def connect_register_def ServeHTTP_def NewNode_def
        sample_server_def sample_client_def)
  ultimately show ?thesis using sreach.step [OF 3] by simp
qed

lemma server_channels_safe_witness:
  "sreach InmemLog InmemStable (fsm_Apply (\<lambda>d. None)) (\<lambda>e. None) (NewNode (start sample_raft) ''W'') sample_server \<and>
   clients sample_server = [(''x'', 0)] \<and> \<not> sendCh_closed (wsHeap sample_server ! 0) \<and>
   length (sendCh (wsHeap sample_server ! 0)) \<le> 256"
  using server_channels_safe [OF sample_server_reached [of "fsm_Apply (\<lambda>d. None)" "\<lambda>e. None"]]
    sample_server_reached [of "fsm_Apply (\<lambda>d. None)" "\<lambda>e. None"]
  by (simp add: sample_server_def)

section \<open>Commits\<close>

text \<open>
  C28. What a commit sends. In every reachable state \<open>onCommit\<close> returns, and it puts into the channel of
  the author's client an acknowledgement with the new revision, into the channel of every other
  registered client the rebased changeset, unless the submission was a duplicate, and nothing into any
  other channel; a message is dropped exactly when the channel is full.
\<close>

theorem onCommit_delivers:
  assumes "sreach LS SS A marshal (NewNode rn addr) S"
  shows "\<exists>T. onCommit res S = Ret T \<and> clients T = clients S \<and> conns T = conns S \<and>
    (\<forall>c < length (wsHeap S).
       (\<forall>cid. (cid, c) \<in> set (clients S) \<longrightarrow> channel T c =
          (if cid = res_ClientID res then enqueue (MsgAck \<lparr>ack_NewRev = NewRev res\<rparr>) (channel S c)
           else if IsDuplicate res then channel S c
           else enqueue (MsgBroadcast \<lparr>bc_Changeset = CPrime res, bc_NewRev = NewRev res\<rparr>) (channel S c))) \<and>
       (c \<notin> snd ` set (clients S) \<longrightarrow> channel T c = channel S c))"
proof -
  have inv: "server_inv S" by (rule server_reach [OF assms server_inv_New])
  obtain h where h: "onCommit res S = Ret (S\<lparr>wsHeap := h\<rparr>)" "moves (wsHeap S) h"
    "\<forall>c < length h. (\<forall>cid. (cid, c) \<in> set (clients S) \<longrightarrow> h ! c = put (commit_msg res cid) (wsHeap S ! c)) \<and>
       (c \<notin> snd ` set (clients S) \<longrightarrow> h ! c = wsHeap S ! c)"
    using onCommit_effect [OF inv] by blast
  have "length h = length (wsHeap S)" using h(2) by (simp add: moves_def list_all2_lengthD)
  then show ?thesis
    using h by (intro exI [of _ "S\<lparr>wsHeap := h\<rparr>"]) (auto simp: put_def commit_msg_def)
qed

lemma onCommit_delivers_witness:
  "\<exists>T. onCommit \<lparr>CPrime = sample_insert, NewRev = 1, res_ClientID = ''y'', IsDuplicate = False\<rparr> sample_server = Ret T \<and>
     channel T 0 = [MsgRedirect \<lparr>redirect_LeaderAddr = ''L''\<rparr>,
       MsgBroadcast \<lparr>bc_Changeset = sample_insert, bc_NewRev = 1\<rparr>]"
  using onCommit_delivers [OF sample_server_reached [of "fsm_Apply (\<lambda>d. None)" "\<lambda>e. None"],
      of "\<lparr>CPrime = sample_insert, NewRev = 1, res_ClientID = ''y'', IsDuplicate = False\<rparr>"]
  by (auto simp: sample_server_def sample_client_def enqueue_def)

end
