(* ===== verification/Service_Runs.thy ===== *)
theory Service_Runs
  imports Raft_Agreement Raft_Opaque Server_Laws
begin

text \<open>
  The whole service: servers of theory \<open>Server_Node\<close>, each with its connections, its Raft node and its
  document, joined by the network of theory \<open>Raft_Cluster\<close>. A step is a step of one server, of any of its
  goroutines, or a server that starts again. Seen without the callbacks that wait to be run, the
  service is a cluster of Raft processes, so that the theorems of \<open>Raft_Agreement\<close> hold of it.
\<close>

section \<open>The service\<close>

record ('l, 's) Service =
  servers :: "string \<Rightarrow> ('l, 's) Node"
  askedVotes :: "RequestVoteRequest set"
  givenVotes :: "(string \<times> RequestVoteRequest \<times> RequestVoteResponse) set"
  askedAppends :: "AppendEntriesRequest set"

definition raft_view :: "('l, 's) Service \<Rightarrow> ('l, 's, DocumentStateMachine, ApplyResult option) Cluster" where
  "raft_view X =
     \<lparr>procs = \<lambda>i. raftProc (servers X i), sentVotes = askedVotes X, voteReplies = givenVotes X, sentAppends = askedAppends X\<rparr>"

definition post :: "string \<Rightarrow> label \<Rightarrow> ('l, 's) Service \<Rightarrow> ('l, 's) Service" where
  "post i l X =
     (let C = publish i l (raft_view X)
      in X\<lparr>askedVotes := sentVotes C, givenVotes := voteReplies C, askedAppends := sentAppends C\<rparr>)"

text \<open>
  The label is the one of the Raft process; what a server does besides Raft is \<open>ClientCall\<close> to it. A server
  that has panicked, or been stopped at any point, starts again on its stores with the text \<open>t\<close> and no
  clients.
\<close>

inductive service_step :: "'l LogStore \<Rightarrow> 's StableStore \<Rightarrow> (string \<Rightarrow> RaftLogEntry option) \<Rightarrow> (RaftLogEntry \<Rightarrow> bytes option) \<Rightarrow>
    string set \<Rightarrow> string \<Rightarrow> ('l, 's) Service \<Rightarrow> string \<Rightarrow> label option \<Rightarrow> ('l, 's) Service \<Rightarrow> bool"
  for LS SS decode marshal ids t where
  raft_act: "i \<in> ids \<Longrightarrow> sstep LS SS (fsm_Apply decode) marshal (servers X i) (RaftStep l) (Ret S) \<Longrightarrow> admissible (raft_view X) i l \<Longrightarrow>
    service_step LS SS decode marshal ids t X i (Some l) (post i l (X\<lparr>servers := (servers X)(i := S)\<rparr>))"
| serve: "i \<in> ids \<Longrightarrow> sstep LS SS (fsm_Apply decode) marshal (servers X i) ev (Ret S) \<Longrightarrow> (\<forall>l. ev \<noteq> RaftStep l) \<Longrightarrow>
    service_step LS SS decode marshal ids t X i (Some ClientCall) (X\<lparr>servers := (servers X)(i := S)\<rparr>)"
| restart: "i \<in> ids \<Longrightarrow>
    NewRaftNode SS (config (raftNode (servers X i))) (logStore (raftNode (servers X i))) (stableStore (raftNode (servers X i)))
      (NewDocumentStateMachine t) = Ret (Inr r) \<Longrightarrow>
    service_step LS SS decode marshal ids t X i None (X\<lparr>servers := (servers X)(i := NewNode (start r) addr)\<rparr>)"

inductive service_run :: "'l LogStore \<Rightarrow> 's StableStore \<Rightarrow> (string \<Rightarrow> RaftLogEntry option) \<Rightarrow> (RaftLogEntry \<Rightarrow> bytes option) \<Rightarrow>
    string set \<Rightarrow> string \<Rightarrow> ('l, 's) Service \<Rightarrow> Wire \<Rightarrow> ('l, 's) Service \<Rightarrow> Wire \<Rightarrow> bool"
  for LS SS decode marshal ids t X w where
  here: "service_run LS SS decode marshal ids t X w X w"
| step: "service_run LS SS decode marshal ids t X w Y u \<Longrightarrow> service_step LS SS decode marshal ids t Y i l Z \<Longrightarrow>
    fresh (raft_view Y) i l \<Longrightarrow> steady LS ids (raft_view Y) i (raft_view Z) \<Longrightarrow> honest (raft_view Y) u i l \<Longrightarrow>
    service_run LS SS decode marshal ids t X w Z (transmit i l u)"

text \<open>The servers have started with empty logs, the same text and no clients.\<close>

definition service_start :: "'s StableStore \<Rightarrow> ('s \<Rightarrow> bool) \<Rightarrow> ('l \<Rightarrow> LogEntry list \<Rightarrow> bool) \<Rightarrow> string set \<Rightarrow> string \<Rightarrow> ('l, 's) Service \<Rightarrow> bool" where
  "service_start SS sinv rep ids t X \<longleftrightarrow>
     cluster_start SS sinv rep ids (NewDocumentStateMachine t) (raft_view X) \<and>
     (\<forall>i \<in> ids. \<exists>r addr. servers X i = NewNode (start r) addr)"

section \<open>Servers are Raft processes\<close>

text \<open>What is left of the document when the callbacks are not looked at, and how \<open>Apply\<close> acts on it.\<close>

definition unspawn :: "DocumentStateMachine \<Rightarrow> DocumentStateMachine" where
  "unspawn fsm = fsm\<lparr>spawned := []\<rparr>"

definition plain_Apply :: "(string \<Rightarrow> RaftLogEntry option) \<Rightarrow> (DocumentStateMachine, ApplyResult option) FSM" where
  "plain_Apply decode fsm data =
     map_option (\<lambda>out. bind_outcome out (\<lambda>(f, x). Ret (unspawn f, x))) (fsm_Apply decode fsm data)"

lemma plain_Apply_mirrors: "mirrors unspawn (fsm_Apply decode) (plain_Apply decode)"
  by (auto simp: mirrors_def plain_Apply_def unspawn_def fsm_Apply_def fsm_Apply_entry_def Let_def
      split: option.splits outcome.splits sum.splits)

lemma Ret_eq_bind: "Ret r = bind_outcome x f \<longleftrightarrow> (\<exists>y. x = Ret y \<and> f y = Ret r)"
  by (metis bind_outcome_eq_Ret)

lemma sendTo_keeps:
  "sendTo c m S = Ret T \<Longrightarrow> raftProc T = raftProc S \<and> conns T = conns S"
  "broadcast res cs S = Ret T \<Longrightarrow> raftProc T = raftProc S \<and> conns T = conns S"
proof -
  show send: "raftProc T = raftProc S \<and> conns T = conns S" if "sendTo c m S = Ret T" for c m S T
    using that by (auto simp: sendTo_def bind_outcome_eq_Ret)
  show "broadcast res cs S = Ret T \<Longrightarrow> raftProc T = raftProc S \<and> conns T = conns S"
    by (induction res cs S arbitrary: T rule: broadcast.induct) (auto simp: bind_outcome_eq_Ret split: if_splits dest!: send)
qed

lemma onCommit_keeps: "onCommit res S = Ret T \<Longrightarrow> raftProc T = raftProc S \<and> conns T = conns S"
  by (auto simp: onCommit_def bind_outcome_eq_Ret split: option.splits if_splits dest!: sendTo_keeps)

lemma handleSubmit_raft:
  assumes "handleSubmit marshal c msg way S = Ret (T, fut)" and "applyWayOpen (raftNode S) way"
  shows "raftProc T = raftProc S \<or> pstep LS SS A (raftProc S) ClientCall (raftProc T)"
proof (cases "fut")
  case None
  then show ?thesis
    using assms(1) by (auto simp: handleSubmit_def Let_def bind_outcome_eq_Ret split: if_splits option.splits prod.splits dest!: sendTo_keeps)
next
  case (Some f)
  then show ?thesis
    using assms by (auto simp: handleSubmit_def Let_def bind_outcome_eq_Ret split: if_splits option.splits prod.splits intro: client_apply)
qed

text \<open>A step of a server outside of Raft is a call of a client to the process, or leaves it as it was but for the callbacks.\<close>

lemma serve_raft:
  assumes "sstep LS SS A marshal S ev (Ret T)" and "\<forall>l. ev \<noteq> RaftStep l"
  shows "seen unspawn (raftProc T) = seen unspawn (raftProc S) \<or> pstep LS SS A (raftProc S) ClientCall (raftProc T)"
  using assms(1)
proof (cases rule: sstep.cases)
  case (connect_redirected k cl c rv out)
  then show ?thesis by (auto simp: connect_redirect_def bind_outcome_eq_Ret Ret_eq_bind set_conn_def split: if_splits dest!: sendTo_keeps)
next
  case (connect_done k cl c rs x)
  then show ?thesis by (auto simp: connect_ack_def bind_outcome_eq_Ret Ret_eq_bind set_conn_def dest!: sendTo_keeps)
next
  case (submit_refused k c)
  then show ?thesis by (auto simp: submit_redirect_def bind_outcome_eq_Ret Ret_eq_bind set_conn_def dest!: sendTo_keeps)
next
  case (submit_proposed k c msg way)
  then obtain U fut where U: "handleSubmit marshal c msg way S = Ret (U, fut)" "raftProc T = raftProc U"
    by (auto simp: bind_outcome_eq_Ret Ret_eq_bind set_conn_def)
  from handleSubmit_raft [OF U(1) submit_proposed(5), of LS SS A] U(2) show ?thesis by auto
next
  case (submit_done k c f out)
  then obtain fut e where "future_Error (futures (raftNode S) ! f) = Some (fut, e)"
    "raftProc T = (raftProc S)\<lparr>node := (raftNode S)\<lparr>futures := (futures (raftNode S))[f := fut]\<rparr>\<rparr>"
    by (auto simp: submit_result_def Let_def bind_outcome_eq_Ret Ret_eq_bind set_conn_def split: option.splits dest!: sendTo_keeps)
  then show ?thesis using client_wait by metis
next
  case (commit res)
  then show ?thesis using onCommit_keeps [OF commit(2) [symmetric]] by (simp add: take_spawned_def seen_def unspawn_def)
next
  case (disconnect k)
  then show ?thesis by (auto simp: closeConn_def set_conn_def removeClient_def Let_def split: option.splits if_splits)
qed (use assms(2) in \<open>auto simp: ServeHTTP_def set_conn_def connect_register_def Let_def bind_outcome_eq_Ret Ret_eq_bind\<close>)

lemma raft_view_post:
  "raft_view (post i l (X\<lparr>servers := (servers X)(i := S)\<rparr>)) = publish i l ((raft_view X)\<lparr>procs := (procs (raft_view X))(i := raftProc S)\<rparr>)"
  "raft_view (X\<lparr>servers := (servers X)(i := S)\<rparr>) = (raft_view X)\<lparr>procs := (procs (raft_view X))(i := raftProc S)\<rparr>"
  by (auto simp: post_def raft_view_def publish_def Let_def fun_eq_iff split: label.split Command.split RPCResponse.split)

text \<open>So a run of the service is a safe run of the cluster, seen without the callbacks.\<close>

lemma service_refines:
  assumes "service_run LS SS decode marshal ids t X w Y u"
  shows "safe_run LS SS (plain_Apply decode) ids (NewDocumentStateMachine t)
    (seen_cluster unspawn (raft_view X)) w (seen_cluster unspawn (raft_view Y)) u"
  using assms
proof (induction rule: service_run.induct)
  case (step Y u i l Z)
  note run = step.IH and mirror = plain_Apply_mirrors [of decode]
  from step.hyps(2) show ?case
  proof (cases rule: service_step.cases)
    case (raft_act l' S)
    from raft_act(4) have "pstep LS SS (fsm_Apply decode) (procs (raft_view Y) i) l' (raftProc S)"
      by (cases rule: sstep.cases) (simp_all add: raft_view_def)
    then show ?thesis
      using safe_act_seen [OF run mirror raft_act(3), of l' "raftProc S"] raft_act step.hyps(3-5) by (simp add: raft_view_post)
  next
    case (serve ev S)
    let ?C = "raft_view Y" and ?D = "(raft_view Y)\<lparr>procs := (procs (raft_view Y))(i := raftProc S)\<rparr>"
    have u: "transmit i l u = u" "publish i ClientCall ?D = ?D" using serve(1) by (simp_all add: transmit_def publish_def)
    from serve_raft [OF serve(4,5)] show ?thesis
    proof
      assume "seen unspawn (raftProc S) = seen unspawn (raftProc (servers Y i))"
      then have "seen_cluster unspawn ?D = seen_cluster unspawn ?C" by (auto simp: seen_cluster_def raft_view_def fun_eq_iff)
      then show ?thesis using run u serve(2) by (simp add: raft_view_post)
    next
      assume "pstep LS SS (fsm_Apply decode) (raftProc (servers Y i)) ClientCall (raftProc S)"
      then show ?thesis
        using safe_act_seen [OF run mirror serve(3), of ClientCall "raftProc S"] serve(1,2) step.hyps(3-5) u
        by (simp add: raft_view_post admissible_def) (simp add: raft_view_def)
    qed
  next
    case (restart r addr)
    have "NewRaftNode SS (config (node (procs (raft_view Y) i))) (logStore (node (procs (raft_view Y) i)))
        (stableStore (node (procs (raft_view Y) i))) (NewDocumentStateMachine t) = Ret (Inr r)"
      using restart(4) by (simp add: raft_view_def)
    from safe_crash_seen [OF run restart(3) _ this] restart(1,2) step.hyps(4)
    show ?thesis by (simp add: raft_view_post NewNode_def unspawn_def NewDocumentStateMachine_def)
  qed
qed (rule safe_run.here)

section \<open>The documents\<close>

text \<open>
  The state machine leaves the document alone, with at most the callback of a duplicate, or adds a revision
  to it and the callback that announces it.
\<close>

lemma fsm_Apply_effect:
  assumes "fsm_Apply decode fsm data = Some (Ret (fsm', res))"
  obtains (same) "revisionLog fsm' = revisionLog fsm" "headText fsm' = headText fsm" "headRev fsm' = headRev fsm"
      "\<forall>r \<in> set (spawned fsm'). \<not> IsDuplicate r \<longrightarrow> r \<in> set (spawned fsm)"
  | (added) h r where "revisionLog fsm' = revisionLog fsm @ [h]" "RevNumber h = headRev fsm" "headRev fsm' = int64 (headRev fsm + 1)"
      "spawned fsm' = spawned fsm @ [r]" "NewRev r = headRev fsm'" "CPrime r = rec_Changeset h"
proof -
  have "(revisionLog fsm' = revisionLog fsm \<and> headText fsm' = headText fsm \<and> headRev fsm' = headRev fsm \<and>
      (\<forall>r \<in> set (spawned fsm'). \<not> IsDuplicate r \<longrightarrow> r \<in> set (spawned fsm))) \<or>
    (\<exists>h r. revisionLog fsm' = revisionLog fsm @ [h] \<and> RevNumber h = headRev fsm \<and> headRev fsm' = int64 (headRev fsm + 1) \<and>
      spawned fsm' = spawned fsm @ [r] \<and> NewRev r = headRev fsm' \<and> CPrime r = rec_Changeset h)"
    using assms
    by (auto simp: fsm_Apply_def fsm_Apply_entry_def Let_def split: option.splits if_splits outcome.splits sum.splits)
  then show thesis using that by blast
qed

text \<open>Every revision has its place as its number, and the head revision counts them.\<close>

definition numbered :: "DocumentStateMachine \<Rightarrow> bool" where
  "numbered fsm \<longleftrightarrow> headRev fsm = len (revisionLog fsm) \<and>
     (\<forall>n < length (revisionLog fsm). RevNumber (revisionLog fsm ! n) = int n)"

lemma numbered_New: "numbered (NewDocumentStateMachine t)"
  by (simp add: numbered_def NewDocumentStateMachine_def)

lemma numbered_added:
  assumes "numbered fsm" and "revisionLog fsm' = revisionLog fsm @ [h]" and "RevNumber h = headRev fsm"
    and "headRev fsm' = int64 (headRev fsm + 1)" and "len (revisionLog fsm') < 2 ^ 63"
  shows "numbered fsm'" and "headRev fsm' = headRev fsm + 1"
  using assms by (auto simp: numbered_def nth_append less_Suc_eq)

text \<open>\<open>older\<close> is an earlier state of the document than \<open>fsm\<close>.\<close>

definition older :: "DocumentStateMachine \<Rightarrow> DocumentStateMachine \<Rightarrow> bool" where
  "older fsm fsm' \<longleftrightarrow> prefix (revisionLog fsm) (revisionLog fsm') \<and>
     (length (revisionLog fsm) = length (revisionLog fsm') \<longrightarrow> headText fsm = headText fsm') \<and>
     (numbered fsm \<longrightarrow> len (revisionLog fsm') < 2 ^ 63 \<longrightarrow> numbered fsm')"

lemma older_refl [simp]: "older fsm fsm"
  by (simp add: older_def)

lemma older_trans:
  assumes "older f1 f2" and "older f2 f3"
  shows "older f1 f3"
proof -
  have le: "prefix (revisionLog f1) (revisionLog f2)" "prefix (revisionLog f2) (revisionLog f3)" using assms by (simp_all add: older_def)
  note len = prefix_length_le [OF le(1)] prefix_length_le [OF le(2)]
  have "headText f1 = headText f3" if "length (revisionLog f1) = length (revisionLog f3)"
    using that len assms by (simp add: older_def)
  moreover have "numbered f3" if "numbered f1" "len (revisionLog f3) < 2 ^ 63"
    using that len assms by (simp add: older_def)
  ultimately show ?thesis using prefix_order.trans [OF le] by (simp add: older_def)
qed

lemma fsm_Apply_older:
  assumes "fsm_Apply decode fsm data = Some (Ret (fsm', res))"
  shows "older fsm fsm'"
  using assms
proof (cases rule: fsm_Apply_effect)
  case same
  then show ?thesis by (simp add: older_def numbered_def)
next
  case (added h r)
  then show ?thesis using numbered_added(1) [OF _ added(1-3)] by (simp add: older_def)
qed

lemma run_document: "run_fsm (plain_Apply decode) fsm es = Some (Ret fsm') \<Longrightarrow> older fsm fsm'"
proof (induction es arbitrary: fsm)
  case (Cons e es)
  show ?case
  proof (cases "Data e = []")
    case False
    then obtain f x where f: "plain_Apply decode fsm (Data e) = Some (Ret (f, x))" "run_fsm (plain_Apply decode) f es = Some (Ret fsm')"
      using Cons.prems by (auto split: option.splits outcome.splits)
    then obtain f' where "fsm_Apply decode fsm (Data e) = Some (Ret (f', x))" "f = unspawn f'"
      by (auto simp: plain_Apply_def bind_outcome_eq_Ret)
    then have "older fsm f" using fsm_Apply_older [of decode fsm "Data e" f' x] by (simp add: older_def unspawn_def numbered_def)
    then show ?thesis using Cons.IH [OF f(2)] by (rule older_trans)
  qed (use Cons in simp)
qed simp

text \<open>The documents of two servers are states of one document.\<close>

lemma service_documents:
  assumes "log_store LS linv lmap" and "stable_store SS sinv" and "service_start SS sinv (repr linv lmap) ids t X"
    and "service_run LS SS decode marshal ids t X silent Y u" and "service_run LS SS decode marshal ids t Y u Z v" and "i \<in> ids" and "j \<in> ids"
  shows "older (sm (servers Y i)) (sm (servers Z j)) \<or> older (sm (servers Z j)) (sm (servers Y i))"
    and "len (revisionLog (sm (servers Y i))) < 2 ^ 63 \<Longrightarrow> numbered (sm (servers Y i))"
    and "len (revisionLog (sm (servers Z j))) < 2 ^ 63 \<Longrightarrow> numbered (sm (servers Z j))"
proof -
  let ?f = "NewDocumentStateMachine t" and ?x = "sm (servers Y i)" and ?y = "sm (servers Z j)"
  have "cluster_start SS sinv (repr linv lmap) ids ?f (seen_cluster unspawn (raft_view X))"
    using assms(3) by (simp add: service_start_def cluster_start_def cluster_init_def durable_def persisted_def raft_view_def)
      (simp add: unspawn_def NewDocumentStateMachine_def)
  then have "\<exists>ps qs. run_fsm (plain_Apply decode) ?f ps = Some (Ret (unspawn ?x)) \<and>
      run_fsm (plain_Apply decode) ?f qs = Some (Ret (unspawn ?y)) \<and> (prefix ps qs \<or> prefix qs ps)"
    by (rule replicas_path [OF assms(1,2) _ service_refines [OF assms(4)] service_refines [OF assms(5)] assms(6,7)])
      (auto simp: raft_view_def)
  then obtain ps qs where runs: "run_fsm (plain_Apply decode) ?f ps = Some (Ret (unspawn ?x))"
      "run_fsm (plain_Apply decode) ?f qs = Some (Ret (unspawn ?y))" and "prefix ps qs \<or> prefix qs ps" by blast
  then consider es where "run_fsm (plain_Apply decode) (unspawn ?x) es = Some (Ret (unspawn ?y))"
    | es where "run_fsm (plain_Apply decode) (unspawn ?y) es = Some (Ret (unspawn ?x))"
    by (auto simp: prefix_def run_fsm_append)
  then have "older (unspawn ?x) (unspawn ?y) \<or> older (unspawn ?y) (unspawn ?x)" by cases (auto dest: run_document)
  then show "older ?x ?y \<or> older ?y ?x" by (simp add: older_def unspawn_def numbered_def)
  show "numbered ?x" if "len (revisionLog ?x) < 2 ^ 63"
    using run_document [OF runs(1)] that numbered_New by (simp add: older_def unspawn_def numbered_def)
  show "numbered ?y" if "len (revisionLog ?y) < 2 ^ 63"
    using run_document [OF runs(2)] that numbered_New by (simp add: older_def unspawn_def numbered_def)
qed

section \<open>What clients are told\<close>

text \<open>The revisions a message tells: their numbers and changesets. A broadcast tells one, the answer to \<open>CONNECT\<close> those the client has missed.\<close>

definition revisions :: "RevisionRecord list \<Rightarrow> (int \<times> Changeset) set" where
  "revisions hs = (\<lambda>h. (RevNumber h + 1, rec_Changeset h)) ` set hs"

fun changes :: "ServerMsg \<Rightarrow> (int \<times> Changeset) set" where
  "changes (MsgBroadcast b) = {(bc_NewRev b, bc_Changeset b)}"
| "changes (MsgConnectAck a) = revisions (CatchUp a)"
| "changes _ = {}"

definition client_told :: "wsClient \<Rightarrow> (int \<times> Changeset) set" where
  "client_told w = (\<Union>m \<in> set (sendCh w @ written w). changes m)"

definition told :: "('l, 's) Node \<Rightarrow> (int \<times> Changeset) set" where
  "told S = (\<Union>w \<in> set (wsHeap S). client_told w)"

text \<open>The revisions that callbacks and connections are about to tell.\<close>

definition announced :: "ApplyResult list \<Rightarrow> (int \<times> Changeset) set" where
  "announced rs = (\<lambda>r. (NewRev r, CPrime r)) ` {r \<in> set rs. \<not> IsDuplicate r}"

fun held_by :: "conn_pc \<Rightarrow> (int \<times> Changeset) set" where
  "held_by (CaughtUp c hs) = revisions hs"
| "held_by (HasText c hs x) = revisions hs"
| "held_by _ = {}"

definition catching :: "('l, 's) Node \<Rightarrow> (int \<times> Changeset) set" where
  "catching S = (\<Union>cn \<in> set (conns S). held_by (conn_pc cn))"

definition truthful :: "('l, 's) Node \<Rightarrow> bool" where
  "truthful S \<longleftrightarrow> (len (revisionLog (sm S)) < 2 ^ 63 \<longrightarrow>
     numbered (sm S) \<and> told S \<union> announced (spawned (sm S)) \<union> catching S \<subseteq> revisions (revisionLog (sm S)))"

lemma told_update:
  assumes "c < length (wsHeap S) \<Longrightarrow> client_told w \<subseteq> client_told (wsHeap S ! c) \<union> K"
  shows "told (S\<lparr>wsHeap := (wsHeap S)[c := w]\<rparr>) \<subseteq> told S \<union> K"
proof (cases "c < length (wsHeap S)")
  case True
  have "client_told (wsHeap S ! c) \<subseteq> told S" using nth_mem [OF True] by (auto simp: told_def)
  moreover have "set ((wsHeap S)[c := w]) \<subseteq> insert w (set (wsHeap S))" by (rule set_update_subset_insert)
  ultimately show ?thesis using assms [OF True] unfolding told_def by auto
qed (simp add: list_update_beyond)

lemma changes_sent:
  assumes "sendTo c m S = Ret T"
  shows "told T \<subseteq> told S \<union> changes m"
proof -
  obtain w where w: "send m (wsHeap S ! c) = Ret w" "T = S\<lparr>wsHeap := (wsHeap S)[c := w]\<rparr>"
    using assms by (auto simp: sendTo_def bind_outcome_eq_Ret)
  then have "client_told w \<subseteq> client_told (wsHeap S ! c) \<union> changes m"
    by (auto simp: send_def client_told_def split: if_splits)
  then show ?thesis unfolding w(2) by (rule told_update)
qed

lemma changes_broadcast: "broadcast res cs S = Ret T \<Longrightarrow> told T \<subseteq> told S \<union> {(NewRev res, CPrime res)}"
  by (induction res cs S arbitrary: T rule: broadcast.induct) (fastforce simp: bind_outcome_eq_Ret split: if_splits dest: changes_sent)+

lemma changes_commit:
  assumes "onCommit res S = Ret T"
  shows "told T \<subseteq> told S \<union> announced [res]"
proof -
  obtain U where U: "told U \<subseteq> told S" "(if IsDuplicate res then Ret U else broadcast res (clients U) U) = Ret T"
    using assms by (fastforce simp: onCommit_def bind_outcome_eq_Ret split: option.splits dest: changes_sent)
  then show ?thesis using changes_broadcast [of res "clients U" U T] by (auto simp: announced_def split: if_splits)
qed

lemma changes_pump:
  assumes "writePump ok (wsHeap S ! c) = Some w"
  shows "told (S\<lparr>wsHeap := (wsHeap S)[c := w]\<rparr>) \<subseteq> told S"
proof -
  have "client_told w \<subseteq> client_told (wsHeap S ! c)"
    using assms by (auto simp: writePump_def client_told_def split: if_splits list.splits)
  then show ?thesis using told_update [of c S w "{}"] by simp
qed

text \<open>Steps that leave the document alone.\<close>

lemma truthful_same:
  assumes "truthful S" and "revisionLog (sm T) = revisionLog (sm S)" and "headRev (sm T) = headRev (sm S)"
    and "told T \<subseteq> told S \<union> announced (spawned (sm S)) \<union> catching S"
    and "announced (spawned (sm T)) \<subseteq> announced (spawned (sm S))" and "catching T \<subseteq> catching S \<union> revisions (revisionLog (sm S))"
  shows "truthful T"
  using assms unfolding truthful_def numbered_def by (simp, blast)

lemma catching_set_conn: "catching (set_conn k cl p S) \<subseteq> catching S \<union> held_by p"
  using set_update_subset_insert [of "conns S" k "\<lparr>conn_client = cl, conn_pc = p\<rparr>"] by (auto simp: catching_def set_conn_def)

lemma view_simps [simp]:
  "told (set_conn k cl p S) = told S" "raftProc (set_conn k cl p S) = raftProc S" "told (S\<lparr>raftProc := P\<rparr>) = told S"
  "catching (S\<lparr>raftProc := P\<rparr>) = catching S" "catching (S\<lparr>wsHeap := h\<rparr>) = catching S" "catching (S\<lparr>clients := cs\<rparr>) = catching S"
  "told (S\<lparr>clients := cs\<rparr>) = told S" "told (S\<lparr>conns := cn\<rparr>) = told S"
  by (simp_all add: told_def catching_def set_conn_def)

lemma catching_keeps: "conns T = conns S \<Longrightarrow> catching T = catching S"
  by (simp add: catching_def)

text \<open>A message that tells nothing, or what the connection holds, and the connection moves on.\<close>

lemma truthful_send:
  assumes "truthful S" and "sendTo c m S = Ret U" and "changes m \<subseteq> catching S" and "held_by p = {}"
  shows "truthful (set_conn k cl p U)"
proof (rule truthful_same [OF assms(1)])
  note U = sendTo_keeps(1) [OF assms(2)]
  show "told (set_conn k cl p U) \<subseteq> told S \<union> announced (spawned (sm S)) \<union> catching S"
    using changes_sent [OF assms(2)] assms(3) by auto
  show "catching (set_conn k cl p U) \<subseteq> catching S \<union> revisions (revisionLog (sm S))"
    using catching_set_conn [of k cl p U] catching_keeps [of U S] U assms(4) by auto
qed (use sendTo_keeps(1) [OF assms(2)] in simp_all)

lemma handleSubmit_outcome:
  assumes "handleSubmit marshal c msg way S = Ret (U, fut)"
  obtains (answered) m where "sendTo c m S = Ret U" "changes m = {}" "fut = None"
  | (passed) data f where "node_Apply (raftNode S) data way = (raftNode U, f)" "U = S\<lparr>raftProc := (raftProc S)\<lparr>node := raftNode U\<rparr>\<rparr>" "fut = Some f"
proof -
  have "(\<exists>m. sendTo c m S = Ret U \<and> changes m = {} \<and> fut = None) \<or>
    (\<exists>data f. node_Apply (raftNode S) data way = (raftNode U, f) \<and> U = S\<lparr>raftProc := (raftProc S)\<lparr>node := raftNode U\<rparr>\<rparr> \<and> fut = Some f)"
    using assms by (auto simp: handleSubmit_def Let_def bind_outcome_eq_Ret split: if_splits option.splits prod.splits)
  then show thesis using that by blast
qed

lemma truthful_submit:
  assumes "truthful S" and "handleSubmit marshal c msg way S = Ret (U, fut)"
  shows "truthful (set_conn k cl (case fut of None \<Rightarrow> Reading | Some f \<Rightarrow> Awaiting f) U)"
  using assms(2)
proof (cases rule: handleSubmit_outcome)
  case (answered m)
  then show ?thesis using truthful_send [OF assms(1) answered(1)] by simp
next
  case (passed data f)
  have fsm: "sm U = sm S" using fsm_same(5) [of "raftNode S" data way] passed(1) by simp
  have eq: "told U = told S" "catching U = catching S" by (subst passed(2), simp)+
  show ?thesis
    using catching_set_conn [of k cl "Awaiting f" U] fsm eq passed(3) by (intro truthful_same [OF assms(1)]) auto
qed

text \<open>A step of Raft changes the document only through \<open>Apply\<close>.\<close>

lemma truthful_raft:
  assumes "truthful S" and "pstep LS SS (fsm_Apply decode) (raftProc S) l P"
  shows "truthful (S\<lparr>raftProc := P\<rparr>)"
  using pstep_fsm [OF assms(2)]
proof (elim disjE exE)
  assume "node_fsm (node P) = sm S"
  then show ?thesis by (intro truthful_same [OF assms(1)]) auto
next
  fix d x
  assume "fsm_Apply decode (sm S) d = Some (Ret (node_fsm (node P), x))"
  then show ?thesis
  proof (cases rule: fsm_Apply_effect)
    case same
    then show ?thesis by (intro truthful_same [OF assms(1)]) (auto simp: announced_def)
  next
    case (added h r)
    have "numbered (node_fsm (node P)) \<and> NewRev r = RevNumber h + 1"
      if "numbered (sm S)" "len (revisionLog (node_fsm (node P))) < 2 ^ 63"
      using numbered_added [OF that(1) added(1-3) that(2)] added(2,5) by simp
    moreover have "announced (spawned (node_fsm (node P))) \<subseteq> announced (spawned (sm S)) \<union> {(NewRev r, rec_Changeset h)}"
      using added(4,6) by (auto simp: announced_def)
    moreover have "revisions (revisionLog (node_fsm (node P))) = insert (RevNumber h + 1, rec_Changeset h) (revisions (revisionLog (sm S)))"
      using added(1) by (simp add: revisions_def)
    ultimately show ?thesis using assms(1) added(1) unfolding truthful_def by fastforce
  qed
qed

lemma revisions_since: "RevisionsSince fsm n = Ret hs \<Longrightarrow> revisions hs \<subseteq> revisions (revisionLog fsm)"
  by (auto simp: RevisionsSince_def slice_def revisions_def split: if_splits dest!: in_set_takeD in_set_dropD)

lemma client_told_new [simp]:
  "client_told \<lparr>client_id = n, client_conn = k, sendCh = [], sendCh_closed = False, written = [], pumping = True\<rparr> = {}"
  by (simp add: client_told_def)

lemma truthful_close:
  assumes "truthful S" and "closeConn k S = Ret T"
  shows "truthful T"
proof -
  have "told T \<subseteq> told S \<and> raftProc T = raftProc S \<and> catching T \<subseteq> catching S"
  proof (cases "conn_client (conns S ! k)")
    case None
    then show ?thesis using assms(2) catching_set_conn [of k None Closed S] by (auto simp: closeConn_def)
  next
    case (Some c)
    let ?w = "wsHeap S ! c"
    have "client_told (?w\<lparr>sendCh_closed := True\<rparr>) \<subseteq> client_told ?w \<union> {}" by (simp add: client_told_def)
    then have "told (S\<lparr>wsHeap := (wsHeap S)[c := ?w\<lparr>sendCh_closed := True\<rparr>]\<rparr>) \<subseteq> told S" using told_update [of c S _ "{}"] by simp
    moreover have "T = (removeClient (client_id ?w) (set_conn k None Closed S))\<lparr>wsHeap := (wsHeap S)[c := ?w\<lparr>sendCh_closed := True\<rparr>]\<rparr>"
      using Some assms(2) by (simp add: closeConn_def Let_def split: if_splits)
    ultimately show ?thesis
      using catching_set_conn [of k None Closed S] by (simp add: removeClient_def told_def)
  qed
  then show ?thesis by (intro truthful_same [OF assms(1)]) auto
qed

lemma truthful_commit:
  assumes "truthful S" and "res \<in> set (spawned (sm S))" and "onCommit res (take_spawned res S) = Ret T"
  shows "truthful T"
proof (rule truthful_same [OF assms(1)])
  note T = onCommit_keeps [OF assms(3)]
  have "told (take_spawned res S) = told S" by (simp add: take_spawned_def)
  moreover have "announced [res] \<subseteq> announced (spawned (sm S))" using assms(2) by (auto simp: announced_def)
  ultimately show "told T \<subseteq> told S \<union> announced (spawned (sm S)) \<union> catching S" using changes_commit [OF assms(3)] by auto
  show "announced (spawned (sm T)) \<subseteq> announced (spawned (sm S))"
    using T set_remove1_subset [of res "spawned (sm S)"] by (auto simp: take_spawned_def announced_def)
  show "catching T \<subseteq> catching S \<union> revisions (revisionLog (sm S))"
    using T by (simp add: take_spawned_def catching_def)
qed (use onCommit_keeps [OF assms(3)] in \<open>simp_all add: take_spawned_def\<close>)

lemma truthful_step:
  assumes "sstep LS SS (fsm_Apply decode) marshal S ev (Ret T)" and "truthful S"
  shows "truthful T"
  using assms(1)
proof (cases rule: sstep.cases)
  case (raft l P)
  then show ?thesis using truthful_raft [OF assms(2)] by simp
next
  case accept
  then show ?thesis by (intro truthful_same [OF assms(2)]) (auto simp: ServeHTTP_def catching_def)
next
  case (read_connect k cl msg S1 c)
  then have S1: "raftProc S1 = raftProc S" "conns S1 = conns S" "told S1 = told S"
    by (auto simp: connect_register_def Let_def told_def client_told_new)
  show ?thesis
    using read_connect(2) S1 catching_set_conn [of k cl "Connecting c (LastKnownRev msg)" S1] catching_keeps [of S1 S]
    by (intro truthful_same [OF assms(2)]) auto
next
  case (connect_asked k cl c rv)
  then show ?thesis
    using catching_set_conn [of k cl "if node_IsLeader (raftNode S) then Admitted c rv else Redirecting c rv" S]
    by (intro truthful_same [OF assms(2)]) auto
next
  case (connect_kept k cl c rv)
  then show ?thesis
    using catching_set_conn [of k cl "Admitted c rv" S] by (intro truthful_same [OF assms(2)]) auto
next
  case (connect_redirected k cl c rv out)
  then show ?thesis
    by (auto simp: connect_redirect_def Ret_eq_bind split: if_splits intro!: truthful_send [OF assms(2)])
next
  case (connect_catch_up k cl c rv)
  then obtain hs where hs: "RevisionsSince (sm S) rv = Ret hs" "T = set_conn k cl (CaughtUp c hs) S" by (auto simp: Ret_eq_bind)
  then show ?thesis
    using revisions_since [OF hs(1)] catching_set_conn [of k cl "CaughtUp c hs" S] by (intro truthful_same [OF assms(2)]) auto
next
  case (connect_text k cl c hs)
  then have "revisions hs \<subseteq> catching S" using nth_mem [of k "conns S"] by (force simp: catching_def)
  then show ?thesis
    using connect_text(2) catching_set_conn [of k cl "HasText c hs (HeadText (sm S))" S] by (intro truthful_same [OF assms(2)]) auto
next
  case (connect_done k cl c hs x)
  then have "revisions hs \<subseteq> catching S" using nth_mem [of k "conns S"] by (force simp: catching_def)
  then show ?thesis
    using connect_done(2) by (auto simp: connect_ack_def Ret_eq_bind intro!: truthful_send [OF assms(2)])
next
  case (read_submit k c msg)
  then show ?thesis
    using catching_set_conn [of k "Some c" "if node_IsLeader (raftNode S) then Proposing msg else Refusing" S]
    by (intro truthful_same [OF assms(2)]) auto
next
  case (submit_refused k c)
  then show ?thesis by (auto simp: submit_redirect_def Ret_eq_bind intro!: truthful_send [OF assms(2)])
next
  case (submit_proposed k c msg way)
  then show ?thesis using truthful_submit [OF assms(2)] by (auto simp: Ret_eq_bind)
next
  case (submit_done k c f out)
  then obtain fut e U where U: "U = S\<lparr>raftProc := (raftProc S)\<lparr>node := (raftNode S)\<lparr>futures := (futures (raftNode S))[f := fut]\<rparr>\<rparr>\<rparr>"
    "out = (case e of None \<Rightarrow> Ret U | Some err \<Rightarrow> sendTo c (MsgError \<lparr>Code = 500, Message = ApplyFailed err\<rparr>) U)"
    by (auto simp: submit_result_def Let_def split: option.splits)
  have "truthful U" unfolding U(1) by (intro truthful_same [OF assms(2)]) auto
  then show ?thesis
    using submit_done(2) U(2) truthful_same [of U "set_conn k (Some c) Reading U"] catching_set_conn [of k "Some c" Reading U]
    by (auto simp: Ret_eq_bind split: option.splits intro: truthful_send)
next
  case (commit res)
  then show ?thesis using truthful_commit [OF assms(2)] by simp
next
  case (pump c ok w)
  then show ?thesis using changes_pump [of ok S c w] by (intro truthful_same [OF assms(2)]) auto
next
  case (disconnect k)
  then show ?thesis using truthful_close [OF assms(2)] by simp
qed (use assms(2) in simp_all)

lemma truthful_run:
  assumes "service_run LS SS decode marshal ids t X w Y u" and "\<forall>i \<in> ids. truthful (servers X i)"
  shows "\<forall>i \<in> ids. truthful (servers Y i)"
  using assms
proof (induction rule: service_run.induct)
  case (step Y u i l Z)
  have new: "truthful (NewNode (start r) addr)" if "node_fsm r = NewDocumentStateMachine t" for r addr
    using that numbered_New [of t]
    by (simp add: truthful_def NewNode_def told_def catching_def announced_def start_def) (simp add: NewDocumentStateMachine_def)
  from step.hyps(2) show ?case
  proof (cases rule: service_step.cases)
    case (raft_act l' S)
    then show ?thesis using step.IH [OF step.prems] truthful_step [OF raft_act(4)] by (auto simp: post_def Let_def)
  next
    case (serve ev S)
    then show ?thesis using step.IH [OF step.prems] truthful_step [OF serve(4)] by auto
  next
    case (restart r addr)
    then show ?thesis using step.IH [OF step.prems] new [OF NewRaftNode_fsm [OF restart(4)]] by auto
  qed
qed simp

lemma truthful_start:
  assumes "service_start SS sinv rep ids t X"
  shows "\<forall>i \<in> ids. truthful (servers X i)"
proof
  fix i assume i: "i \<in> ids"
  have "sm (servers X i) = NewDocumentStateMachine t" using assms i by (simp add: service_start_def cluster_start_def raft_view_def)
  moreover obtain r addr where "servers X i = NewNode (start r) addr" using assms i unfolding service_start_def by blast
  ultimately show "truthful (servers X i)"
    using numbered_New [of t] by (simp add: truthful_def NewNode_def told_def catching_def announced_def start_def) (simp add: NewDocumentStateMachine_def)
qed

lemma numbered_single:
  assumes "numbered fsm"
  shows "single_valued (revisions (revisionLog fsm))"
proof -
  have "h = h'" if "h \<in> set (revisionLog fsm)" "h' \<in> set (revisionLog fsm)" "RevNumber h = RevNumber h'" for h h'
    using that assms by (auto simp: in_set_conv_nth numbered_def)
  then show ?thesis unfolding single_valued_def revisions_def by (auto, metis)
qed

end
