(* ===== verification/Service_Schedule.thy ===== *)
theory Service_Schedule
  imports Service_Runs
begin

text \<open>
  Runs of the service can be computed: a schedule names, step by step, the server that acts and the
  goroutine that goes on, and \<open>play\<close> is the service after it, or \<open>None\<close> when a step is not possible.
  What is played is a run of theory \<open>Service_Runs\<close>. The last section plays a session from the start of the
  servers to the clients that are told about an edit.
\<close>

section \<open>Schedules\<close>

text \<open>
  The trace of a run lists who acted with which label, \<open>None\<close> for a restart. Messages are named by the position in the
  trace of the step that sent them.
\<close>

type_synonym trace = "(string \<times> label option) list"

datatype raft_action =
    Go
  | Timeout
  | Serve nat
  | Count nat
  | Take
  | Replicate nat
  | Reply nat nat
  | ApplyNext

datatype server_action =
    Raft raft_action
  | Open
  | Receive nat ClientMsg
  | Resume nat
  | Callback nat
  | Write nat
  | HangUp nat
  | Restart string

fun label_at :: "trace \<Rightarrow> nat \<Rightarrow> (string \<times> label option) option" where
  "label_at [] n = None"
| "label_at (x # xs) n = (if n = 0 then Some x else label_at xs (n - 1))"

definition command_at :: "trace \<Rightarrow> nat \<Rightarrow> Command option" where
  "command_at tr n =
     (case label_at tr n of
        Some (i, Some (SendVoteRequests req)) \<Rightarrow> Some (CmdRequestVote req)
      | Some (i, Some (SendAppend p req)) \<Rightarrow> Some (CmdAppendEntries req)
      | _ \<Rightarrow> None)"

definition serve_command :: "'l LogStore \<Rightarrow> 's StableStore \<Rightarrow> Command \<Rightarrow> ('l, 's, 'f, 'r) Process \<Rightarrow>
    (label \<times> ('l, 's, 'f, 'r) Process) option" where
  "serve_command LS SS cmd P =
     (case handleRPC LS SS (node P) cmd of
        None \<Rightarrow> None
      | Some (r, resp, reset) \<Rightarrow>
          (case pc P of
             InFollower \<Rightarrow> Some (ServeRPC cmd resp, P\<lparr>node := r, pc := follower_next r\<rparr>)
           | InCandidate req voters \<Rightarrow> Some (ServeRPC cmd resp, P\<lparr>node := r, pc := candidate_next r req voters\<rparr>)
           | InLeader \<Rightarrow> (case leader_next r of (r', pc') \<Rightarrow> Some (ServeRPC cmd resp, P\<lparr>node := r', pc := pc'\<rparr>))
           | _ \<Rightarrow> None))"

definition go_on :: "'l LogStore \<Rightarrow> 's StableStore \<Rightarrow> ('l, 's, 'f, 'r) Process \<Rightarrow> (label \<times> ('l, 's, 'f, 'r) Process) option" where
  "go_on LS SS P =
     (case pc P of
        Top \<Rightarrow>
          (case state (node P) of
             Follower \<Rightarrow> Some (Internal, P\<lparr>pc := InFollower\<rparr>)
           | Candidate \<Rightarrow>
               (case startElection LS SS (node P) of
                  (r, req, targets) \<Rightarrow> Some (SendVoteRequests req, P\<lparr>node := r, pc := ElectionStarted req\<rparr>))
           | Leader \<Rightarrow> Some (Internal, P\<lparr>node := initLeader LS (node P), pc := LeaderReady\<rparr>))
      | ElectionStarted req \<Rightarrow>
          (case immediateMajority (node P) of
             (r, sure) \<Rightarrow> Some (Internal, P\<lparr>node := r, pc := (if sure then Top else candidate_next r req [])\<rparr>))
      | LeaderReady \<Rightarrow>
          (case leader_next (appendNoOp LS (node P)) of (r, pc') \<Rightarrow> Some (Internal, P\<lparr>node := r, pc := pc'\<rparr>))
      | _ \<Rightarrow> None)"

definition count_vote :: "'s StableStore \<Rightarrow> string \<Rightarrow> RequestVoteResponse \<Rightarrow> ('l, 's, 'f, 'r) Process \<Rightarrow>
    (label \<times> ('l, 's, 'f, 'r) Process) option" where
  "count_vote SS v vote P =
     (case pc P of
        InCandidate req voters \<Rightarrow>
          if v \<in> peer_ids (node P) \<and> v \<notin> set voters
          then case receiveVote SS (node P) (Suc (length voters)) vote of
              (r, votes, left) \<Rightarrow>
                Some (ReceiveVote v vote,
                  P\<lparr>node := r, pc := (if left then Top else candidate_next r req (if VoteGranted vote then v # voters else voters))\<rparr>)
          else None
      | _ \<Rightarrow> None)"

definition apply_next :: "'l LogStore \<Rightarrow> ('f, 'r) FSM \<Rightarrow> ('l, 's, 'f, 'r) Process \<Rightarrow> (label \<times> ('l, 's, 'f, 'r) Process) option" where
  "apply_next LS A P =
     (case applying P of
        None \<Rightarrow>
          if commitNotifyCh (node P)
          then Some (Internal, P\<lparr>node := (node P)\<lparr>commitNotifyCh := False\<rparr>,
                                applying := Some (lastApplied (node P) + 1, commitIndex (node P))\<rparr>)
          else None
      | Some (idx, commit) \<Rightarrow>
          if idx \<le> commit
          then case applyEntry LS A idx (node P) of
              Some (Ret r) \<Rightarrow> Some (Internal, P\<lparr>node := r, applying := Some (idx + 1, commit)\<rparr>)
            | _ \<Rightarrow> None
          else Some (Internal, P\<lparr>applying := None\<rparr>))"

fun raft_next :: "'l LogStore \<Rightarrow> 's StableStore \<Rightarrow> ('f, 'r) FSM \<Rightarrow> trace \<Rightarrow> raft_action \<Rightarrow> ('l, 's, 'f, 'r) Process \<Rightarrow>
    (label \<times> ('l, 's, 'f, 'r) Process) option" where
  "raft_next LS SS A tr Go P = go_on LS SS P"
| "raft_next LS SS A tr Timeout P =
     (case pc P of
        InFollower \<Rightarrow> Some (Internal, P\<lparr>node := electionTimeout (node P), pc := Top\<rparr>)
      | InCandidate req voters \<Rightarrow> Some (Internal, P\<lparr>pc := Top\<rparr>)
      | _ \<Rightarrow> None)"
| "raft_next LS SS A tr (Serve n) P =
     (case command_at tr n of None \<Rightarrow> None | Some cmd \<Rightarrow> serve_command LS SS cmd P)"
| "raft_next LS SS A tr (Count n) P =
     (case label_at tr n of
        Some (v, Some (ServeRPC cmd (RespRequestVote vote))) \<Rightarrow> count_vote SS v vote P
      | _ \<Rightarrow> None)"
| "raft_next LS SS A tr Take P =
     (case pc P of
        InLeader \<Rightarrow>
          (case applyCh (node P) of
             [] \<Rightarrow> None
           | req # reqs \<Rightarrow>
               (case leader_next (handleApplyRequest LS req ((node P)\<lparr>applyCh := reqs\<rparr>)) of
                  (r, pc') \<Rightarrow> Some (Internal, P\<lparr>node := r, pc := pc'\<rparr>)))
      | _ \<Rightarrow> None)"
| "raft_next LS SS A tr (Replicate p) P =
     (if p < length (peer_heap (node P))
      then case replicateOnce_request LS (node P) p of Some (Some req) \<Rightarrow> Some (SendAppend p req, P) | _ \<Rightarrow> None
      else None)"
| "raft_next LS SS A tr (Reply n m) P =
     (case (label_at tr n, label_at tr m) of
        (Some (i, Some (SendAppend p req)), Some (j, Some (ServeRPC cmd (RespAppendEntries resp)))) \<Rightarrow>
          if p < length (peer_heap (node P))
          then Some (ReceiveAppendReply p (Entries req) resp, P\<lparr>node := replicateOnce_response LS SS (node P) p (Entries req) resp\<rparr>)
          else None
      | _ \<Rightarrow> None)"
| "raft_next LS SS A tr ApplyNext P = apply_next LS A P"

lemma go_on_step: "go_on LS SS P = Some (l, Q) \<Longrightarrow> pstep LS SS A P l Q"
  by (auto simp: go_on_def split: pc.splits ServerState.splits prod.splits
      intro: run_follower run_candidate run_leader candidate_start leader_start)

lemma serve_command_step: "serve_command LS SS cmd P = Some (l, Q) \<Longrightarrow> pstep LS SS A P l Q"
  by (auto simp: serve_command_def split: option.splits prod.splits pc.splits
      intro: follower_rpc candidate_rpc leader_rpc)

lemma count_vote_step: "count_vote SS v vote P = Some (l, Q) \<Longrightarrow> pstep LS SS A P l Q"
  by (auto simp: count_vote_def split: pc.splits prod.splits if_splits dest: candidate_vote [where LS = LS and A = A])

lemma apply_next_step: "apply_next LS A P = Some (l, Q) \<Longrightarrow> pstep LS SS A P l Q"
  by (auto simp: apply_next_def split: option.splits outcome.splits prod.splits if_splits
      intro: apply_start apply_entry apply_done)

lemma raft_next_step: "raft_next LS SS A tr a P = Some (l, Q) \<Longrightarrow> pstep LS SS A P l Q"
  by (cases a)
    (auto split: option.splits prod.splits pc.splits label.splits RPCResponse.splits list.splits if_splits
      intro: go_on_step serve_command_step count_vote_step apply_next_step follower_timeout candidate_timeout
        leader_apply replicate_send replicate_reply)

section \<open>Playing a schedule\<close>

definition conn_at :: "nat \<Rightarrow> ('l, 's) Node \<Rightarrow> conn option" where
  "conn_at k S = (if k < length (conns S) then Some (conns S ! k) else None)"

definition receive :: "nat \<Rightarrow> ClientMsg \<Rightarrow> ('l, 's) Node \<Rightarrow> ('l, 's) Node outcome option" where
  "receive k m S =
     (case conn_at k S of
        None \<Rightarrow> None
      | Some cn \<Rightarrow>
          if conn_pc cn \<noteq> Reading then None
          else if ignored cn m then Some (Ret S)
          else case m of
              MsgConnect (Some msg) \<Rightarrow>
                (case connect_register k msg S of (S1, c) \<Rightarrow> Some (Ret (set_conn k (conn_client cn) (Connecting c (LastKnownRev msg)) S1)))
            | MsgSubmit (Some msg) \<Rightarrow>
                (case conn_client cn of
                   None \<Rightarrow> None
                 | Some c \<Rightarrow>
                     Some (Ret (set_conn k (Some c) (if node_IsLeader (raftNode S) then Proposing msg else Refusing) S)))
            | _ \<Rightarrow> None)"

text \<open>A submission is put into \<open>applyCh\<close> when there is room for it.\<close>

definition resume :: "(RaftLogEntry \<Rightarrow> bytes option) \<Rightarrow> nat \<Rightarrow> ('l, 's) Node \<Rightarrow> ('l, 's) Node outcome option" where
  "resume marshal k S =
     (case conn_at k S of
        None \<Rightarrow> None
      | Some cn \<Rightarrow>
          (case conn_pc cn of
             Connecting c rv \<Rightarrow>
               Some (Ret (set_conn k (conn_client cn) (if node_IsLeader (raftNode S) then Admitted c rv else Redirecting c rv) S))
           | Redirecting c rv \<Rightarrow>
               (case connect_redirect c S of
                  Some out \<Rightarrow> Some (bind_outcome out (\<lambda>S1. Ret (set_conn k (Some c) Reading S1)))
                | None \<Rightarrow> Some (Ret (set_conn k (conn_client cn) (Admitted c rv) S)))
           | Admitted c rv \<Rightarrow>
               Some (bind_outcome (RevisionsSince (sm S) rv) (\<lambda>rs. Ret (set_conn k (conn_client cn) (CaughtUp c rs) S)))
           | CaughtUp c rs \<Rightarrow> Some (Ret (set_conn k (conn_client cn) (HasText c rs (HeadText (sm S))) S))
           | HasText c rs txt \<Rightarrow>
               Some (bind_outcome (connect_ack c rs txt (HeadRev (sm S)) S) (\<lambda>S1. Ret (set_conn k (Some c) Reading S1)))
           | Refusing \<Rightarrow>
               (case conn_client cn of
                  None \<Rightarrow> None
                | Some c \<Rightarrow> Some (bind_outcome (submit_redirect c S) (\<lambda>S1. Ret (set_conn k (Some c) Reading S1))))
           | Proposing msg \<Rightarrow>
               (case conn_client cn of
                  None \<Rightarrow> None
                | Some c \<Rightarrow>
                    if applyWayOpen (raftNode S) Enqueued
                    then Some (bind_outcome (handleSubmit marshal c msg Enqueued S)
                      (\<lambda>(S1, future). Ret (set_conn k (Some c) (case future of None \<Rightarrow> Reading | Some f \<Rightarrow> Awaiting f) S1)))
                    else None)
           | Awaiting f \<Rightarrow>
               (case conn_client cn of
                  None \<Rightarrow> None
                | Some c \<Rightarrow>
                    map_option (\<lambda>out. bind_outcome out (\<lambda>S1. Ret (set_conn k (Some c) Reading S1))) (submit_result c f S))
           | _ \<Rightarrow> None))"

fun server_next :: "(RaftLogEntry \<Rightarrow> bytes option) \<Rightarrow> server_action \<Rightarrow> ('l, 's) Node \<Rightarrow> ('l, 's) Node outcome option" where
  "server_next marshal (Raft a) S = None"
| "server_next marshal Open S = Some (Ret (ServeHTTP S))"
| "server_next marshal (Receive k m) S = receive k m S"
| "server_next marshal (Resume k) S = resume marshal k S"
| "server_next marshal (Callback n) S =
     (if n < length (spawned (sm S)) then Some (onCommit (spawned (sm S) ! n) (take_spawned (spawned (sm S) ! n) S)) else None)"
| "server_next marshal (Write c) S =
     (if c < length (wsHeap S)
      then map_option (\<lambda>w. Ret (S\<lparr>wsHeap := (wsHeap S)[c := w]\<rparr>)) (writePump True (wsHeap S ! c)) else None)"
| "server_next marshal (HangUp k) S =
     (case conn_at k S of None \<Rightarrow> None | Some cn \<Rightarrow> if conn_pc cn = Reading then Some (closeConn k S) else None)"
| "server_next marshal (Restart addr) S = None"

lemma conn_at_Some: "conn_at k S = Some cn \<longleftrightarrow> k < length (conns S) \<and> conns S ! k = cn"
  by (auto simp: conn_at_def)

lemma conn_shape: "cn = \<lparr>conn_client = cl, conn_pc = p\<rparr> \<longleftrightarrow> conn_client cn = cl \<and> conn_pc cn = p"
  by (cases cn) simp

text \<open>The two rules that ask \<open>IsLeader\<close>, with the place they lead to as a premise.\<close>

lemma leader_asked:
  "k < length (conns S) \<Longrightarrow> conn_client (conns S ! k) = cl \<Longrightarrow> conn_pc (conns S ! k) = Connecting c rv \<Longrightarrow>
    p = (if node_IsLeader (raftNode S) then Admitted c rv else Redirecting c rv) \<Longrightarrow>
    sstep LS SS A marshal S (Handle k) (Ret (set_conn k cl p S))"
  "k < length (conns S) \<Longrightarrow> conn_client (conns S ! k) = Some c \<Longrightarrow> conn_pc (conns S ! k) = Reading \<Longrightarrow>
    p = (if node_IsLeader (raftNode S) then Proposing msg else Refusing) \<Longrightarrow>
    sstep LS SS A marshal S (Read k (MsgSubmit (Some msg))) (Ret (set_conn k (Some c) p S))"
  using connect_asked [unfolded conn_shape] read_submit [unfolded conn_shape] by blast+

lemma receive_step: "receive k m S = Some out \<Longrightarrow> sstep LS SS A marshal S (Read k m) out"
  by (auto simp: receive_def conn_at_Some split: option.splits if_splits ClientMsg.splits prod.splits
      intro: read_ignored read_connect [unfolded conn_shape] leader_asked(2))

lemma resume_step: "resume marshal k S = Some out \<Longrightarrow> sstep LS SS A marshal S (Handle k) out"
  by (auto simp: resume_def conn_at_Some split: option.splits conn_pc.splits if_splits
      intro: leader_asked(1) connect_redirected [unfolded conn_shape] connect_kept [unfolded conn_shape]
        submit_refused [unfolded conn_shape] submit_proposed [unfolded conn_shape] connect_catch_up [unfolded conn_shape] connect_text [unfolded conn_shape]
        connect_done [unfolded conn_shape] submit_done [unfolded conn_shape])

lemma server_next_step:
  "server_next marshal a S = Some out \<Longrightarrow> \<exists>ev. sstep LS SS A marshal S ev out \<and> (\<forall>l. ev \<noteq> RaftStep l)"
  by (cases a) (auto simp: conn_at_Some split: option.splits if_splits
      dest: receive_step [where LS = LS and SS = SS and A = A and marshal = marshal] resume_step [where LS = LS and SS = SS and A = A]
      intro: accept sstep.commit [OF nth_mem] pump disconnect)

text \<open>
  A moment of a run: the servers and the trace. The requests and replies that have been sent can be read off the
  trace; those that wait for an answer are the ones since the last restart.
\<close>

type_synonym ('l, 's) moment = "(string \<times> ('l, 's) Node) list \<times> trace"

definition in_flight :: "trace \<Rightarrow> string \<Rightarrow> (nat \<times> AppendEntriesRequest) list" where
  "in_flight tr i =
     foldl (\<lambda>xs (j, l). if j = i then (case l of None \<Rightarrow> [] | Some (SendAppend p req) \<Rightarrow> (p, req) # xs | _ \<Rightarrow> xs) else xs) [] tr"

definition depicts :: "('l, 's) moment \<Rightarrow> ('l, 's) Service \<Rightarrow> Wire \<Rightarrow> bool" where
  "depicts m X w \<longleftrightarrow>
     (case m of (ns, tr) \<Rightarrow>
        (\<forall>i S. map_of ns i = Some S \<longrightarrow> servers X i = S) \<and>
        askedVotes X = {req. \<exists>i. (i, Some (SendVoteRequests req)) \<in> set tr} \<and>
        givenVotes X = {(i, req, vote). (i, Some (ServeRPC (CmdRequestVote req) (RespRequestVote vote))) \<in> set tr} \<and>
        askedAppends X = {req. \<exists>i p. (i, Some (SendAppend p req)) \<in> set tr} \<and>
        answered w = {(i, req, a). (i, Some (ServeRPC (CmdAppendEntries req) (RespAppendEntries a))) \<in> set tr} \<and>
        (\<forall>i. inFlight w i = set (in_flight tr i)))"

text \<open>The conditions on the steps of a run, computed from the process that acts and the trace.\<close>

definition allowed :: "trace \<Rightarrow> string \<Rightarrow> ('l, 's, 'f, 'r) Process \<Rightarrow> label option \<Rightarrow> bool" where
  "allowed tr i P l \<longleftrightarrow>
     (case l of
        Some (ReceiveVote v vote) \<Rightarrow>
          (case pc P of InCandidate req voters \<Rightarrow> (v, Some (ServeRPC (CmdRequestVote req) (RespRequestVote vote))) \<in> set tr | _ \<Rightarrow> False)
      | Some (ServeRPC cmd resp) \<Rightarrow>
          (case cmd of
             CmdRequestVote req \<Rightarrow> (\<exists>x \<in> set tr. snd x = Some (SendVoteRequests req)) \<and> CandidateID req \<noteq> i
           | CmdAppendEntries req \<Rightarrow> (\<exists>x \<in> set tr. case snd x of Some (SendAppend p q) \<Rightarrow> q = req | _ \<Rightarrow> False) \<and> LeaderID req \<noteq> i
           | CmdUnknown \<Rightarrow> True)
      | Some (ReceiveAppendReply p entries resp) \<Rightarrow>
          (state (node P) = Leader \<or> aer_Term resp \<le> currentTerm (node P)) \<and>
          (\<exists>x \<in> set (in_flight tr i). fst x = p \<and> Entries (snd x) = entries \<and>
             (ps_id (peer_heap (node P) ! p), Some (ServeRPC (CmdAppendEntries (snd x)) (RespAppendEntries resp))) \<in> set tr) \<and>
          (Success resp \<longrightarrow> state (node P) = Leader)
      | Some (SendVoteRequests req) \<Rightarrow> currentTerm (node P) < - 1
      | _ \<Rightarrow> True) \<and>
     \<not> (pc P = LeaderReady \<and> state (node P) \<noteq> Leader)"

lemma in_flight_snoc:
  "in_flight (tr @ [(j, l)]) i =
     (if j = i then (case l of None \<Rightarrow> [] | Some (SendAppend p req) \<Rightarrow> (p, req) # in_flight tr i | _ \<Rightarrow> in_flight tr i) else in_flight tr i)"
  unfolding in_flight_def by simp

lemma sent_append: "(\<exists>x \<in> set tr. case snd x of Some (SendAppend p q) \<Rightarrow> q = req | _ \<Rightarrow> False) \<longleftrightarrow> (\<exists>i p. (i, Some (SendAppend p req)) \<in> set tr)"
proof -
  have "(case l of Some (SendAppend p q) \<Rightarrow> q = req | _ \<Rightarrow> False) \<longleftrightarrow> (\<exists>p. l = Some (SendAppend p req))" for l
    by (auto split: option.splits label.splits)
  then show ?thesis by force
qed

lemma sent_vote: "(\<exists>x \<in> set tr. snd x = Some (SendVoteRequests req)) \<longleftrightarrow> (\<exists>i. (i, Some (SendVoteRequests req)) \<in> set tr)"
  by force

lemma allowed_permits:
  assumes d: "depicts (ns, tr) X w" and "allowed tr i (raftProc (servers X i)) l"
  shows "(case l of None \<Rightarrow> True | Some k \<Rightarrow> admissible (raft_view X) i k) \<and> fresh (raft_view X) i l \<and> honest (raft_view X) w i l"
proof (cases l)
  case None
  then show ?thesis by (simp add: fresh_def honest_def)
next
  case (Some k)
  note sets = d [unfolded depicts_def prod.case]
  show ?thesis
  proof (cases k)
    case (ReceiveVote v vote)
    then show ?thesis
      using assms(2) Some sets by (simp add: allowed_def admissible_def fresh_def honest_def raft_view_def split: pc.splits)
  next
    case (ServeRPC cmd resp)
    then show ?thesis
      using assms(2) Some sets
      by (simp add: allowed_def admissible_def fresh_def honest_def raft_view_def sent_append sent_vote split: Command.splits)
  next
    case (ReceiveAppendReply p entries resp)
    then show ?thesis
      using assms(2) Some sets by (auto simp: allowed_def admissible_def fresh_def honest_def raft_view_def)
  qed (use assms(2) Some in \<open>simp_all add: allowed_def admissible_def fresh_def honest_def raft_view_def\<close>)
qed

definition outcome_of :: "'l LogStore \<Rightarrow> 's StableStore \<Rightarrow> (string \<Rightarrow> RaftLogEntry option) \<Rightarrow> (RaftLogEntry \<Rightarrow> bytes option) \<Rightarrow> string \<Rightarrow>
    server_action \<Rightarrow> trace \<Rightarrow> ('l, 's) Node \<Rightarrow> (label option \<times> ('l, 's) Node) option" where
  "outcome_of LS SS decode marshal t a tr S =
     (case a of
        Raft ra \<Rightarrow>
          (case raft_next LS SS (fsm_Apply decode) tr ra (raftProc S) of
             None \<Rightarrow> None
           | Some (l, P) \<Rightarrow> Some (Some l, S\<lparr>raftProc := P\<rparr>))
      | Restart addr \<Rightarrow>
          (case NewRaftNode SS (config (raftNode S)) (logStore (raftNode S)) (stableStore (raftNode S)) (NewDocumentStateMachine t) of
             Ret (Inr r) \<Rightarrow> Some (None, NewNode (start r) addr)
           | _ \<Rightarrow> None)
      | _ \<Rightarrow> (case server_next marshal a S of Some (Ret S') \<Rightarrow> Some (Some ClientCall, S') | _ \<Rightarrow> None))"

definition short_log :: "'l LogStore \<Rightarrow> ('l, 's) Node \<Rightarrow> bool" where
  "short_log LS S \<longleftrightarrow> fst (LastIndex LS (logStore (raftNode S))) < - 2"

fun play :: "'l LogStore \<Rightarrow> 's StableStore \<Rightarrow> (string \<Rightarrow> RaftLogEntry option) \<Rightarrow> (RaftLogEntry \<Rightarrow> bytes option) \<Rightarrow> string \<Rightarrow>
    (string \<times> server_action) list \<Rightarrow> ('l, 's) moment \<Rightarrow> ('l, 's) moment option" where
  "play LS SS decode marshal t [] m = Some m"
| "play LS SS decode marshal t ((i, a) # as) (ns, tr) =
     (case map_of ns i of
        None \<Rightarrow> None
      | Some S \<Rightarrow>
          (case outcome_of LS SS decode marshal t a tr S of
             None \<Rightarrow> None
           | Some (l, S') \<Rightarrow>
               if allowed tr i (raftProc S) l \<and> list_all (\<lambda>x. short_log LS (snd x)) ns
               then play LS SS decode marshal t as (AList.update i S' ns, tr @ [(i, l)])
               else None))"

text \<open>The service after a step, and that the next moment depicts it.\<close>

definition moved :: "('l, 's) Service \<Rightarrow> string \<Rightarrow> label option \<Rightarrow> ('l, 's) Node \<Rightarrow> ('l, 's) Service" where
  "moved X i l S = (case l of None \<Rightarrow> X\<lparr>servers := (servers X)(i := S)\<rparr> | Some k \<Rightarrow> post i k (X\<lparr>servers := (servers X)(i := S)\<rparr>))"

lemma outcome_of_step:
  assumes "outcome_of LS SS decode marshal t a tr (servers X i) = Some (l, S)" and "i \<in> ids"
    and "case l of None \<Rightarrow> True | Some k \<Rightarrow> admissible (raft_view X) i k"
  shows "service_step LS SS decode marshal ids t X i l (moved X i l S)"
proof -
  have quiet: "post i ClientCall Y = Y" for Y :: "('a, 'b) Service" by (simp add: post_def publish_def raft_view_def)
  have serve: "service_step LS SS decode marshal ids t X i (Some ClientCall) (moved X i (Some ClientCall) S)"
    if "server_next marshal a (servers X i) = Some (Ret S)"
    using server_next_step [OF that] service_step.serve [OF assms(2)] by (simp add: moved_def quiet) blast
  have raft: "service_step LS SS decode marshal ids t X i (Some k) (moved X i (Some k) ((servers X i)\<lparr>raftProc := P\<rparr>))"
    if "raft_next LS SS (fsm_Apply decode) tr ra (raftProc (servers X i)) = Some (k, P)" "l = Some k" for ra k P
    using raft_act [OF assms(2) sstep.raft [OF raft_next_step [OF that(1)]]] assms(3) that(2) by (simp add: moved_def)
  show ?thesis
  proof (cases a)
    case (Raft ra)
    then show ?thesis using assms(1) by (auto simp: outcome_of_def split: option.splits intro: raft)
  next
    case (Restart addr)
    then show ?thesis
      using assms(1) by (auto simp: outcome_of_def moved_def split: outcome.splits sum.splits intro: service_step.restart [OF assms(2)])
  qed (use assms(1) serve in \<open>auto simp: outcome_of_def simp del: server_next.simps split: option.splits outcome.splits\<close>)
qed

lemma depicts_moved:
  assumes "depicts (ns, tr) X w"
  shows "depicts (AList.update i S ns, tr @ [(i, l)]) (moved X i l S) (transmit i l w)"
proof (cases l)
  case None
  then show ?thesis using assms by (auto simp: depicts_def moved_def transmit_def in_flight_snoc AList.update_conv')
next
  case (Some k)
  note now = Some assms [unfolded depicts_def prod.case]
  note sims = depicts_def moved_def post_def publish_def raft_view_def transmit_def in_flight_snoc AList.update_conv'
  show ?thesis
  proof (cases k)
    case (ServeRPC cmd resp)
    then show ?thesis using now by (cases cmd; cases resp) (auto simp: sims)
  qed (use now in \<open>auto simp: sims\<close>)
qed

lemma allowed_ready: "allowed tr i P l \<Longrightarrow> pc P = LeaderReady \<Longrightarrow> state (node P) = Leader"
  by (simp add: allowed_def)

lemma allowed_steady:
  assumes "depicts (ns, tr) X w" and "list_all (\<lambda>x. short_log LS (snd x)) ns" and "j \<in> fst ` set ns"
  shows "fst (LastIndex LS (logStore (raftNode (servers X j)))) < - 2"
proof -
  obtain S where S: "map_of ns j = Some S" using assms(3) by (metis map_of_eq_None_iff not_None_eq)
  then have "servers X j = S" using assms(1) by (simp add: depicts_def)
  then show ?thesis using map_of_SomeD [OF S] assms(2) by (auto simp: list_all_iff short_log_def)
qed

text \<open>What is played is a run.\<close>

lemma play_run:
  assumes "play LS SS decode marshal t as (ns, tr) = Some (ns', tr')" and "depicts (ns, tr) Y u"
    and "ids = fst ` set ns"
  shows "\<exists>Z v. service_run LS SS decode marshal ids t Y u Z v \<and> depicts (ns', tr') Z v \<and> ids = fst ` set ns'"
proof -
  have "service_run LS SS decode marshal ids t X w Y u \<Longrightarrow> 
      \<exists>Z v. service_run LS SS decode marshal ids t X w Z v \<and> depicts (ns', tr') Z v \<and> ids = fst ` set ns'" for X w
    using assms
  proof (induction as arbitrary: ns tr Y u)
    case (Cons ia as)
    obtain i a where ia: "ia = (i, a)" by (cases ia)
    obtain S l S' where here: "map_of ns i = Some S" "outcome_of LS SS decode marshal t a tr S = Some (l, S')"
      "allowed tr i (raftProc S) l" "list_all (\<lambda>x. short_log LS (snd x)) ns"
      "play LS SS decode marshal t as (AList.update i S' ns, tr @ [(i, l)]) = Some (ns', tr')"
      using Cons.prems(2) by (auto simp: ia split: option.splits prod.splits if_splits)
    have S: "servers Y i = S" and ids: "i \<in> ids" using Cons.prems(3,4) here(1) by (auto simp: depicts_def dest: map_of_SomeD intro: rev_image_eqI)
    note ok = allowed_permits [OF Cons.prems(3), of i l, unfolded S, OF here(3)]
    have "service_step LS SS decode marshal ids t Y i l (moved Y i l S')"
      using outcome_of_step [of LS SS decode marshal t a tr Y i l S' ids] here(2) S ids ok by simp
    moreover have "steady LS ids (raft_view Y) i (raft_view (moved Y i l S'))"
      using allowed_ready [OF here(3)] S allowed_steady [OF Cons.prems(3) here(4)] Cons.prems(4) by (auto simp: steady_def raft_view_def)
    ultimately have "service_run LS SS decode marshal ids t X w (moved Y i l S') (transmit i l u)"
      using service_run.step [OF Cons.prems(1)] ok by blast
    moreover have "ids = fst ` set (AList.update i S' ns)" using Cons.prems(4) ids by (simp add: AList.dom_update insert_absorb)
    ultimately show ?case using Cons.IH [OF _ here(5) depicts_moved [OF Cons.prems(3)]] by blast
  qed auto
  then show ?thesis using service_run.here by blast
qed

section \<open>A session\<close>

text \<open>Three servers that have just started with the same initial text.\<close>

definition sample_server :: "string \<Rightarrow> (InmemLogStore, InmemStableStore, DocumentStateMachine, ApplyResult option) RaftNode" where
  "sample_server i =
     \<lparr>config = sample_config i, currentTerm = 0, votedFor = [], logStore = NewInmemLogStore, stableStore = NewInmemStableStore,
      state = Follower, commitIndex = 0, lastApplied = 0, peers = [], peer_heap = [], leaderID = [], leaderAddr = [],
      node_fsm = NewDocumentStateMachine ''hello'', pendingFutures = [], futures = [], applyCh = [], commitNotifyCh = False, shutdownCh = False\<rparr>"

definition sample_service :: "(InmemLogStore, InmemStableStore) Service" where
  "sample_service = \<lparr>servers = \<lambda>i. NewNode (start (sample_server i)) i, askedVotes = {}, givenVotes = {}, askedAppends = {}\<rparr>"

text \<open>Two clients edit the same revision: one writes at the end of the text, the other at its beginning.\<close>

definition sample_edit :: "string \<Rightarrow> SubmitMsg" where
  "sample_edit u =
     \<lparr>sub_ClientID = u, sub_SubmissionID = 1, sub_BaseRev = 0,
      sub_Changeset = \<lparr>OldLen = 5, NewLen = 6, Ops = (if u = ''ann'' then [Retain 5, Insert ''!''] else [Insert ''>'', Retain 5])\<rparr>\<rparr>"

definition sample_marshal :: "RaftLogEntry \<Rightarrow> bytes option" where
  "sample_marshal e = Some (entry_ClientID e)"

definition sample_decode :: "string \<Rightarrow> RaftLogEntry option" where
  "sample_decode d = Some (submitEntry (sample_edit d))"

definition sample_connect :: "string \<Rightarrow> nat \<Rightarrow> string \<Rightarrow> nat \<Rightarrow> (string \<times> server_action) list" where
  "sample_connect i k u n =
     [(i, Open), (i, Receive k (MsgConnect (Some \<lparr>con_ClientID = u, LastKnownRev = 0\<rparr>)))] @ replicate n (i, Resume k)"

text \<open>
  \<open>a\<close> is elected with the vote of \<open>b\<close>; \<open>ann\<close> and \<open>bob\<close> connect to \<open>a\<close>, \<open>eve\<close> to \<open>b\<close>,
  which looks for a leader to send her to and knows none. The two edits go into the
  log of \<open>a\<close>, are copied to \<open>b\<close>, committed, applied and told to the clients of \<open>a\<close>; with the next
  heartbeat to those of \<open>b\<close>.
\<close>

definition sample_edits :: "(string \<times> server_action) list" where
  "sample_edits =
     [(''a'', Raft Go), (''b'', Raft Go), (''c'', Raft Go), (''a'', Raft Timeout), (''a'', Raft Go), (''a'', Raft Go),
      (''b'', Raft (Serve 4)), (''a'', Raft (Count 6)), (''a'', Raft Go), (''a'', Raft Go)] @
     sample_connect ''a'' 0 ''ann'' 4 @ sample_connect ''a'' 1 ''bob'' 4 @ sample_connect ''b'' 0 ''eve'' 5 @
     [(''a'', Receive 0 (MsgSubmit (Some (sample_edit ''ann'')))), (''a'', Receive 1 (MsgSubmit (Some (sample_edit ''bob'')))),
      (''a'', Resume 0), (''a'', Resume 1),
      (''a'', Raft Take), (''a'', Raft Take), (''a'', Raft (Replicate 0)), (''b'', Raft (Serve 35)), (''a'', Raft (Reply 35 36))] @
     replicate 5 (''a'', Raft ApplyNext) @ [(''a'', Callback 0), (''a'', Callback 0), (''a'', Resume 0), (''a'', Resume 1)] @
     [(''a'', Raft (Replicate 0)), (''b'', Raft (Serve 47))] @ replicate 5 (''b'', Raft ApplyNext) @ [(''b'', Callback 0), (''b'', Callback 0)]"

text \<open>Then \<open>b\<close> stops and starts again on its stores, \<open>c\<close>, which has missed everything, catches up, and \<open>eve\<close> connects to \<open>a\<close>.\<close>

definition sample_recovery :: "(string \<times> server_action) list" where
  "sample_recovery =
     [(''b'', Restart ''b''), (''b'', Raft Go), (''a'', Raft (Replicate 0)), (''b'', Raft (Serve 58))] @ replicate 4 (''b'', Raft ApplyNext) @
     [(''a'', Raft (Replicate 1)), (''c'', Raft (Serve 64))] @ replicate 4 (''c'', Raft ApplyNext) @ sample_connect ''a'' 2 ''eve'' 4"

definition sample_play :: "(string \<times> server_action) list \<Rightarrow> (InmemLogStore, InmemStableStore) moment \<Rightarrow>
    (InmemLogStore, InmemStableStore) moment option" where
  "sample_play = play InmemLog InmemStable sample_decode sample_marshal ''hello''"

definition sample_dawn :: "(InmemLogStore, InmemStableStore) moment" where
  "sample_dawn = (map (\<lambda>i. (i, NewNode (start (sample_server i)) i)) [''a'', ''b'', ''c''], [])"

definition sample_changes :: "(int \<times> Changeset) set" where
  "sample_changes =
     {(1, \<lparr>OldLen = 5, NewLen = 6, Ops = [Retain 5, Insert ''!'']\<rparr>), (2, \<lparr>OldLen = 6, NewLen = 7, Ops = [Insert ''>'', Retain 6]\<rparr>)}"

definition sample_shows :: "('l, 's) Node option \<Rightarrow> bool" where
  "sample_shows x =
     (case x of
        None \<Rightarrow> False
      | Some S \<Rightarrow> HeadText (sm S) = ''>hello!'' \<and> HeadRev (sm S) = 2 \<and> len (revisionLog (sm S)) < 2 ^ 63)"

definition sample_tells :: "('l, 's) Node option \<Rightarrow> bool" where
  "sample_tells x = (case x of None \<Rightarrow> False | Some S \<Rightarrow> told S = sample_changes)"

text \<open>
  At the end of the edits the clients of \<open>b\<close> have been told both, the second one rebased; after the recovery all
  servers show the same text, and \<open>a\<close> has told its clients the same changes.
\<close>

lemma sample_session:
  "case sample_play sample_edits sample_dawn of
     None \<Rightarrow> False
   | Some (ns, tr) \<Rightarrow>
       sample_shows (map_of ns ''b'') \<and> sample_tells (map_of ns ''b'') \<and>
       (case sample_play sample_recovery (ns, tr) of
          None \<Rightarrow> False
        | Some (ns', tr') \<Rightarrow>
            list_all (\<lambda>i. sample_shows (map_of ns' i)) [''a'', ''b'', ''c''] \<and> sample_tells (map_of ns' ''a''))"
  by code_simp

lemma sample_dawn_depicts: "depicts sample_dawn sample_service silent"
  by (auto simp: depicts_def sample_dawn_def sample_service_def silent_def in_flight_def split: if_splits)

lemma sample_shows_depicted:
  assumes "sample_shows (map_of ns i)" and "depicts (ns, tr) X w"
  shows "HeadText (sm (servers X i)) = ''>hello!'' \<and> HeadRev (sm (servers X i)) = 2 \<and> len (revisionLog (sm (servers X i))) < 2 ^ 63"
  using assms by (simp add: sample_shows_def depicts_def split: option.splits)

lemma sample_tells_depicted: "sample_tells (map_of ns i) \<Longrightarrow> depicts (ns, tr) X w \<Longrightarrow> told (servers X i) = sample_changes"
  by (simp add: sample_tells_def depicts_def split: option.splits)

lemma sample_day:
  obtains Y u Z v where
    "service_run InmemLog InmemStable sample_decode sample_marshal {''a'', ''b'', ''c''} ''hello'' sample_service silent Y u"
    "service_run InmemLog InmemStable sample_decode sample_marshal {''a'', ''b'', ''c''} ''hello'' Y u Z v"
    "HeadText (sm (servers Y ''b'')) = ''>hello!'' \<and> HeadRev (sm (servers Y ''b'')) = 2 \<and> len (revisionLog (sm (servers Y ''b''))) < 2 ^ 63"
    "\<forall>i \<in> {''a'', ''b'', ''c''}. HeadText (sm (servers Z i)) = ''>hello!'' \<and> HeadRev (sm (servers Z i)) = 2 \<and> len (revisionLog (sm (servers Z i))) < 2 ^ 63"
    "told (servers Y ''b'') = sample_changes" "told (servers Z ''a'') = sample_changes"
proof -
  obtain ns tr where noon: "sample_play sample_edits sample_dawn = Some (ns, tr)" "sample_shows (map_of ns ''b'')" "sample_tells (map_of ns ''b'')"
    and rest: "case sample_play sample_recovery (ns, tr) of None \<Rightarrow> False
      | Some (ns', tr') \<Rightarrow> list_all (\<lambda>i. sample_shows (map_of ns' i)) [''a'', ''b'', ''c''] \<and> sample_tells (map_of ns' ''a'')"
    using sample_session by (auto split: option.splits prod.splits)
  obtain ns' tr' where night: "sample_play sample_recovery (ns, tr) = Some (ns', tr')"
      "list_all (\<lambda>i. sample_shows (map_of ns' i)) [''a'', ''b'', ''c'']" "sample_tells (map_of ns' ''a'')"
    using rest by (auto split: option.splits prod.splits)
  obtain ms where dawn: "sample_dawn = (ms, [])" "fst ` set ms = {''a'', ''b'', ''c''}" by (simp add: sample_dawn_def)
  obtain Y u where Y: "service_run InmemLog InmemStable sample_decode sample_marshal {''a'', ''b'', ''c''} ''hello'' sample_service silent Y u"
      "depicts (ns, tr) Y u" "{''a'', ''b'', ''c''} = fst ` set ns"
    using play_run [OF noon(1) [unfolded sample_play_def dawn(1)] sample_dawn_depicts [unfolded dawn(1)] dawn(2) [symmetric]]
    by (elim exE conjE) (rule that)
  from play_run [OF night(1) [unfolded sample_play_def] Y(2,3)] obtain Z v
    where Z: "service_run InmemLog InmemStable sample_decode sample_marshal {''a'', ''b'', ''c''} ''hello'' Y u Z v" "depicts (ns', tr') Z v"
    by (elim exE conjE) (rule that)
  show thesis
    by (rule that [OF Y(1) Z(1)])
      (use noon(2,3) night(2,3) Y(2) Z(2) in \<open>auto dest: sample_shows_depicted sample_tells_depicted\<close>)
qed

end
