(* ===== verification/Server_Runs.thy ===== *)
theory Server_Runs
  imports Server_Laws
begin

text \<open>
  Server and document together: the broadcasts of a run of commits bring an observer's text to the
  head text, the order in which the commit goroutines run is open, a connection that closes can take
  the registration of its successor with it, and a commit in the middle of a \<open>CONNECT\<close> tears the
  acknowledgement. The last part follows one submission from the client's message to the
  acknowledgement.
\<close>

section \<open>Observers\<close>

text \<open>The commit callbacks of a list of results, in order.\<close>

fun run_commits :: "ApplyResult list \<Rightarrow> ('l, 's) Node \<Rightarrow> ('l, 's) Node outcome" where
  "run_commits [] S = Ret S"
| "run_commits (res # ress) S = bind_outcome (onCommit res S) (run_commits ress)"

lemma onCommit_inv:
  assumes "server_inv S"
  obtains T where "onCommit res S = Ret T" "server_inv T" "clients T = clients S" "conns T = conns S"
    "\<And>cid c. (cid, c) \<in> set (clients S) \<Longrightarrow> wsHeap T ! c = put (commit_msg res cid) (wsHeap S ! c)"
    "\<And>c. c < length (wsHeap S) \<Longrightarrow> c \<notin> snd ` set (clients S) \<Longrightarrow> wsHeap T ! c = wsHeap S ! c"
    "raftProc T = raftProc S"
proof -
  obtain h where h: "onCommit res S = Ret (S\<lparr>wsHeap := h\<rparr>)" "moves (wsHeap S) h"
    "\<forall>c < length h. (\<forall>cid. (cid, c) \<in> set (clients S) \<longrightarrow> h ! c = put (commit_msg res cid) (wsHeap S ! c)) \<and>
       (c \<notin> snd ` set (clients S) \<longrightarrow> h ! c = wsHeap S ! c)"
    using onCommit_effect [OF assms] by blast
  have len: "length h = length (wsHeap S)" using h(2) by (simp add: moves_def list_all2_lengthD)
  have reg: "c < length h" if "(cid, c) \<in> set (clients S)" for cid c
    using client_registered [OF assms that] len by (simp add: open_client_def)
  show ?thesis
    by (rule that [of "S\<lparr>wsHeap := h\<rparr>"])
      (use h server_inv_moves [OF assms h(2)] reg len in auto)
qed

lemma run_commits_observer:
  assumes "server_inv S" and "(cid, c) \<in> set (clients S)" and "\<forall>res \<in> set ress. res_ClientID res \<noteq> cid"
    and "length (channel S c) + length ress \<le> 256"
  shows "\<exists>T. run_commits ress S = Ret T \<and> channel T c = channel S c @ map bcast (filter (\<lambda>r. \<not> IsDuplicate r) ress)"
  using assms
proof (induction ress arbitrary: S)
  case (Cons res ress)
  obtain T where T: "onCommit res S = Ret T" "server_inv T" "clients T = clients S"
    "wsHeap T ! c = put (commit_msg res cid) (wsHeap S ! c)"
    using onCommit_inv [OF Cons.prems(1), of res] Cons.prems(2) by metis
  then have ch: "channel T c = channel S c @ (if IsDuplicate res then [] else [bcast res])"
    using Cons.prems(3,4) by (auto simp: put_def commit_msg_def enqueue_def)
  then have "\<exists>U. run_commits ress T = Ret U \<and> channel U c = channel T c @ map bcast (filter (\<lambda>r. \<not> IsDuplicate r) ress)"
    using Cons.prems T(2,3) by (intro Cons.IH) simp_all
  then show ?case using T(1) ch by auto
qed simp

text \<open>The results that the state machine hands to the callback while it applies entries.\<close>

lemma fsm_Apply_spawned:
  assumes "fsm_Apply decode f d = Some (Ret (g, res))"
  shows "spawned g = spawned f @ (case res of None \<Rightarrow> [] | Some r \<Rightarrow> [r])"
    and "case res of None \<Rightarrow> headText g = headText f
      | Some r \<Rightarrow> if IsDuplicate r then headText g = headText f
          else ApplyChangeset (headText f) (CPrime r) = Ret (Inr (headText g))"
  using assms
  by (auto simp: fsm_Apply_def fsm_Apply_entry_def Let_def
      split: option.splits if_splits outcome.splits sum.splits)

lemma fsm_Apply_author:
  assumes "fsm_Apply decode f d = Some (Ret (g, Some r))" and "decode d = Some entry"
  shows "res_ClientID r = entry_ClientID entry"
  using assms
  by (auto simp: fsm_Apply_def fsm_Apply_entry_def Let_def
      split: option.splits if_splits outcome.splits sum.splits)

lemma run_fsm_spawned:
  assumes "run_fsm (fsm_Apply decode) f es = Some (Ret g)"
  shows "\<exists>new. spawned g = spawned f @ new \<and>
    apply_all (headText f) (map CPrime (filter (\<lambda>r. \<not> IsDuplicate r) new)) = Ret (Inr (headText g))"
  using assms
proof (induction es arbitrary: f)
  case (Cons e es)
  show ?case
  proof (cases "Data e = []")
    case False
    then obtain h res where h: "fsm_Apply decode f (Data e) = Some (Ret (h, res))"
      "run_fsm (fsm_Apply decode) h es = Some (Ret g)"
      using Cons.prems by (auto split: option.splits outcome.splits prod.splits)
    obtain new where new: "spawned g = spawned h @ new"
      "apply_all (headText h) (map CPrime (filter (\<lambda>r. \<not> IsDuplicate r) new)) = Ret (Inr (headText g))"
      using Cons.IH [OF h(2)] by blast
    show ?thesis
      using fsm_Apply_spawned [OF h(1)] new by (cases res) (auto split: if_splits)
  qed (use Cons in simp)
qed simp

text \<open>
  C27. Observers converge. When the state machine applies the entries of a part of the log and the commit
  callbacks run in that order, a registered client that is not the author of any of them, and whose
  channel has room, receives broadcasts whose changesets take the text from before the entries to the
  head text after them.
\<close>

theorem observer_converges:
  assumes "sreach LS SS A marshal (NewNode rn addr) S"
    and "run_fsm (fsm_Apply decode) f es = Some (Ret g)" and "spawned g = spawned f @ new"
    and "(cid, c) \<in> set (clients S)" and "\<forall>res \<in> set new. res_ClientID res \<noteq> cid"
    and "length (channel S c) + length new \<le> 256"
  shows "\<exists>T bs. run_commits new S = Ret T \<and> channel T c = channel S c @ map MsgBroadcast bs \<and>
    apply_all (headText f) (map bc_Changeset bs) = Ret (Inr (headText g))"
proof -
  have inv: "server_inv S" by (rule server_reach [OF assms(1) server_inv_New])
  let ?bs = "map (\<lambda>r. \<lparr>bc_Changeset = CPrime r, bc_NewRev = NewRev r\<rparr>) (filter (\<lambda>r. \<not> IsDuplicate r) new)"
  have "apply_all (headText f) (map bc_Changeset ?bs) = Ret (Inr (headText g))"
    using run_fsm_spawned [OF assms(2)] assms(3) by (auto simp: comp_def)
  moreover have "\<exists>T. run_commits new S = Ret T \<and> channel T c = channel S c @ map MsgBroadcast ?bs"
    using run_commits_observer [OF inv assms(4-6)] by (simp add: comp_def)
  ultimately show ?thesis by blast
qed

definition sample_log :: "LogEntry list" where
  "sample_log = [\<lparr>Index = 1, Term = 1, Data = ''e''\<rparr>]"

definition sample_submission :: RaftLogEntry where
  "sample_submission =
     \<lparr>entry_ClientID = ''y'', entry_SubmissionID = 1, entry_BaseRev = 0, entry_Changeset = sample_insert\<rparr>"

definition sample_applied :: DocumentStateMachine where
  "sample_applied = \<lparr>headText = ''axybc'', headRev = 1,
     revisionLog = [\<lparr>RevNumber = 0, rec_Changeset = sample_insert, Source = ''y''\<rparr>],
     clientLastSubmission = [''y'' \<mapsto> 1],
     spawned = [\<lparr>CPrime = sample_insert, NewRev = 1, res_ClientID = ''y'', IsDuplicate = False\<rparr>]\<rparr>"

lemma sample_fsm_run:
  "fsm_Apply (\<lambda>d. Some sample_submission) (NewDocumentStateMachine ''abc'') d =
     Some (Ret (sample_applied, Some \<lparr>CPrime = sample_insert, NewRev = 1, res_ClientID = ''y'', IsDuplicate = False\<rparr>))"
  using ApplyChangeset_exec [OF wf_samples(1), of "''abc''"]
  by (simp add: fsm_Apply_def fsm_Apply_entry_def sample_submission_def NewDocumentStateMachine_def
      sample_applied_def rebase.simps [of "[]"] Let_def sample_insert_def script_def)

lemma observer_converges_witness:
  "\<exists>T bs. run_commits (spawned sample_applied) sample_server = Ret T \<and>
     channel T 0 = MsgRedirect \<lparr>redirect_LeaderAddr = ''L''\<rparr> # map MsgBroadcast bs \<and>
     apply_all ''abc'' (map bc_Changeset bs) = Ret (Inr ''axybc'')"
proof -
  have run: "run_fsm (fsm_Apply (\<lambda>d. Some sample_submission)) (NewDocumentStateMachine ''abc'') sample_log =
      Some (Ret sample_applied)"
    by (simp add: sample_log_def sample_fsm_run)
  have "spawned sample_applied = spawned (NewDocumentStateMachine ''abc'') @ spawned sample_applied"
    "(''x'', 0) \<in> set (clients sample_server)" "\<forall>res \<in> set (spawned sample_applied). res_ClientID res \<noteq> ''x''"
    "length (channel sample_server 0) + length (spawned sample_applied) \<le> 256"
    by (simp_all add: NewDocumentStateMachine_def sample_applied_def sample_server_def sample_client_def)
  from observer_converges [OF sample_server_reached [of "fsm_Apply (\<lambda>d. None)" "\<lambda>e. None"] run this]
  show ?thesis
    by (simp add: NewDocumentStateMachine_def sample_applied_def sample_server_def sample_client_def)
qed

section \<open>What the order of the goroutines can do\<close>

lemma commit_step:
  assumes "server_inv S" and "res \<in> set (spawned (sm S))" and "(cid, c) \<in> set (clients S)"
    and "res_ClientID res \<noteq> cid" and "\<not> IsDuplicate res" and "length (channel S c) < 256"
  obtains T where "sstep LS SS A marshal S (Commit res) (Ret T)" "server_inv T" "clients T = clients S"
    "channel T c = channel S c @ [bcast res]" "spawned (sm T) = remove1 res (spawned (sm S))"
proof -
  let ?S = "take_spawned res S"
  have eq: "clients ?S = clients S" "wsHeap ?S = wsHeap S" "spawned (sm ?S) = remove1 res (spawned (sm S))"
    by (simp_all add: take_spawned_def)
  have inv: "server_inv ?S" using assms(1) by (simp add: take_spawned_def)
  obtain T where T: "onCommit res ?S = Ret T" "server_inv T" "clients T = clients ?S"
    "wsHeap T ! c = put (commit_msg res cid) (wsHeap ?S ! c)" "raftProc T = raftProc ?S"
    using onCommit_inv [OF inv, of res] assms(3) eq(1) by metis
  have "channel T c = channel S c @ [bcast res]"
    using T(4) assms(4-6) eq(2) by (auto simp: put_def commit_msg_def enqueue_def)
  moreover have "sstep LS SS A marshal S (Commit res) (Ret T)" using commit [OF assms(2)] T(1) by metis
  ultimately show ?thesis using that T eq by simp
qed

text \<open>
  C31. Commits may reach a client in the wrong order. \<open>Apply\<close> starts a goroutine per commit, and nothing
  orders these: with two commits pending, a client can be sent the broadcast of the later revision
  first and that of the earlier one after it.
\<close>

theorem commits_can_be_reordered:
  assumes "server_inv S" and "spawned (sm S) = [r1, r2]" and "r1 \<noteq> r2" and "\<not> IsDuplicate r1" "\<not> IsDuplicate r2"
    and "(cid, c) \<in> set (clients S)" and "res_ClientID r1 \<noteq> cid" "res_ClientID r2 \<noteq> cid"
    and "length (channel S c) < 255"
  shows "\<exists>T U. sstep LS SS A marshal S (Commit r2) (Ret T) \<and> sstep LS SS A marshal T (Commit r1) (Ret U) \<and>
    channel U c = channel S c @
      [MsgBroadcast \<lparr>bc_Changeset = CPrime r2, bc_NewRev = NewRev r2\<rparr>,
       MsgBroadcast \<lparr>bc_Changeset = CPrime r1, bc_NewRev = NewRev r1\<rparr>]"
proof -
  obtain T where T: "sstep LS SS A marshal S (Commit r2) (Ret T)" "server_inv T" "clients T = clients S"
    "channel T c = channel S c @ [bcast r2]" "spawned (sm T) = [r1]"
    using commit_step [OF assms(1) _ assms(6,8,5), of LS SS A marshal] assms(2,3,9) by auto
  obtain U where "sstep LS SS A marshal T (Commit r1) (Ret U)" "channel U c = channel T c @ [bcast r1]"
    using commit_step [OF T(2) _ _ assms(7,4), of c LS SS A marshal] T(3-5) assms(6,9) by auto
  then show ?thesis using T(1,4) by auto
qed

definition sample_result :: "int \<Rightarrow> ApplyResult" where
  "sample_result n = \<lparr>CPrime = Identity 3, NewRev = n, res_ClientID = ''y'', IsDuplicate = False\<rparr>"

definition sample_busy :: "(InmemLogStore, InmemStableStore) Node" where
  "sample_busy = sample_server\<lparr>raftProc := start (sample_raft\<lparr>node_fsm :=
     (NewDocumentStateMachine ''abc'')\<lparr>headRev := 2, spawned := [sample_result 1, sample_result 2]\<rparr>\<rparr>)\<rparr>"

lemma sample_server_inv: "server_inv sample_server"
  by (rule server_reach [OF sample_server_reached [of "fsm_Apply (\<lambda>d. None)" "\<lambda>e. None"] server_inv_New])

lemma commits_can_be_reordered_witness:
  "\<exists>T U. sstep InmemLog InmemStable (fsm_Apply (\<lambda>d. None)) (\<lambda>e. None) sample_busy (Commit (sample_result 2)) (Ret T) \<and>
     sstep InmemLog InmemStable (fsm_Apply (\<lambda>d. None)) (\<lambda>e. None) T (Commit (sample_result 1)) (Ret U) \<and>
     channel U 0 = [MsgRedirect \<lparr>redirect_LeaderAddr = ''L''\<rparr>,
       MsgBroadcast \<lparr>bc_Changeset = Identity 3, bc_NewRev = 2\<rparr>, MsgBroadcast \<lparr>bc_Changeset = Identity 3, bc_NewRev = 1\<rparr>]"
proof -
  have 1: "server_inv sample_busy" using sample_server_inv by (simp add: sample_busy_def)
  have 2: "spawned (sm sample_busy) = [sample_result 1, sample_result 2]" "sample_result 1 \<noteq> sample_result 2"
    "\<not> IsDuplicate (sample_result 1)" "\<not> IsDuplicate (sample_result 2)" "(''x'', 0) \<in> set (clients sample_busy)"
    "res_ClientID (sample_result 1) \<noteq> ''x''" "res_ClientID (sample_result 2) \<noteq> ''x''"
    "length (channel sample_busy 0) < 255"
    by (simp_all add: sample_busy_def start_def sample_server_def sample_result_def sample_client_def)
  from commits_can_be_reordered [OF 1 2] show ?thesis
    by (simp add: sample_busy_def sample_server_def sample_client_def sample_result_def)
qed

text \<open>
  A reconnect can be undone by the old connection. When a client connects again under the same name
  and its first connection is closed afterwards, \<open>removeClient\<close> deletes the entry of that name, which is
  the new client's: its channel stays open and its connection alive, but no commit is sent to it any more.
\<close>

lemma reconnect_loses_registration:
  assumes "server_inv S" and "k < length (conns S)" and "conns S ! k = \<lparr>conn_client = Some old, conn_pc = Reading\<rparr>"
    and "(client_id (wsHeap S ! old), new) \<in> set (clients S)" and "new \<noteq> old"
  shows "\<exists>T. sstep LS SS A marshal S (Disconnect k) (Ret T) \<and> \<not> sendCh_closed (wsHeap T ! new) \<and>
    (\<forall>j < length (conns S). j \<noteq> k \<longrightarrow> conns T ! j = conns S ! j) \<and>
    (\<forall>res. \<exists>U. onCommit res T = Ret U \<and> channel U new = channel S new)"
proof -
  let ?cid = "client_id (wsHeap S ! old)"
  have new: "open_client S new" "client_id (wsHeap S ! new) = ?cid" using client_registered [OF assms(1,4)] by simp_all
  have old: "\<not> sendCh_closed (wsHeap S ! old)"
    using server_inv_held [OF assms(1,2), of old] assms(3) by (simp add: open_client_def)
  obtain T where T: "closeConn k S = Ret T" "server_inv T" using closeConn_inv [OF assms(1,2)] by blast
  then have T': "clients T = AList.delete ?cid (clients S)" "wsHeap T ! new = wsHeap S ! new"
    "length (wsHeap T) = length (wsHeap S)" "\<forall>j < length (conns S). j \<noteq> k \<longrightarrow> conns T ! j = conns S ! j"
    using assms(3,5) old by (auto simp: closeConn_def Let_def removeClient_def set_conn_def)
  have "new \<notin> snd ` set (clients T)"
  proof
    assume "new \<in> snd ` set (clients T)"
    then obtain cid where cid: "(cid, new) \<in> set (clients T)" by force
    then have "cid \<noteq> ?cid" using T'(1) by (auto simp: AList.delete_eq)
    then show False using client_registered [OF T(2) cid] new(2) T'(2) by simp
  qed
  then have "\<exists>U. onCommit res T = Ret U \<and> channel U new = channel S new" for res
    using onCommit_inv [OF T(2), of res] new(1) T'(2,3) by (metis open_client_def)
  moreover have "sstep LS SS A marshal S (Disconnect k) (Ret T)"
    using disconnect [of k S LS SS A marshal] assms(2,3) T(1) by simp
  ultimately show ?thesis using new(1) T' by (auto simp: open_client_def)
qed

definition sample_twice :: "(InmemLogStore, InmemStableStore) Node" where
  "sample_twice = sample_server\<lparr>clients := [(''x'', 1)], wsHeap := [sample_client ''x'' 0 [], sample_client ''x'' 1 []],
     conns := [\<lparr>conn_client = Some 0, conn_pc = Reading\<rparr>, \<lparr>conn_client = Some 1, conn_pc = Reading\<rparr>]\<rparr>"

lemma reconnect_loses_registration_witness:
  "\<exists>T U. sstep InmemLog InmemStable (fsm_Apply (\<lambda>d. None)) (\<lambda>e. None) sample_twice (Disconnect 0) (Ret T) \<and>
     \<not> sendCh_closed (wsHeap T ! 1) \<and> conns T ! 1 = \<lparr>conn_client = Some 1, conn_pc = Reading\<rparr> \<and>
     onCommit (sample_result 1) T = Ret U \<and> channel U 1 = []"
proof -
  have "server_inv sample_twice"
    by (auto simp: sample_twice_def sample_server_def sample_client_def server_inv_def open_client_def less_Suc_eq)
  from reconnect_loses_registration [OF this, where k = 0 and old = 0 and new = 1 and LS = InmemLog and SS = InmemStable
      and A = "fsm_Apply (\<lambda>d. None)" and marshal = "\<lambda>e. None"]
  obtain T where T: "sstep InmemLog InmemStable (fsm_Apply (\<lambda>d. None)) (\<lambda>e. None) sample_twice (Disconnect 0) (Ret T)"
    "\<not> sendCh_closed (wsHeap T ! 1)" "conns T ! 1 = conns sample_twice ! 1"
    "\<forall>res. \<exists>U. onCommit res T = Ret U \<and> channel U 1 = channel sample_twice 1"
    by (auto simp: sample_twice_def sample_client_def)
  then show ?thesis by (fastforce simp: sample_twice_def sample_client_def)
qed

text \<open>Sending to an open client and moving its connection on.\<close>

lemma send_step:
  assumes "open_client S c" and "k < length (conns S)"
  shows "\<exists>T. bind_outcome (sendTo c m S) (\<lambda>S1. Ret (set_conn k cl p S1)) = Ret T \<and>
    channel T c = enqueue m (channel S c) \<and> conns T ! k = \<lparr>conn_client = cl, conn_pc = p\<rparr> \<and>
    clients T = clients S \<and> raftProc T = raftProc S"
  using assms sendTo_open(1) [OF assms(1), of m] by (auto simp: set_conn_def open_client_def)

text \<open>
  C32. A commit in the middle of a \<open>CONNECT\<close> tears the acknowledgement. \<open>handleConnect\<close> asks the state
  machine for the catch-up list, the head text and the head revision in three calls; an entry that is
  applied between the last two makes the client believe that the old text is the text of the new
  revision.
\<close>

theorem connect_ack_torn:
  assumes "server_inv S" and "k < length (conns S)" and "conns S ! k = \<lparr>conn_client = cl, conn_pc = CaughtUp c rs\<rparr>"
    and "length (channel S c) < 256"
    and "applying (raftProc S) = Some (idx, commit)" "idx \<le> commit" "applyEntry LS A idx (raftNode S) = Some (Ret r)"
  shows "\<exists>T U V. sstep LS SS A marshal S (Handle k) (Ret T) \<and> sstep LS SS A marshal T (RaftStep Internal) (Ret U) \<and>
    sstep LS SS A marshal U (Handle k) (Ret V) \<and> sm V = node_fsm r \<and>
    channel V c = channel S c @
      [MsgConnectAck \<lparr>ack_HeadText = headText (sm S), ack_HeadRev = headRev (node_fsm r), CatchUp = rs\<rparr>]"
proof -
  define T where "T = set_conn k cl (HasText c rs (HeadText (sm S))) S"
  define U where "U = T\<lparr>raftProc := (raftProc T)\<lparr>node := r, applying := Some (idx + 1, commit)\<rparr>\<rparr>"
  have T: "raftProc T = raftProc S" "wsHeap T = wsHeap S" "length (conns T) = length (conns S)"
    "conns T ! k = \<lparr>conn_client = cl, conn_pc = HasText c rs (HeadText (sm S))\<rparr>"
    using assms(2) by (simp_all add: T_def set_conn_def)
  have U: "conns U ! k = \<lparr>conn_client = cl, conn_pc = HasText c rs (HeadText (sm S))\<rparr>" "k < length (conns U)"
    "sm U = node_fsm r" "wsHeap U = wsHeap S"
    using T assms(2) by (simp_all add: U_def)
  have 1: "sstep LS SS A marshal S (Handle k) (Ret T)"
    unfolding T_def by (rule connect_text [OF assms(2,3)])
  have 2: "sstep LS SS A marshal T (RaftStep Internal) (Ret U)"
    unfolding U_def by (rule raft, rule apply_entry) (use T(1) assms(5-7) in simp_all)
  have "open_client U c"
    using server_inv_held [OF assms(1,2), of c] assms(3) U(4) by (simp add: open_client_def)
  then obtain V where V: "bind_outcome (connect_ack c rs (HeadText (sm S)) (HeadRev (sm U)) U)
      (\<lambda>S1. Ret (set_conn k (Some c) Reading S1)) = Ret V" "raftProc V = raftProc U"
      "channel V c = channel S c @ [MsgConnectAck \<lparr>ack_HeadText = headText (sm S), ack_HeadRev = headRev (node_fsm r), CatchUp = rs\<rparr>]"
    using send_step [of U c k "MsgConnectAck \<lparr>ack_HeadText = HeadText (sm S), ack_HeadRev = HeadRev (sm U), CatchUp = rs\<rparr>"
        "Some c" Reading] U assms(4)
    by (auto simp: connect_ack_def enqueue_def HeadText_def HeadRev_def)
  have "sstep LS SS A marshal U (Handle k) (Ret V)"
    using connect_done [OF U(2,1), of LS SS A marshal] V(1) by simp
  moreover have "sm V = node_fsm r" using V(2) U(3) by simp
  ultimately show ?thesis using 1 2 V(3) by blast
qed

text \<open>A node that is about to apply its first entry.\<close>

definition sample_store :: InmemLogStore where
  "sample_store = \<lparr>log_entries = [(1, \<lparr>Index = 1, Term = 1, Data = ''e''\<rparr>)], lowIdx = 1, highIdx = 1\<rparr>"

definition sample_applying :: "(InmemLogStore, InmemStableStore, DocumentStateMachine, ApplyResult option) Process" where
  "sample_applying =
     \<lparr>node = sample_raft\<lparr>logStore := sample_store, pendingFutures := [(1, 0)], futures := [newApplyFuture]\<rparr>,
      pc = InLeader, applying = Some (1, 1)\<rparr>"

lemma sample_get: "GetLog InmemLog sample_store 1 = Inr \<lparr>Index = 1, Term = 1, Data = ''e''\<rparr>"
  by (simp add: InmemLog_def inmem_GetLog_def sample_store_def)

lemma sample_applyEntry:
  "\<exists>r. applyEntry InmemLog (fsm_Apply (\<lambda>d. Some sample_submission)) 1 (node sample_applying) = Some (Ret r) \<and>
     node_fsm r = sample_applied"
proof -
  have "node_fsm (node sample_applying) = NewDocumentStateMachine ''abc''" "logStore (node sample_applying) = sample_store"
    by (simp_all add: sample_applying_def sample_raft_def)
  then show ?thesis
    using sample_get by (auto simp: applyEntry_def sample_fsm_run Let_def respondFuture_def split: option.splits)
qed

definition sample_connecting :: "(InmemLogStore, InmemStableStore) Node" where
  "sample_connecting =
     \<lparr>raftProc = sample_applying, wsLeaderAddr = ''W'', clients = [(''x'', 0)], wsHeap = [sample_client ''x'' 0 []],
      conns = [\<lparr>conn_client = None, conn_pc = CaughtUp 0 []\<rparr>]\<rparr>"

lemma connect_ack_torn_witness:
  "\<exists>T U V. sstep InmemLog InmemStable (fsm_Apply (\<lambda>d. Some sample_submission)) (\<lambda>e. None) sample_connecting (Handle 0) (Ret T) \<and>
     sstep InmemLog InmemStable (fsm_Apply (\<lambda>d. Some sample_submission)) (\<lambda>e. None) T (RaftStep Internal) (Ret U) \<and>
     sstep InmemLog InmemStable (fsm_Apply (\<lambda>d. Some sample_submission)) (\<lambda>e. None) U (Handle 0) (Ret V) \<and>
     headText (sm V) = ''axybc'' \<and>
     channel V 0 = [MsgConnectAck \<lparr>ack_HeadText = ''abc'', ack_HeadRev = 1, CatchUp = []\<rparr>]"
proof -
  obtain r where r: "applyEntry InmemLog (fsm_Apply (\<lambda>d. Some sample_submission)) 1 (node sample_applying) = Some (Ret r)"
    "node_fsm r = sample_applied"
    using sample_applyEntry by blast
  have 1: "server_inv sample_connecting" "0 < length (conns sample_connecting)"
    "conns sample_connecting ! 0 = \<lparr>conn_client = None, conn_pc = CaughtUp 0 []\<rparr>" "length (channel sample_connecting 0) < 256"
    "applying (raftProc sample_connecting) = Some (1, 1)" "(1 :: u64) \<le> 1"
    by (auto simp: sample_connecting_def sample_client_def server_inv_def open_client_def sample_applying_def)
  have 2: "applyEntry InmemLog (fsm_Apply (\<lambda>d. Some sample_submission)) 1 (raftNode sample_connecting) = Some (Ret r)"
    using r(1) by (simp add: sample_connecting_def)
  have "headText (sm sample_connecting) = ''abc''" "channel sample_connecting 0 = []"
    by (simp_all add: sample_connecting_def sample_applying_def sample_raft_def NewDocumentStateMachine_def sample_client_def)
  moreover have "headText sample_applied = ''axybc''" "headRev sample_applied = 1" by (simp_all add: sample_applied_def)
  ultimately show ?thesis using connect_ack_torn [OF 1 2, of InmemStable "\<lambda>e. None"] r(2) by (metis append_Nil)
qed

section \<open>From a submission to its acknowledgement\<close>

text \<open>
  C29. A submission reaches the log. When the node leads and the changeset validates, \<open>handleSubmit\<close> passes the leader check,
  encodes the submission and hands it to \<open>Apply\<close>, and the leader loop appends it as the next entry of
  its log in its own term, with the future the connection waits for registered under its index.
  Nothing is sent to the client yet.
\<close>

theorem submission_reaches_log:
  assumes "log_store LS linv lmap" and "repr linv lmap (logStore (raftNode S)) xs" and "Suc (length xs) < 2 ^ 64 - 1"
    and "k < length (conns S)" and "conns S ! k = \<lparr>conn_client = Some c, conn_pc = Reading\<rparr>"
    and "pc (raftProc S) = InLeader" and "state (raftNode S) = Leader" and "applyCh (raftNode S) = []"
    and "Validate (sub_Changeset msg) = None" and "marshal (submitEntry msg) = Some d"
  shows "\<exists>R T U. sstep LS SS A marshal S (Read k (MsgSubmit (Some msg))) (Ret R) \<and> sstep LS SS A marshal R (Handle k) (Ret T) \<and>
    sstep LS SS A marshal T (RaftStep Internal) (Ret U) \<and>
    repr linv lmap (logStore (raftNode U))
      (xs @ [\<lparr>Index = last_of xs + 1, Term = currentTerm (raftNode S), Data = d\<rparr>]) \<and>
    map_of (pendingFutures (raftNode U)) (last_of xs + 1) = Some (length (futures (raftNode S))) \<and>
    conns U ! k = \<lparr>conn_client = Some c, conn_pc = Awaiting (length (futures (raftNode S)))\<rparr> \<and>
    wsHeap U = wsHeap S"
proof -
  let ?r = "raftNode S" and ?f = "length (futures (raftNode S))"
  let ?e = "\<lparr>Index = last_of xs + 1, Term = currentTerm ?r, Data = d\<rparr>"
  define r1 where "r1 = ?r\<lparr>futures := futures ?r @ [newApplyFuture], applyCh := [\<lparr>req_data = d, req_future = ?f\<rparr>]\<rparr>"
  define R where "R = set_conn k (Some c) (Proposing msg) S"
  define T where "T = set_conn k (Some c) (Awaiting ?f) (R\<lparr>raftProc := (raftProc S)\<lparr>node := r1\<rparr>\<rparr>)"
  have R: "raftProc R = raftProc S" "k < length (conns R)" "conns R ! k = \<lparr>conn_client = Some c, conn_pc = Proposing msg\<rparr>" "wsHeap R = wsHeap S"
    using assms(4) by (simp_all add: R_def set_conn_def)
  have 0: "sstep LS SS A marshal S (Read k (MsgSubmit (Some msg))) (Ret R)"
    using read_submit [OF assms(4,5), of LS SS A marshal msg] assms(7) by (simp add: R_def node_IsLeader_def node_State_def)
  have "node_Apply ?r d Enqueued = (r1, ?f)"
    using assms(7,8) by (simp add: node_Apply_def r1_def Let_def)
  then have "bind_outcome (handleSubmit marshal c msg Enqueued R)
      (\<lambda>(S1, future). Ret (set_conn k (Some c) (case future of None \<Rightarrow> Reading | Some f \<Rightarrow> Awaiting f) S1)) = Ret T"
    using assms(9,10) by (simp add: handleSubmit_def R T_def Let_def)
  then have 1: "sstep LS SS A marshal R (Handle k) (Ret T)"
    using submit_proposed [OF R(2,3), of Enqueued LS SS A marshal] assms(8) by (simp add: applyWayOpen_def R(1))
  obtain l where l: "StoreLogs LS (logStore ?r) [?e] = (l, None)" "repr linv lmap l (xs @ [?e])"
    using log_store.repr_store_next [OF assms(1-3)] by blast
  define r2 where "r2 = triggerReplication (r1\<lparr>applyCh := [], logStore := l,
    pendingFutures := AList.update (last_of xs + 1) ?f (pendingFutures ?r)\<rparr>)"
  have T: "node (raftProc T) = r1" "pc (raftProc T) = InLeader" by (simp_all add: T_def set_conn_def assms(6))
  have "handleApplyRequest LS \<lparr>req_data = d, req_future = ?f\<rparr> (r1\<lparr>applyCh := []\<rparr>) = r2"
    using l(1) log_store.repr_last [OF assms(1,2)] assms(7)
    by (simp add: handleApplyRequest_def StoreLog_def r1_def r2_def Let_def)
  moreover have "state r2 = Leader" using assms(7) by (simp add: r2_def r1_def)
  ultimately have "pstep LS SS A (raftProc T) Internal ((raftProc T)\<lparr>node := r2, pc := InLeader\<rparr>)"
    by (intro leader_apply [where req = "\<lparr>req_data = d, req_future = ?f\<rparr>" and reqs = "[]"])
      (simp_all add: T leader_next_def, simp add: r1_def)
  then have 2: "sstep LS SS A marshal T (RaftStep Internal) (Ret (T\<lparr>raftProc := (raftProc T)\<lparr>node := r2, pc := InLeader\<rparr>\<rparr>))"
    by (rule raft)
  show ?thesis
    using 0 1 2 l(2) R(2,4)
    by (intro exI [of _ R] exI [of _ T] exI [of _ "T\<lparr>raftProc := (raftProc T)\<lparr>node := r2, pc := InLeader\<rparr>\<rparr>"])
      (simp add: T_def set_conn_def r2_def update_conv)
qed

text \<open>A leader with an empty log and a client that submits.\<close>

definition sample_leading :: "(InmemLogStore, InmemStableStore) Node" where
  "sample_leading =
     \<lparr>raftProc = \<lparr>node = sample_raft\<lparr>state := Leader\<rparr>, pc = InLeader, applying = None\<rparr>, wsLeaderAddr = ''W'',
      clients = [(''y'', 0)], wsHeap = [sample_client ''y'' 0 []], conns = [\<lparr>conn_client = Some 0, conn_pc = Reading\<rparr>]\<rparr>"

definition sample_msg :: SubmitMsg where
  "sample_msg = \<lparr>sub_ClientID = ''y'', sub_SubmissionID = 1, sub_BaseRev = 0, sub_Changeset = sample_insert\<rparr>"

lemma submission_reaches_log_witness:
  "\<exists>R T U. sstep InmemLog InmemStable (fsm_Apply (\<lambda>d. None)) (\<lambda>e. Some ''e'') sample_leading
       (Read 0 (MsgSubmit (Some sample_msg))) (Ret R) \<and>
     sstep InmemLog InmemStable (fsm_Apply (\<lambda>d. None)) (\<lambda>e. Some ''e'') R (Handle 0) (Ret T) \<and>
     sstep InmemLog InmemStable (fsm_Apply (\<lambda>d. None)) (\<lambda>e. Some ''e'') T (RaftStep Internal) (Ret U) \<and>
     repr inmem_linv inmem_lmap (logStore (raftNode U)) [\<lparr>Index = 1, Term = 1, Data = ''e''\<rparr>] \<and>
     conns U ! 0 = \<lparr>conn_client = Some 0, conn_pc = Awaiting 0\<rparr>"
proof -
  have 1: "repr inmem_linv inmem_lmap (logStore (raftNode sample_leading)) []"
    using inmem_repr_New by (simp add: sample_leading_def sample_raft_def)
  have 2: "Suc (length ([] :: LogEntry list)) < 2 ^ 64 - 1" "0 < length (conns sample_leading)"
    "conns sample_leading ! 0 = \<lparr>conn_client = Some 0, conn_pc = Reading\<rparr>" "pc (raftProc sample_leading) = InLeader"
    "state (raftNode sample_leading) = Leader" "applyCh (raftNode sample_leading) = []"
    by (simp_all add: sample_leading_def sample_raft_def)
  have 3: "Validate (sub_Changeset sample_msg) = None"
    by (simp add: sample_msg_def sample_insert_def Validate_def)
  have "currentTerm (raftNode sample_leading) = 1" "futures (raftNode sample_leading) = []" "last_of [] = 0"
    by (simp_all add: sample_leading_def sample_raft_def last_of_def)
  with submission_reaches_log [OF inmem_log.log_store_axioms 1 2 3, of "\<lambda>e. Some ''e''" "''e''" InmemStable "fsm_Apply (\<lambda>d. None)"]
  show ?thesis by auto
qed

text \<open>The apply loop resolves the future of a waiting submitter, whose handler then returns without a message.\<close>

lemma apply_resolves:
  assumes "server_inv S" and "k < length (conns S)" and "conns S ! k = \<lparr>conn_client = Some c, conn_pc = Awaiting f\<rparr>"
    and "applying (raftProc S) = Some (idx, commit)" "idx \<le> commit"
    and "GetLog LS (logStore (raftNode S)) idx = Inr e" "Data e \<noteq> []" "map_of (pendingFutures (raftNode S)) idx = Some f"
    and "f < length (futures (raftNode S))" "futures (raftNode S) ! f = newApplyFuture"
    and "fsm_Apply decode (sm S) (Data e) = Some (Ret (g, res))"
  obtains T U where "sstep LS SS (fsm_Apply decode) marshal S (RaftStep Internal) (Ret T)"
    "sstep LS SS (fsm_Apply decode) marshal T (Handle k) (Ret U)" "conns U ! k = \<lparr>conn_client = Some c, conn_pc = Reading\<rparr>"
    "sm U = g" "wsHeap U = wsHeap S" "clients U = clients S" "server_inv U"
proof -
  let ?A = "fsm_Apply decode" and ?r = "raftNode S"
  let ?fut = "respond newApplyFuture None (Some res)"
  define r1 where "r1 = ?r\<lparr>node_fsm := g, lastApplied := idx, futures := (futures ?r)[f := ?fut],
    pendingFutures := AList.delete idx (pendingFutures ?r)\<rparr>"
  define T where "T = S\<lparr>raftProc := (raftProc S)\<lparr>node := r1, applying := Some (idx + 1, commit)\<rparr>\<rparr>"
  have "applyEntry LS ?A idx ?r = Some (Ret r1)"
    using assms(6-8,10,11) by (simp add: applyEntry_def Let_def r1_def respondFuture_def)
  then have 1: "sstep LS SS ?A marshal S (RaftStep Internal) (Ret T)"
    unfolding T_def by (intro raft apply_entry assms(4,5))
  obtain fut where fut: "future_Error ?fut = Some (fut, None)"
    by (simp add: future_Error_def respond_def newApplyFuture_def)
  define U where "U = set_conn k (Some c) Reading (T\<lparr>raftProc := (raftProc T)\<lparr>node := r1\<lparr>futures := (futures r1)[f := fut]\<rparr>\<rparr>\<rparr>)"
  have T: "k < length (conns T)" "conns T ! k = \<lparr>conn_client = Some c, conn_pc = Awaiting f\<rparr>" "raftNode T = r1"
    using assms(2,3) by (simp_all add: T_def)
  have f1: "futures r1 ! f = ?fut" using assms(9) by (simp add: r1_def)
  have "submit_result c f T = Some (Ret (T\<lparr>raftProc := (raftProc T)\<lparr>node := r1\<lparr>futures := (futures r1)[f := fut]\<rparr>\<rparr>\<rparr>))"
    using fut f1 by (simp add: submit_result_def T(3) Let_def)
  from submit_done [OF T(1,2) this]
  have 2: "sstep LS SS ?A marshal T (Handle k) (Ret U)" by (simp add: U_def)
  have U: "conns U ! k = \<lparr>conn_client = Some c, conn_pc = Reading\<rparr>" "sm U = g" "wsHeap U = wsHeap S"
    "clients U = clients S"
    using assms(2) by (simp_all add: U_def set_conn_def T_def r1_def)
  have "server_inv T" using assms(1) by (simp add: T_def)
  then have inv: "server_inv U" using T(1,2) by (auto simp: U_def intro!: server_inv_move)
  show ?thesis using that [OF 1 2 U inv] .
qed

text \<open>The commit callback sends the acknowledgement to the client that is registered under the name of the author.\<close>

lemma commit_acknowledges:
  assumes "server_inv U" and "r \<in> set (spawned (sm U))" and "(res_ClientID r, c) \<in> set (clients U)"
  shows "\<exists>V. sstep LS SS A marshal U (Commit r) (Ret V) \<and>
    channel V c = enqueue (MsgAck \<lparr>ack_NewRev = NewRev r\<rparr>) (channel U c)"
proof -
  have inv: "server_inv (take_spawned r U)" using assms(1) by (simp add: take_spawned_def)
  have "(res_ClientID r, c) \<in> set (clients (take_spawned r U))" "wsHeap (take_spawned r U) = wsHeap U"
    using assms(3) by (simp_all add: take_spawned_def)
  then obtain V where "onCommit r (take_spawned r U) = Ret V" "wsHeap V ! c = put (commit_msg r (res_ClientID r)) (wsHeap U ! c)"
    using onCommit_inv [OF inv, of r] by metis
  then show ?thesis using commit [OF assms(2), of LS SS A marshal] by (auto simp: put_def commit_msg_def)
qed

text \<open>
  C30. How a submission is answered. When the apply loop runs an entry whose submitter waits for its
  future, the future is resolved without an error and \<open>handleSubmit\<close> returns without sending anything.
  If the state machine has accepted the entry, or has recognised a duplicate, the commit callback then
  sends the acknowledgement with the revision; if it has rejected the entry, no callback is started and
  the client is never told.
\<close>

theorem submission_answered:
  assumes "server_inv S" and "k < length (conns S)" and "conns S ! k = \<lparr>conn_client = Some c, conn_pc = Awaiting f\<rparr>"
    and "applying (raftProc S) = Some (idx, commit)" "idx \<le> commit"
    and "GetLog LS (logStore (raftNode S)) idx = Inr e" "Data e \<noteq> []" "map_of (pendingFutures (raftNode S)) idx = Some f"
    and "f < length (futures (raftNode S))" "futures (raftNode S) ! f = newApplyFuture"
    and "fsm_Apply decode (sm S) (Data e) = Some (Ret (g, res))"
    and "decode (Data e) = Some entry" "(entry_ClientID entry, c) \<in> set (clients S)"
  shows "\<exists>T U. sstep LS SS (fsm_Apply decode) marshal S (RaftStep Internal) (Ret T) \<and>
    sstep LS SS (fsm_Apply decode) marshal T (Handle k) (Ret U) \<and>
    conns U ! k = \<lparr>conn_client = Some c, conn_pc = Reading\<rparr> \<and> sm U = g \<and> channel U c = channel S c \<and>
    (case res of
       None \<Rightarrow> spawned g = spawned (sm S)
     | Some r \<Rightarrow> \<exists>V. sstep LS SS (fsm_Apply decode) marshal U (Commit r) (Ret V) \<and>
         channel V c = enqueue (MsgAck \<lparr>ack_NewRev = NewRev r\<rparr>) (channel S c))"
proof (rule apply_resolves [OF assms(1-11), where SS = SS and marshal = marshal])
  fix T U
  assume steps: "sstep LS SS (fsm_Apply decode) marshal S (RaftStep Internal) (Ret T)" "sstep LS SS (fsm_Apply decode) marshal T (Handle k) (Ret U)"
    and U: "conns U ! k = \<lparr>conn_client = Some c, conn_pc = Reading\<rparr>" "sm U = g" "wsHeap U = wsHeap S" "clients U = clients S" "server_inv U"
  have "\<exists>V. sstep LS SS (fsm_Apply decode) marshal U (Commit r) (Ret V) \<and>
      channel V c = enqueue (MsgAck \<lparr>ack_NewRev = NewRev r\<rparr>) (channel S c)" if "res = Some r" for r
    using commit_acknowledges [OF U(5), of r c LS SS "fsm_Apply decode" marshal] U(2-4) assms(13)
      fsm_Apply_spawned(1) [OF assms(11)] fsm_Apply_author [OF assms(11) [unfolded that] assms(12)] that by simp
  moreover have "spawned g = spawned (sm S)" if "res = None"
    using fsm_Apply_spawned(1) [OF assms(11)] that by simp
  ultimately show ?thesis using steps U(1-3) by (intro exI [of _ T] exI [of _ U]) (simp split: option.split)
qed

definition sample_waiting :: "(InmemLogStore, InmemStableStore) Node" where
  "sample_waiting =
     \<lparr>raftProc = sample_applying, wsLeaderAddr = ''W'', clients = [(''y'', 0)], wsHeap = [sample_client ''y'' 0 []],
      conns = [\<lparr>conn_client = Some 0, conn_pc = Awaiting 0\<rparr>]\<rparr>"

lemma submission_answered_witness:
  "\<exists>U V. sm U = sample_applied \<and> channel U 0 = [] \<and>
     sstep InmemLog InmemStable (fsm_Apply (\<lambda>d. Some sample_submission)) (\<lambda>e. None) U
       (Commit \<lparr>CPrime = sample_insert, NewRev = 1, res_ClientID = ''y'', IsDuplicate = False\<rparr>) (Ret V) \<and>
     channel V 0 = [MsgAck \<lparr>ack_NewRev = 1\<rparr>]"
proof -
  have 1: "server_inv sample_waiting" "0 < length (conns sample_waiting)"
    "conns sample_waiting ! 0 = \<lparr>conn_client = Some 0, conn_pc = Awaiting 0\<rparr>"
    "applying (raftProc sample_waiting) = Some (1, 1)" "(1 :: u64) \<le> 1"
    by (auto simp: sample_waiting_def sample_client_def server_inv_def open_client_def sample_applying_def)
  have 2: "GetLog InmemLog (logStore (raftNode sample_waiting)) 1 = Inr \<lparr>Index = 1, Term = 1, Data = ''e''\<rparr>"
    "Data \<lparr>Index = 1, Term = 1, Data = ''e''\<rparr> \<noteq> []" "map_of (pendingFutures (raftNode sample_waiting)) 1 = Some 0"
    "0 < length (futures (raftNode sample_waiting))" "futures (raftNode sample_waiting) ! 0 = newApplyFuture"
    using sample_get by (simp_all add: sample_waiting_def sample_applying_def)
  have "sm sample_waiting = NewDocumentStateMachine ''abc''"
    by (simp add: sample_waiting_def sample_applying_def sample_raft_def)
  then have 3: "fsm_Apply (\<lambda>d. Some sample_submission) (sm sample_waiting) (Data \<lparr>Index = 1, Term = 1, Data = ''e''\<rparr>) =
      Some (Ret (sample_applied, Some \<lparr>CPrime = sample_insert, NewRev = 1, res_ClientID = ''y'', IsDuplicate = False\<rparr>))"
    by (simp add: sample_fsm_run)
  have 4: "(entry_ClientID sample_submission, 0) \<in> set (clients sample_waiting)" "channel sample_waiting 0 = []"
    by (simp_all add: sample_submission_def sample_waiting_def sample_client_def)
  from submission_answered [OF 1 2 3 HOL.refl 4(1), of InmemStable "\<lambda>e. None"] 4(2)
  show ?thesis by (auto simp: enqueue_def)
qed

end
