(* ===== verification/Bolt_Store.thy ===== *)
theory Bolt_Store
  imports Raft_Log
begin

text \<open>
  \<^verbatim>\<open>src/internal/store/boltstore.go\<close>: the log store and the stable store on disk. The database
  library \<^verbatim>\<open>bbolt\<close> is a parameter, a record of the functions the code calls, and so are
  \<^verbatim>\<open>json.Marshal\<close> and \<^verbatim>\<open>json.Unmarshal\<close> of a log entry. The locale \<open>bolt_db\<close> states what
  the library documents: a bucket is a finite map, keys and values have a largest size, a cursor walks the keys in the order of
  their bytes as long as nothing is changed, a committed transaction is in effect. What \<open>DeleteRange\<close> relies on
  beyond that, that a cursor keeps its place when it deletes, is the separate hypothesis \<open>keeps_place\<close>. The
  contracts of theory \<open>Raft_Stores\<close>, which know no limits, follow for a database that has none (\<open>bolt_roomy\<close>).
\<close>

section \<open>The database\<close>

text \<open>
  \<open>'d\<close> is the state of the database, \<open>'c\<close> that of a cursor. \<open>cur_Delete\<close> removes the entry under the
  cursor.
\<close>

record ('d, 'c) Bolt =
  bolt_Open :: "string \<Rightarrow> store_error + 'd"
  bolt_CreateBucket :: "'d \<Rightarrow> bytes \<Rightarrow> 'd \<times> err"
  bolt_Get :: "'d \<Rightarrow> bytes \<Rightarrow> bytes \<Rightarrow> bytes option"
  bolt_Put :: "'d \<Rightarrow> bytes \<Rightarrow> bytes \<Rightarrow> bytes \<Rightarrow> 'd \<times> err"
  cur_First :: "'d \<Rightarrow> bytes \<Rightarrow> bytes option \<times> 'c"
  cur_Last :: "'d \<Rightarrow> bytes \<Rightarrow> bytes option \<times> 'c"
  cur_Seek :: "'d \<Rightarrow> bytes \<Rightarrow> bytes \<Rightarrow> bytes option \<times> 'c"
  cur_Next :: "'d \<Rightarrow> 'c \<Rightarrow> bytes option \<times> 'c"
  cur_Delete :: "'d \<Rightarrow> 'c \<Rightarrow> 'd \<times> 'c \<times> err"
  tx_Commit :: "'d \<Rightarrow> 'd \<times> err"

text \<open>\<open>json.Marshal\<close> and \<open>json.Unmarshal\<close> of a log entry; a failing decoder leaves what it has read so far.\<close>

type_synonym marshaller = "LogEntry \<Rightarrow> bytes option"

type_synonym unmarshaller = "bytes \<Rightarrow> store_error \<times> LogEntry + LogEntry"

definition bucketLog :: bytes where
  "bucketLog = ''raft-log''"

definition bucketStable :: bytes where
  "bucketStable = ''raft-stable''"

text \<open>\<^verbatim>\<open>db.Update\<close>: the transaction is rolled back when the function returns an error.\<close>

definition Update :: "('d, 'c) Bolt \<Rightarrow> 'd \<Rightarrow> ('d \<Rightarrow> 'd \<times> err) \<Rightarrow> 'd \<times> err" where
  "Update B d f = (case f d of (d', Some e) \<Rightarrow> (d, Some e) | (d', None) \<Rightarrow> tx_Commit B d')"

text \<open>\<^verbatim>\<open>db.Close\<close>, on whether the file is open.\<close>

definition db_Close :: "bool \<Rightarrow> bool" where
  "db_Close opened = False"

text \<open>The store, or an error, and whether the file is open afterwards.\<close>

definition NewBoltStore :: "('d, 'c) Bolt \<Rightarrow> string \<Rightarrow> (store_error + 'd) \<times> bool" where
  "NewBoltStore B path =
     (case bolt_Open B path of
        Inl e \<Rightarrow> (Inl e, False)
      | Inr d \<Rightarrow>
          let opened = True in
          (case Update B d (\<lambda>tx. case bolt_CreateBucket B tx bucketLog of
                                   (tx1, Some e) \<Rightarrow> (tx1, Some e)
                                 | (tx1, None) \<Rightarrow> bolt_CreateBucket B tx1 bucketStable) of
             (d', Some e) \<Rightarrow> (Inl e, db_Close opened)
           | (d', None) \<Rightarrow> (Inr d', opened)))"

section \<open>The log store\<close>

text \<open>\<open>uint64ToBytes\<close> and \<open>bytesToUint64\<close> are the big-endian codec of theory \<open>Raft_Stores\<close>.\<close>

definition uint64ToBytes :: "u64 \<Rightarrow> bytes" where
  "uint64ToBytes v = PutUint64 v"

definition bytesToUint64 :: "bytes \<Rightarrow> u64 outcome" where
  "bytesToUint64 b = Uint64 b"

definition keyIndex :: "bytes option \<Rightarrow> (u64 \<times> err) outcome" where
  "keyIndex k =
     (case k of None \<Rightarrow> Ret (0, None) | Some b \<Rightarrow> bind_outcome (bytesToUint64 b) (\<lambda>i. Ret (i, None)))"

definition bolt_FirstIndex :: "('d, 'c) Bolt \<Rightarrow> 'd \<Rightarrow> (u64 \<times> err) outcome" where
  "bolt_FirstIndex B d = keyIndex (fst (cur_First B d bucketLog))"

definition bolt_LastIndex :: "('d, 'c) Bolt \<Rightarrow> 'd \<Rightarrow> (u64 \<times> err) outcome" where
  "bolt_LastIndex B d = keyIndex (fst (cur_Last B d bucketLog))"

text \<open>The pointer to \<open>out\<close> is returned with an error too.\<close>

definition bolt_GetLog :: "('d, 'c) Bolt \<Rightarrow> unmarshaller \<Rightarrow> 'd \<Rightarrow> u64 \<Rightarrow>
    store_error \<times> LogEntry option + LogEntry" where
  "bolt_GetLog B unmarshal d idx =
     (case bolt_Get B d bucketLog (uint64ToBytes idx) of
        None \<Rightarrow> Inl (ErrLogNotFound, Some \<lparr>Index = 0, Term = 0, Data = []\<rparr>)
      | Some v \<Rightarrow> (case unmarshal v of Inl (e, out) \<Rightarrow> Inl (e, Some out) | Inr out \<Rightarrow> Inr out))"

fun putLogs :: "('d, 'c) Bolt \<Rightarrow> marshaller \<Rightarrow> LogEntry list \<Rightarrow> 'd \<Rightarrow> 'd \<times> err" where
  "putLogs B marshal [] tx = (tx, None)"
| "putLogs B marshal (l # logs) tx =
     (case marshal l of
        None \<Rightarrow> (tx, Some (ErrStore ''marshal log''))
      | Some data \<Rightarrow>
          (case bolt_Put B tx bucketLog (uint64ToBytes (Index l)) data of
             (tx1, Some e) \<Rightarrow> (tx1, Some (ErrStore ''put log''))
           | (tx1, None) \<Rightarrow> putLogs B marshal logs tx1))"

definition bolt_StoreLogs :: "('d, 'c) Bolt \<Rightarrow> marshaller \<Rightarrow> 'd \<Rightarrow> LogEntry list \<Rightarrow> 'd \<times> err" where
  "bolt_StoreLogs B marshal d logs = Update B d (putLogs B marshal logs)"

text \<open>The loop over the cursor; its state is the transaction, the current key and the cursor.\<close>

definition deleteKey_round :: "('d, 'c) Bolt \<Rightarrow> u64 \<Rightarrow> 'd \<times> bytes option \<times> 'c \<Rightarrow>
    ('d \<times> bytes option \<times> 'c, 'd \<times> err) round outcome" where
  "deleteKey_round B hi s =
     (case s of (tx, k, c) \<Rightarrow>
        (case k of
           None \<Rightarrow> Ret (Break (tx, None))
         | Some key \<Rightarrow>
             bind_outcome (bytesToUint64 key) (\<lambda>i.
               if hi < i then Ret (Break (tx, None))
               else case cur_Delete B tx c of
                   (tx1, c1, Some e) \<Rightarrow> Ret (Break (tx1, Some e))
                 | (tx1, c1, None) \<Rightarrow>
                     (case cur_Next B tx1 c1 of (k2, c2) \<Rightarrow> Ret (Continue (tx1, k2, c2))))))"

definition bolt_DeleteRange :: "('d, 'c) Bolt \<Rightarrow> 'd \<Rightarrow> u64 \<Rightarrow> u64 \<Rightarrow> ('d \<times> err) option" where
  "bolt_DeleteRange B d lo hi =
     (case cur_Seek B d bucketLog (uint64ToBytes lo) of
        (k, c) \<Rightarrow>
          (case go_loop (deleteKey_round B hi) (d, k, c) of
             Some (Ret (tx, e)) \<Rightarrow> Some (Update B d (\<lambda>_. (tx, e)))
           | _ \<Rightarrow> None))"

text \<open>As a \<open>LogStore\<close>; that no key makes \<open>bytesToUint64\<close> panic is part of the invariant below.\<close>

fun returned :: "'a outcome \<Rightarrow> 'a" where
  "returned (Ret x) = x"

definition BoltLog :: "('d, 'c) Bolt \<Rightarrow> marshaller \<Rightarrow> unmarshaller \<Rightarrow> 'd LogStore" where
  "BoltLog B marshal unmarshal =
     \<lparr>FirstIndex = \<lambda>d. returned (bolt_FirstIndex B d), LastIndex = \<lambda>d. returned (bolt_LastIndex B d),
      GetLog = bolt_GetLog B unmarshal, StoreLogs = bolt_StoreLogs B marshal, DeleteRange = bolt_DeleteRange B\<rparr>"

section \<open>The stable store\<close>

definition bolt_Set :: "('d, 'c) Bolt \<Rightarrow> 'd \<Rightarrow> bytes \<Rightarrow> bytes \<Rightarrow> 'd \<times> err" where
  "bolt_Set B d key val = Update B d (\<lambda>tx. bolt_Put B tx bucketStable key val)"

definition bolt_GetValue :: "('d, 'c) Bolt \<Rightarrow> 'd \<Rightarrow> bytes \<Rightarrow> bytes \<times> err" where
  "bolt_GetValue B d key = (case bolt_Get B d bucketStable key of None \<Rightarrow> ([], None) | Some v \<Rightarrow> (v, None))"

definition bolt_SetUint64 :: "('d, 'c) Bolt \<Rightarrow> 'd \<Rightarrow> bytes \<Rightarrow> u64 \<Rightarrow> 'd \<times> err" where
  "bolt_SetUint64 B d key val = bolt_Set B d key (uint64ToBytes val)"

definition bolt_GetUint64 :: "('d, 'c) Bolt \<Rightarrow> 'd \<Rightarrow> bytes \<Rightarrow> (u64 \<times> err) outcome" where
  "bolt_GetUint64 B d key =
     (case bolt_GetValue B d key of
        (val, Some e) \<Rightarrow> Ret (0, Some e)
      | (val, None) \<Rightarrow>
          if length val = 0 then Ret (0, None)
          else if length val \<noteq> 8 then Ret (0, Some (ErrStore ''invalid uint64 value in stable store''))
          else bind_outcome (bytesToUint64 val) (\<lambda>x. Ret (x, None)))"

definition BoltStable :: "('d, 'c) Bolt \<Rightarrow> 'd StableStore" where
  "BoltStable B =
     \<lparr>Set = bolt_Set B, Get = bolt_GetValue B, SetUint64 = bolt_SetUint64 B, GetUint64 = bolt_GetUint64 B\<rparr>"

section \<open>What the code relies on\<close>

definition least :: "bytes set \<Rightarrow> bytes option" where
  "least K = (if K = {} then None else Some (Min K))"

definition greatest :: "bytes set \<Rightarrow> bytes option" where
  "greatest K = (if K = {} then None else Some (Max K))"

text \<open>The largest sizes of keys and values.\<close>

abbreviation max_key_size :: nat where
  "max_key_size \<equiv> 32768"

abbreviation max_value_size :: nat where
  "max_value_size \<equiv> 2147483646"

text \<open>
  \<open>buckets d\<close> are the buckets that exist, \<open>bmap d b\<close> is the contents of bucket \<open>b\<close>; \<open>at d c b k\<close> says that cursor \<open>c\<close> has been
  placed on key \<open>k\<close> of bucket \<open>b\<close> and nothing has been changed since.
\<close>

definition put_ok :: "('d, 'c) Bolt \<Rightarrow> ('d \<Rightarrow> bool) \<Rightarrow> ('d \<Rightarrow> bytes set) \<Rightarrow> ('d \<Rightarrow> bytes \<Rightarrow> bytes \<rightharpoonup> bytes) \<Rightarrow>
    bytes \<Rightarrow> bytes \<Rightarrow> bytes \<Rightarrow> bool" where
  "put_ok B dinv buckets bmap b k v \<longleftrightarrow>
     (\<forall>d. dinv d \<and> b \<in> buckets d \<longrightarrow>
        (\<exists>d'. bolt_Put B d b k v = (d', None) \<and> dinv d' \<and> buckets d' = buckets d \<and> bmap d' = (bmap d)(b := (bmap d b)(k \<mapsto> v))))"

text \<open>
  What the library documents, for a disk that does not fail. After a deletion nothing is known of the cursor: ``You
  must reposition your cursor after mutating data.''
\<close>

locale bolt_db =
  fixes B :: "('d, 'c) Bolt"
    and dinv :: "'d \<Rightarrow> bool"
    and buckets :: "'d \<Rightarrow> bytes set"
    and bmap :: "'d \<Rightarrow> bytes \<Rightarrow> bytes \<rightharpoonup> bytes"
    and at :: "'d \<Rightarrow> 'c \<Rightarrow> bytes \<Rightarrow> bytes \<Rightarrow> bool"
  assumes open_law: "bolt_Open B path = Inr d \<Longrightarrow> dinv d"
    and create_law: "dinv d \<Longrightarrow> bolt_CreateBucket B d b = (d', None) \<Longrightarrow> dinv d' \<and> buckets d' = insert b (buckets d) \<and>
      bmap d' = (if b \<in> buckets d then bmap d else (bmap d)(b := Map.empty))"
    and finite_bucket: "dinv d \<Longrightarrow> finite (dom (bmap d b))"
    and get_law: "dinv d \<Longrightarrow> b \<in> buckets d \<Longrightarrow> bolt_Get B d b k = bmap d b k"
    and put_law: "k \<noteq> [] \<Longrightarrow> length k \<le> max_key_size \<Longrightarrow> length v \<le> max_value_size \<Longrightarrow> put_ok B dinv buckets bmap b k v"
    and first_law: "dinv d \<Longrightarrow> b \<in> buckets d \<Longrightarrow> fst (cur_First B d b) = least (dom (bmap d b))"
    and last_law: "dinv d \<Longrightarrow> b \<in> buckets d \<Longrightarrow> fst (cur_Last B d b) = greatest (dom (bmap d b))"
    and seek_law: "dinv d \<Longrightarrow> b \<in> buckets d \<Longrightarrow> cur_Seek B d b k = (r, c) \<Longrightarrow>
      r = least {k' \<in> dom (bmap d b). k \<le> k'} \<and> (\<forall>k'. r = Some k' \<longrightarrow> at d c b k')"
    and next_law: "dinv d \<Longrightarrow> at d c b k \<Longrightarrow> cur_Next B d c = (r, c') \<Longrightarrow>
      r = least {k' \<in> dom (bmap d b). k < k'} \<and> (\<forall>k'. r = Some k' \<longrightarrow> at d c' b k')"
    and delete_law: "dinv d \<Longrightarrow> at d c b k \<Longrightarrow> k \<in> dom (bmap d b) \<Longrightarrow>
      \<exists>d' c'. cur_Delete B d c = (d', c', None) \<and> dinv d' \<and> buckets d' = buckets d \<and> bmap d' = (bmap d)(b := (bmap d b)(k := None))"
    and commit_law: "dinv d \<Longrightarrow> \<exists>d'. tx_Commit B d = (d', None) \<and> dinv d' \<and> buckets d' = buckets d \<and> bmap d' = bmap d"

text \<open>
  What \<open>DeleteRange\<close> relies on besides: after a deletion \<^verbatim>\<open>Next\<close> goes to the next larger key. The library does
  not promise it.
\<close>

definition keeps_place :: "('d, 'c) Bolt \<Rightarrow> ('d \<Rightarrow> bool) \<Rightarrow> ('d \<Rightarrow> bytes \<Rightarrow> bytes \<rightharpoonup> bytes) \<Rightarrow> ('d \<Rightarrow> 'c \<Rightarrow> bytes \<Rightarrow> bytes \<Rightarrow> bool) \<Rightarrow> bool" where
  "keeps_place B dinv bmap at \<longleftrightarrow>
     (\<forall>d c b k d' c' r c2. dinv d \<and> at d c b k \<and> cur_Delete B d c = (d', c', None) \<and> cur_Next B d' c' = (r, c2) \<longrightarrow>
        r = least {k' \<in> dom (bmap d' b). k < k'} \<and> (\<forall>k'. r = Some k' \<longrightarrow> at d' c2 b k'))"

section \<open>The contracts follow\<close>

lemma uint64ToBytes_simps [simp]:
  "uint64ToBytes v \<noteq> []" "length (uint64ToBytes v) = 8" "bytesToUint64 (uint64ToBytes v) = Ret v"
  "uint64ToBytes v < uint64ToBytes w \<longleftrightarrow> v < w"
  by (simp_all add: uint64ToBytes_def bytesToUint64_def Uint64_PutUint64 PutUint64_less)

lemma uint64ToBytes_inject [simp]: "uint64ToBytes v = uint64ToBytes w \<longleftrightarrow> v = w"
  by (metis uint64ToBytes_simps(3) outcome.inject)

lemma uint64ToBytes_le [simp]: "uint64ToBytes v \<le> uint64ToBytes w \<longleftrightarrow> v \<le> w"
  by (simp add: order.order_iff_strict)

lemma least_Some:
  assumes "finite K"
  shows "least K = Some k \<longleftrightarrow> k \<in> K \<and> (\<forall>k' \<in> K. k \<le> k')"
  using assms Min_eq_iff [of K k] by (auto simp: least_def)

lemma least_None: "least K = None \<longleftrightarrow> K = {}"
  by (simp add: least_def)

lemma buckets_differ [simp]: "bucketLog \<noteq> bucketStable" "bucketStable \<noteq> bucketLog"
  by (simp_all add: bucketLog_def bucketStable_def)

text \<open>The log a database holds, for a decoder that undoes the encoder.\<close>

definition decoded :: "unmarshaller \<Rightarrow> bytes option \<Rightarrow> LogEntry option" where
  "decoded unmarshal v =
     (case v of None \<Rightarrow> None | Some b \<Rightarrow> (case unmarshal b of Inl e \<Rightarrow> None | Inr e \<Rightarrow> Some e))"

definition bolt_lmap :: "('d \<Rightarrow> bytes \<Rightarrow> bytes \<rightharpoonup> bytes) \<Rightarrow> unmarshaller \<Rightarrow> 'd \<Rightarrow> u64 \<rightharpoonup> LogEntry" where
  "bolt_lmap bmap unmarshal d = (\<lambda>i. decoded unmarshal (bmap d bucketLog (uint64ToBytes i)))"

definition keys_ok :: "unmarshaller \<Rightarrow> (bytes \<rightharpoonup> bytes) \<Rightarrow> bool" where
  "keys_ok unmarshal m \<longleftrightarrow>
     (\<forall>k v. m k = Some v \<longrightarrow> (\<exists>i. k = uint64ToBytes i) \<and> (\<exists>e. unmarshal v = Inr e))"

text \<open>Both buckets exist, and the log holds what the store has put there.\<close>

definition bolt_sinv :: "('d \<Rightarrow> bool) \<Rightarrow> ('d \<Rightarrow> bytes set) \<Rightarrow> 'd \<Rightarrow> bool" where
  "bolt_sinv dinv buckets d \<longleftrightarrow> dinv d \<and> bucketLog \<in> buckets d \<and> bucketStable \<in> buckets d"

definition bolt_linv :: "('d \<Rightarrow> bool) \<Rightarrow> ('d \<Rightarrow> bytes set) \<Rightarrow> ('d \<Rightarrow> bytes \<Rightarrow> bytes \<rightharpoonup> bytes) \<Rightarrow> unmarshaller \<Rightarrow> 'd \<Rightarrow> bool" where
  "bolt_linv dinv buckets bmap unmarshal d \<longleftrightarrow> bolt_sinv dinv buckets d \<and> keys_ok unmarshal (bmap d bucketLog)"

text \<open>An entry the database has room for.\<close>

definition storable :: "marshaller \<Rightarrow> LogEntry \<Rightarrow> bool" where
  "storable marshal e = (case marshal e of None \<Rightarrow> False | Some b \<Rightarrow> length b \<le> max_value_size)"

lemma put_okD:
  assumes "put_ok B dinv buckets bmap b k v" and "dinv d" and "b \<in> buckets d"
  obtains d' where "bolt_Put B d b k v = (d', None)" "dinv d'" "buckets d' = buckets d" "bmap d' = (bmap d)(b := (bmap d b)(k \<mapsto> v))"
  using assms unfolding put_ok_def by blast

text \<open>What a successful change of the log bucket leaves.\<close>

definition log_written :: "('d \<Rightarrow> bool) \<Rightarrow> ('d \<Rightarrow> bytes set) \<Rightarrow> ('d \<Rightarrow> bytes \<Rightarrow> bytes \<rightharpoonup> bytes) \<Rightarrow> unmarshaller \<Rightarrow> 'd \<Rightarrow>
    (u64 \<rightharpoonup> LogEntry) \<Rightarrow> 'd \<Rightarrow> bool" where
  "log_written dinv buckets bmap unmarshal d m d' \<longleftrightarrow>
     bolt_linv dinv buckets bmap unmarshal d' \<and> bolt_lmap bmap unmarshal d' = m \<and> bmap d' bucketStable = bmap d bucketStable"

context bolt_db
begin

lemma Update_ok:
  assumes "f d = (d', None)" and "dinv d'"
  shows "\<exists>d''. Update B d f = (d'', None) \<and> dinv d'' \<and> buckets d'' = buckets d' \<and> bmap d'' = bmap d'"
  using commit_law [OF assms(2)] assms(1) by (auto simp: Update_def)

text \<open>Opening the store.\<close>

lemma NewBoltStore_inv:
  assumes "NewBoltStore B path = (Inr d, opened)"
  shows "bolt_sinv dinv buckets d \<and> opened"
proof -
  obtain d0 where d0: "bolt_Open B path = Inr d0" using assms by (auto simp: NewBoltStore_def split: sum.splits)
  obtain d1 e1 where d1: "bolt_CreateBucket B d0 bucketLog = (d1, e1)" by fastforce
  obtain d2 e2 where d2: "bolt_CreateBucket B d1 bucketStable = (d2, e2)" by fastforce
  have none: "e1 = None" "e2 = None" "tx_Commit B d2 = (d, None)" "opened"
    using assms d0 d1 d2 by (auto simp: NewBoltStore_def Update_def Let_def split: option.splits prod.splits)
  have "dinv d1 \<and> buckets d1 = insert bucketLog (buckets d0)" using create_law [OF open_law [OF d0]] d1 none(1) by simp
  then have "dinv d2 \<and> bucketLog \<in> buckets d2 \<and> bucketStable \<in> buckets d2" using create_law [of d1 bucketStable d2] d2 none(2) by simp
  then show ?thesis using commit_law [of d2] none(3,4) by (auto simp: bolt_sinv_def)
qed

text \<open>Writing entries.\<close>

lemma putLogs_ok:
  assumes "bolt_linv dinv buckets bmap unmarshal d"
    and "\<forall>e \<in> set es. \<exists>b. marshal e = Some b \<and> unmarshal b = Inr e \<and> put_ok B dinv buckets bmap bucketLog (uint64ToBytes (Index e)) b"
  shows "\<exists>d'. putLogs B marshal es d = (d', None) \<and> log_written dinv buckets bmap unmarshal d (store_all (bolt_lmap bmap unmarshal d) es) d'"
  using assms
proof (induction es arbitrary: d)
  case Nil
  then show ?case by (simp add: store_all_def log_written_def)
next
  case (Cons e es)
  obtain b where b: "marshal e = Some b" "unmarshal b = Inr e" "put_ok B dinv buckets bmap bucketLog (uint64ToBytes (Index e)) b"
    using Cons.prems(2) by auto
  obtain d1 where d1: "bolt_Put B d bucketLog (uint64ToBytes (Index e)) b = (d1, None)" "dinv d1" "buckets d1 = buckets d"
    "bmap d1 = (bmap d)(bucketLog := (bmap d bucketLog)(uint64ToBytes (Index e) \<mapsto> b))"
    using put_okD [OF b(3)] Cons.prems(1) unfolding bolt_linv_def bolt_sinv_def by metis
  have "bolt_linv dinv buckets bmap unmarshal d1"
    using Cons.prems(1) b(2) d1(2-4) by (auto simp: bolt_linv_def bolt_sinv_def keys_ok_def)
  then obtain d' where "putLogs B marshal es d1 = (d', None)"
    "log_written dinv buckets bmap unmarshal d1 (store_all (bolt_lmap bmap unmarshal d1) es) d'"
    using Cons.IH [of d1] Cons.prems(2) by auto
  moreover have "bolt_lmap bmap unmarshal d1 = (bolt_lmap bmap unmarshal d)(Index e \<mapsto> e)"
    using b(2) d1(4) by (auto simp: bolt_lmap_def decoded_def fun_eq_iff)
  moreover have "bmap d1 bucketStable = bmap d bucketStable" using d1(4) by simp
  moreover have "store_all m (e # es) = store_all (m(Index e \<mapsto> e)) es" for m by (simp add: store_all_def)
  ultimately show ?case using b(1) d1(1) by (intro exI [of _ d']) (simp add: log_written_def)
qed

lemma bolt_StoreLogs_ok:
  assumes "bolt_linv dinv buckets bmap unmarshal d"
    and "\<forall>e \<in> set es. \<exists>b. marshal e = Some b \<and> unmarshal b = Inr e \<and> put_ok B dinv buckets bmap bucketLog (uint64ToBytes (Index e)) b"
  shows "\<exists>d'. bolt_StoreLogs B marshal d es = (d', None) \<and>
    log_written dinv buckets bmap unmarshal d (store_all (bolt_lmap bmap unmarshal d) es) d'"
proof -
  obtain d1 where d1: "putLogs B marshal es d = (d1, None)"
    "log_written dinv buckets bmap unmarshal d (store_all (bolt_lmap bmap unmarshal d) es) d1"
    using putLogs_ok [OF assms] by blast
  moreover obtain d2 where "Update B d (putLogs B marshal es) = (d2, None)" "dinv d2" "buckets d2 = buckets d1" "bmap d2 = bmap d1"
    using Update_ok [of "putLogs B marshal es" d d1] d1 by (auto simp: log_written_def bolt_linv_def bolt_sinv_def)
  ultimately show ?thesis
    by (auto simp: bolt_StoreLogs_def log_written_def bolt_linv_def bolt_sinv_def bolt_lmap_def)
qed

text \<open>The loop of \<open>DeleteRange\<close>.\<close>

definition in_range :: "u64 \<Rightarrow> u64 \<Rightarrow> bytes set" where
  "in_range lo hi = uint64ToBytes ` {lo..hi}"

text \<open>Where the loop stops, nothing in the range is left.\<close>

lemma range_empty:
  assumes "keys_ok unmarshal m"
    and "\<And>i. uint64ToBytes i \<in> dom m \<Longrightarrow> lo \<le> i \<Longrightarrow> hi < i"
  shows "m |` (- in_range lo hi) = m"
proof (rule ext)
  fix k
  show "(m |` (- in_range lo hi)) k = m k"
  proof (cases "m k")
    case (Some v)
    then have "k \<notin> in_range lo hi" using assms(2) by (fastforce simp: in_range_def)
    then show ?thesis by simp
  qed (simp add: restrict_map_def)
qed

lemma cursor_delete_round:
  assumes place: "keeps_place B dinv bmap at" and inv: "dinv d" "keys_ok unmarshal (bmap d bucketLog)"
    and k: "k = least {k' \<in> dom (bmap d bucketLog). uint64ToBytes lo \<le> k'}" "\<And>k'. k = Some k' \<Longrightarrow> at d c bucketLog k'"
  obtains (stop) "deleteKey_round B hi (d, k, c) = Ret (Break (d, None))" "bmap d bucketLog |` (- in_range lo hi) = bmap d bucketLog"
  | (go) i d1 k2 c2 where "deleteKey_round B hi (d, k, c) = Ret (Continue (d1, k2, c2))" "lo \<le> i" "i \<le> hi"
      "uint64ToBytes i \<in> dom (bmap d bucketLog)" "dinv d1" "buckets d1 = buckets d"
      "bmap d1 = (bmap d)(bucketLog := (bmap d bucketLog)(uint64ToBytes i := None))"
      "k2 = least {k' \<in> dom (bmap d1 bucketLog). uint64ToBytes lo \<le> k'}" "\<And>k'. k2 = Some k' \<Longrightarrow> at d1 c2 bucketLog k'"
proof (cases k)
  case None
  then have "\<not> uint64ToBytes lo \<le> k'" if "k' \<in> dom (bmap d bucketLog)" for k'
    using k(1) that by (auto simp: least_None)
  then have "bmap d bucketLog |` (- in_range lo hi) = bmap d bucketLog"
    by (intro range_empty [OF inv(2)]) force
  then show ?thesis using None stop by (simp add: deleteKey_round_def)
next
  case (Some key)
  have fin: "finite {k' \<in> dom (bmap d bucketLog). uint64ToBytes lo \<le> k'}" using finite_bucket [OF inv(1)] by simp
  have key: "key \<in> dom (bmap d bucketLog)" "uint64ToBytes lo \<le> key"
    "\<And>k'. k' \<in> dom (bmap d bucketLog) \<Longrightarrow> uint64ToBytes lo \<le> k' \<Longrightarrow> key \<le> k'"
    using least_Some [OF fin, of key] Some k(1) by auto
  then obtain i where i: "key = uint64ToBytes i" using inv(2) unfolding keys_ok_def by blast
  show ?thesis
  proof (cases "hi < i")
    case True
    have "hi < j" if "uint64ToBytes j \<in> dom (bmap d bucketLog)" "lo \<le> j" for j
      using key(3) [OF that(1)] that(2) i True by (metis less_le_trans uint64ToBytes_le)
    then have "bmap d bucketLog |` (- in_range lo hi) = bmap d bucketLog" by (intro range_empty [OF inv(2)])
    then show ?thesis using Some i True stop by (simp add: deleteKey_round_def)
  next
    case False
    obtain d1 c1 where d1: "cur_Delete B d c = (d1, c1, None)" "dinv d1" "buckets d1 = buckets d"
      "bmap d1 = (bmap d)(bucketLog := (bmap d bucketLog)(key := None))"
      using delete_law [OF inv(1) k(2) [OF Some] key(1)] by blast
    obtain k2 c2 where n: "cur_Next B d1 c1 = (k2, c2)" by fastforce
    have "{k' \<in> dom (bmap d1 bucketLog). key < k'} = {k' \<in> dom (bmap d1 bucketLog). uint64ToBytes lo \<le> k'}"
      using key d1(4) by (auto simp: less_le)
    then have "k2 = least {k' \<in> dom (bmap d1 bucketLog). uint64ToBytes lo \<le> k'}" "\<And>k'. k2 = Some k' \<Longrightarrow> at d1 c2 bucketLog k'"
      using place [unfolded keeps_place_def, rule_format, OF conjI [OF inv(1) conjI [OF k(2) [OF Some] conjI [OF d1(1) n]]]] by simp_all
    moreover have "deleteKey_round B hi (d, k, c) = Ret (Continue (d1, k2, c2))"
      using Some i False d1(1) n by (simp add: deleteKey_round_def)
    ultimately show ?thesis using go [of d1 k2 c2 i] key(1,2) d1(2-4) i False by simp
  qed
qed

lemma cursor_delete_loop:
  assumes place: "keeps_place B dinv bmap at" and "dinv d" and "keys_ok unmarshal (bmap d bucketLog)"
    and "k = least {k' \<in> dom (bmap d bucketLog). uint64ToBytes lo \<le> k'}" and "\<And>k'. k = Some k' \<Longrightarrow> at d c bucketLog k'"
  shows "\<exists>d'. go_loop (deleteKey_round B hi) (d, k, c) = Some (Ret (d', None)) \<and> dinv d' \<and> buckets d' = buckets d \<and>
    bmap d' = (bmap d)(bucketLog := bmap d bucketLog |` (- in_range lo hi))"
  using assms(2-)
proof (induction "card (dom (bmap d bucketLog))" arbitrary: d k c rule: less_induct)
  case less
  show ?case
  proof (rule cursor_delete_round [OF place less.prems, of hi])
    assume "deleteKey_round B hi (d, k, c) = Ret (Break (d, None))" "bmap d bucketLog |` (- in_range lo hi) = bmap d bucketLog"
    then show ?thesis using less.prems(1) by (subst go_loop.simps) simp
  next
    fix i d1 k2 c2
    assume go: "deleteKey_round B hi (d, k, c) = Ret (Continue (d1, k2, c2))" "lo \<le> i" "i \<le> hi"
      "uint64ToBytes i \<in> dom (bmap d bucketLog)" "dinv d1" "buckets d1 = buckets d"
      "bmap d1 = (bmap d)(bucketLog := (bmap d bucketLog)(uint64ToBytes i := None))"
      "k2 = least {k' \<in> dom (bmap d1 bucketLog). uint64ToBytes lo \<le> k'}" "\<And>k'. k2 = Some k' \<Longrightarrow> at d1 c2 bucketLog k'"
    have "dom (bmap d1 bucketLog) = dom (bmap d bucketLog) - {uint64ToBytes i}" using go(7) by simp
    then have "card (dom (bmap d1 bucketLog)) < card (dom (bmap d bucketLog))"
      using go(4) finite_bucket [OF less.prems(1)] by (simp only: card_Diff1_less)
    moreover have "keys_ok unmarshal (bmap d1 bucketLog)" using less.prems(2) go(7) by (auto simp: keys_ok_def)
    ultimately obtain d' where d': "go_loop (deleteKey_round B hi) (d1, k2, c2) = Some (Ret (d', None))" "dinv d'" "buckets d' = buckets d1"
      "bmap d' = (bmap d1)(bucketLog := bmap d1 bucketLog |` (- in_range lo hi))"
      using less.hyps [OF _ go(5) _ go(8,9)] by blast
    have "uint64ToBytes i \<in> in_range lo hi" using go(2,3) by (simp add: in_range_def)
    then have "(bmap d1 bucketLog) |` (- in_range lo hi) = bmap d bucketLog |` (- in_range lo hi)"
      using go(7) by (auto simp: restrict_map_def fun_eq_iff)
    then have "bmap d' = (bmap d)(bucketLog := bmap d bucketLog |` (- in_range lo hi))" using d'(4) go(7) by simp
    then show ?thesis using d'(1-3) go(1,6) by (subst go_loop.simps) simp
  qed
qed

lemma bolt_DeleteRange_ok:
  assumes "keeps_place B dinv bmap at" and "bolt_linv dinv buckets bmap unmarshal d"
  shows "\<exists>d'. bolt_DeleteRange B d lo hi = Some (d', None) \<and>
    log_written dinv buckets bmap unmarshal d (bolt_lmap bmap unmarshal d |` (- {lo..hi})) d'"
proof -
  have d: "dinv d" "bucketLog \<in> buckets d" "keys_ok unmarshal (bmap d bucketLog)" using assms(2) by (simp_all add: bolt_linv_def bolt_sinv_def)
  obtain k c where kc: "cur_Seek B d bucketLog (uint64ToBytes lo) = (k, c)" by fastforce
  obtain d1 where d1: "go_loop (deleteKey_round B hi) (d, k, c) = Some (Ret (d1, None))" "dinv d1" "buckets d1 = buckets d"
    "bmap d1 = (bmap d)(bucketLog := bmap d bucketLog |` (- in_range lo hi))"
    using cursor_delete_loop [OF assms(1) d(1,3)] seek_law [OF d(1,2) kc] by blast
  then obtain d2 where d2: "bolt_DeleteRange B d lo hi = Some (d2, None)" "dinv d2" "buckets d2 = buckets d" "bmap d2 = bmap d1"
    using kc Update_ok [of "\<lambda>_. (d1, None)" d d1] by (auto simp: bolt_DeleteRange_def)
  have "keys_ok unmarshal (bmap d2 bucketLog)" using d(3) d1(4) d2(4) by (auto simp: keys_ok_def restrict_map_def)
  moreover have "bolt_lmap bmap unmarshal d2 = bolt_lmap bmap unmarshal d |` (- {lo..hi})"
    using d1(4) d2(4) by (auto simp: bolt_lmap_def restrict_map_def in_range_def decoded_def fun_eq_iff)
  ultimately show ?thesis
    using assms(2) d1(4) d2 by (auto simp: log_written_def bolt_linv_def bolt_sinv_def)
qed

text \<open>The stable store.\<close>

lemma bolt_Set_ok:
  assumes "bolt_sinv dinv buckets d" and "put_ok B dinv buckets bmap bucketStable k v"
  shows "\<exists>d'. bolt_Set B d k v = (d', None) \<and> bolt_sinv dinv buckets d' \<and> bmap d' = (bmap d)(bucketStable := (bmap d bucketStable)(k \<mapsto> v))"
proof -
  obtain d1 where "bolt_Put B d bucketStable k v = (d1, None)" "dinv d1" "buckets d1 = buckets d"
    "bmap d1 = (bmap d)(bucketStable := (bmap d bucketStable)(k \<mapsto> v))"
    using put_okD [OF assms(2)] assms(1) unfolding bolt_sinv_def by metis
  then show ?thesis
    using assms(1) Update_ok [of "\<lambda>tx. bolt_Put B tx bucketStable k v" d d1] by (auto simp: bolt_Set_def bolt_sinv_def)
qed

lemma bolt_GetValue_eq:
  "bolt_sinv dinv buckets d \<Longrightarrow> bolt_GetValue B d k = (case bmap d bucketStable k of None \<Rightarrow> [] | Some v \<Rightarrow> v, None)"
  by (simp add: bolt_GetValue_def bolt_sinv_def get_law split: option.split)

lemma bolt_values_eq:
  assumes "bolt_sinv dinv buckets d" and "bolt_sinv dinv buckets d'" and "bmap d' bucketStable k = bmap d bucketStable k"
  shows "bolt_GetValue B d' k = bolt_GetValue B d k \<and> bolt_GetUint64 B d' k = bolt_GetUint64 B d k"
  using assms by (simp add: bolt_GetUint64_def bolt_GetValue_eq)

text \<open>Writing a value, or an integer, changes one key of the stable store and nothing of the log.\<close>

lemma bolt_Set_stable:
  assumes "bolt_sinv dinv buckets d" and "put_ok B dinv buckets bmap bucketStable k v"
  shows "\<exists>d'. bolt_Set B d k v = (d', None) \<and> bolt_sinv dinv buckets d' \<and> bmap d' bucketLog = bmap d bucketLog \<and>
    bolt_GetValue B d' k = (v, None) \<and> (\<forall>n. v = uint64ToBytes n \<longrightarrow> bolt_GetUint64 B d' k = Ret (n, None)) \<and>
    (\<forall>k'. k' \<noteq> k \<longrightarrow> bolt_GetValue B d' k' = bolt_GetValue B d k' \<and> bolt_GetUint64 B d' k' = bolt_GetUint64 B d k')"
proof -
  obtain d' where d': "bolt_Set B d k v = (d', None)" "bolt_sinv dinv buckets d'"
    "bmap d' = (bmap d)(bucketStable := (bmap d bucketStable)(k \<mapsto> v))"
    using bolt_Set_ok [OF assms] by blast
  have v: "bolt_GetValue B d' k = (v, None)" using bolt_GetValue_eq [OF d'(2)] d'(3) by simp
  then have "v = uint64ToBytes n \<longrightarrow> bolt_GetUint64 B d' k = Ret (n, None)" for n by (auto simp: bolt_GetUint64_def)
  moreover have "bolt_GetValue B d' k' = bolt_GetValue B d k' \<and> bolt_GetUint64 B d' k' = bolt_GetUint64 B d k'" if "k' \<noteq> k" for k'
    using that d'(3) by (intro bolt_values_eq [OF assms(1) d'(2)]) simp
  ultimately show ?thesis using d' v by (intro exI [of _ d']) simp
qed

lemma bolt_SetUint64_stable:
  assumes "bolt_sinv dinv buckets d" and "put_ok B dinv buckets bmap bucketStable k (uint64ToBytes n)"
  shows "\<exists>d'. bolt_SetUint64 B d k n = (d', None) \<and> bolt_sinv dinv buckets d' \<and> bmap d' bucketLog = bmap d bucketLog \<and>
    bolt_GetUint64 B d' k = Ret (n, None) \<and>
    (\<forall>k'. k' \<noteq> k \<longrightarrow> bolt_GetValue B d' k' = bolt_GetValue B d k' \<and> bolt_GetUint64 B d' k' = bolt_GetUint64 B d k')"
proof -
  obtain d' where "bolt_Set B d k (uint64ToBytes n) = (d', None)" "bolt_sinv dinv buckets d'" "bmap d' bucketLog = bmap d bucketLog"
    "bolt_GetUint64 B d' k = Ret (n, None)"
    "\<forall>k'. k' \<noteq> k \<longrightarrow> bolt_GetValue B d' k' = bolt_GetValue B d k' \<and> bolt_GetUint64 B d' k' = bolt_GetUint64 B d k'"
    using bolt_Set_stable [OF assms] by (elim exE conjE) (rule that, simp_all)
  then show ?thesis by (intro exI [of _ d']) (simp add: bolt_SetUint64_def)
qed

text \<open>Reading the log.\<close>

lemma dom_bolt_lmap:
  assumes "keys_ok unmarshal (bmap d bucketLog)"
  shows "dom (bmap d bucketLog) = uint64ToBytes ` dom (bolt_lmap bmap unmarshal d)"
proof -
  have "decoded unmarshal (bmap d bucketLog k) = None \<longleftrightarrow> bmap d bucketLog k = None" for k
  proof (cases "bmap d bucketLog k")
    case (Some v)
    then obtain e where "unmarshal v = Inr e" using assms unfolding keys_ok_def by blast
    then show ?thesis using Some by (simp add: decoded_def)
  qed (simp add: decoded_def)
  then have "i \<in> dom (bolt_lmap bmap unmarshal d) \<longleftrightarrow> uint64ToBytes i \<in> dom (bmap d bucketLog)" for i
    by (simp add: bolt_lmap_def domIff)
  moreover have "k \<in> dom (bmap d bucketLog) \<Longrightarrow> \<exists>i. k = uint64ToBytes i" for k
    using assms unfolding keys_ok_def by blast
  ultimately show ?thesis by blast
qed

lemma bolt_LastIndex_ok:
  assumes "bolt_linv dinv buckets bmap unmarshal d"
  shows "bolt_LastIndex B d = Ret (max_key (bolt_lmap bmap unmarshal d), None)"
proof -
  let ?K = "dom (bolt_lmap bmap unmarshal d)"
  have d: "dinv d" "bucketLog \<in> buckets d" "keys_ok unmarshal (bmap d bucketLog)" using assms by (simp_all add: bolt_linv_def bolt_sinv_def)
  have fin: "finite ?K"
    using finite_bucket [OF d(1), of bucketLog] dom_bolt_lmap [where unmarshal = unmarshal, OF d(3)]
    by (metis finite_imageD inj_onI uint64ToBytes_inject)
  have "Max (uint64ToBytes ` ?K) = uint64ToBytes (Max ?K)" if "?K \<noteq> {}"
    using mono_Max_commute [OF _ fin that, of uint64ToBytes] by (simp add: mono_def)
  then show ?thesis
    using last_law [OF d(1,2)] dom_bolt_lmap [where unmarshal = unmarshal, OF d(3)]
    by (simp add: bolt_LastIndex_def keyIndex_def greatest_def max_key_def)
qed

lemma bolt_GetLog_ok:
  assumes "bolt_linv dinv buckets bmap unmarshal d"
  shows "case bolt_lmap bmap unmarshal d i of None \<Rightarrow> \<exists>err. bolt_GetLog B unmarshal d i = Inl err | Some e \<Rightarrow> bolt_GetLog B unmarshal d i = Inr e"
  using assms by (auto simp: bolt_GetLog_def bolt_linv_def bolt_sinv_def bolt_lmap_def decoded_def get_law split: option.splits sum.splits)

end

text \<open>With a codec for the entries, as \<^verbatim>\<open>encoding/json\<close> is for the type of a log entry.\<close>

locale bolt_codec = bolt_db +
  fixes marshal :: marshaller
    and unmarshal :: unmarshaller
  assumes codec_law: "\<exists>b. marshal e = Some b \<and> unmarshal b = Inr e"

text \<open>The documented limit: a value that is too large is refused.\<close>

locale bolt_limits = bolt_codec +
  assumes limit_law: "dinv d \<Longrightarrow> b \<in> buckets d \<Longrightarrow> max_value_size < length v \<Longrightarrow> \<exists>d' e. bolt_Put B d b k v = (d', Some e)"

context bolt_limits
begin

text \<open>A batch with an entry that is too large is refused as a whole.\<close>

lemma putLogs_refused:
  assumes "bolt_linv dinv buckets bmap unmarshal d" and "\<exists>e \<in> set es. \<not> storable marshal e"
  shows "\<exists>d' err. putLogs B marshal es d = (d', Some err)"
  using assms
proof (induction es arbitrary: d)
  case (Cons e es)
  obtain b where b: "marshal e = Some b" "unmarshal b = Inr e" using codec_law by blast
  have d: "dinv d" "bucketLog \<in> buckets d" using Cons.prems(1) by (simp_all add: bolt_linv_def bolt_sinv_def)
  show ?case
  proof (cases "length b \<le> max_value_size")
    case True
    then have "put_ok B dinv buckets bmap bucketLog (uint64ToBytes (Index e)) b" by (intro put_law) simp_all
    from put_okD [OF this d] obtain d1 where d1: "bolt_Put B d bucketLog (uint64ToBytes (Index e)) b = (d1, None)" "dinv d1" "buckets d1 = buckets d"
      "bmap d1 = (bmap d)(bucketLog := (bmap d bucketLog)(uint64ToBytes (Index e) \<mapsto> b))"
      by metis
    have "bolt_linv dinv buckets bmap unmarshal d1"
      using Cons.prems(1) b(2) d1(2-4) by (auto simp: bolt_linv_def bolt_sinv_def keys_ok_def)
    moreover have "\<exists>e \<in> set es. \<not> storable marshal e" using Cons.prems(2) True b(1) by (auto simp: storable_def)
    ultimately show ?thesis using Cons.IH [of d1] b(1) d1(1) by simp
  next
    case False
    then show ?thesis using limit_law [OF d, of b "uint64ToBytes (Index e)"] b(1) by auto
  qed
qed simp

lemma bolt_StoreLogs_refused:
  assumes "bolt_linv dinv buckets bmap unmarshal d" and "\<exists>e \<in> set es. \<not> storable marshal e"
  shows "\<exists>err. bolt_StoreLogs B marshal d es = (d, Some err)"
  using putLogs_refused [OF assms] by (auto simp: bolt_StoreLogs_def Update_def)

end

text \<open>
  The contracts of the Raft stores have no limits. A database without them, whose cursors keep their place, gives
  both stores; the theorems on clusters of disk stores are about those.
\<close>

locale bolt_roomy = bolt_codec +
  assumes place_law: "keeps_place B dinv bmap at"
    and room_law: "k \<noteq> [] \<Longrightarrow> put_ok B dinv buckets bmap b k v"

sublocale bolt_roomy \<subseteq> bolt_log: log_store "BoltLog B marshal unmarshal" "bolt_linv dinv buckets bmap unmarshal" "bolt_lmap bmap unmarshal"
proof unfold_locales
  fix d es
  assume "bolt_linv dinv buckets bmap unmarshal d"
  moreover have "\<forall>e \<in> set es. \<exists>b. marshal e = Some b \<and> unmarshal b = Inr e \<and> put_ok B dinv buckets bmap bucketLog (uint64ToBytes (Index e)) b"
    using codec_law room_law by fastforce
  ultimately show "\<exists>d'. StoreLogs (BoltLog B marshal unmarshal) d es = (d', None) \<and> bolt_linv dinv buckets bmap unmarshal d' \<and>
      bolt_lmap bmap unmarshal d' = store_all (bolt_lmap bmap unmarshal d) es"
    using bolt_StoreLogs_ok [of unmarshal d es marshal] by (auto simp: BoltLog_def log_written_def)
next
  fix d lo hi
  assume "bolt_linv dinv buckets bmap unmarshal d"
  then show "\<exists>d'. DeleteRange (BoltLog B marshal unmarshal) d lo hi = Some (d', None) \<and> bolt_linv dinv buckets bmap unmarshal d' \<and>
      bolt_lmap bmap unmarshal d' = bolt_lmap bmap unmarshal d |` (- {lo..hi})"
    using bolt_DeleteRange_ok [OF place_law, of unmarshal d lo hi] by (auto simp: BoltLog_def log_written_def)
next
  fix d i e
  assume "bolt_linv dinv buckets bmap unmarshal d" "bolt_lmap bmap unmarshal d i = Some e"
  then show "GetLog (BoltLog B marshal unmarshal) d i = Inr e" using bolt_GetLog_ok [of unmarshal d i] by (simp add: BoltLog_def)
next
  fix d i
  assume "bolt_linv dinv buckets bmap unmarshal d" "bolt_lmap bmap unmarshal d i = None"
  then show "\<exists>err. GetLog (BoltLog B marshal unmarshal) d i = Inl err" using bolt_GetLog_ok [of unmarshal d i] by (simp add: BoltLog_def)
next
  fix d
  assume "bolt_linv dinv buckets bmap unmarshal d"
  then show "LastIndex (BoltLog B marshal unmarshal) d = (max_key (bolt_lmap bmap unmarshal d), None)"
    using bolt_LastIndex_ok [of unmarshal d] by (simp add: BoltLog_def)
qed

sublocale bolt_roomy \<subseteq> bolt_stable: stable_store "BoltStable B" "bolt_sinv dinv buckets"
proof unfold_locales
  fix d and k v :: bytes
  assume "bolt_sinv dinv buckets d" "k \<noteq> []"
  then show "\<exists>d'. Set (BoltStable B) d k v = (d', None) \<and> bolt_sinv dinv buckets d' \<and> Get (BoltStable B) d' k = (v, None) \<and>
      (\<forall>k'. k' \<noteq> k \<longrightarrow> Get (BoltStable B) d' k' = Get (BoltStable B) d k' \<and>
         GetUint64 (BoltStable B) d' k' = GetUint64 (BoltStable B) d k')"
    using bolt_Set_stable [of d k v] room_law [of k bucketStable v] unfolding BoltStable_def by simp blast
next
  fix d and k :: bytes and n
  assume "bolt_sinv dinv buckets d" "k \<noteq> []"
  then show "\<exists>d'. SetUint64 (BoltStable B) d k n = (d', None) \<and> bolt_sinv dinv buckets d' \<and>
      GetUint64 (BoltStable B) d' k = Ret (n, None) \<and>
      (\<forall>k'. k' \<noteq> k \<longrightarrow> Get (BoltStable B) d' k' = Get (BoltStable B) d k' \<and>
         GetUint64 (BoltStable B) d' k' = GetUint64 (BoltStable B) d k')"
    using bolt_SetUint64_stable [of d k n] room_law [of k bucketStable "uint64ToBytes n"] unfolding BoltStable_def by simp blast
qed

section \<open>A database in memory\<close>

text \<open>An instance of the parameters: a bucket is an association list, a cursor the bucket and key it is at.\<close>

definition seek_from :: "(bytes \<Rightarrow> bool) \<Rightarrow> (bytes \<Rightarrow> (bytes \<times> bytes) list) \<Rightarrow> bytes \<Rightarrow> bytes option \<times> bytes \<times> bytes" where
  "seek_from P d b =
     (let r = least (set (filter P (map fst (d b)))) in (r, (b, case r of None \<Rightarrow> [] | Some k \<Rightarrow> k)))"

definition map_bolt :: "(nat \<Rightarrow> bool) \<Rightarrow> (bytes \<Rightarrow> (bytes \<times> bytes) list, bytes \<times> bytes) Bolt" where
  "map_bolt room =
     \<lparr>bolt_Open = \<lambda>path. Inr (\<lambda>b. []), bolt_CreateBucket = \<lambda>d b. (d, None),
      bolt_Get = \<lambda>d b k. map_of (d b) k,
      bolt_Put = \<lambda>d b k v. if k = [] then (d, Some (ErrStore ''key required''))
        else if \<not> room (length v) then (d, Some (ErrStore ''value too large''))
        else (d(b := AList.update k v (d b)), None),
      cur_First = seek_from (\<lambda>k. True),
      cur_Last = \<lambda>d b. (greatest (set (map fst (d b))), (b, [])),
      cur_Seek = \<lambda>d b k. seek_from (\<lambda>k'. k \<le> k') d b,
      cur_Next = \<lambda>d (b, k). seek_from (\<lambda>k'. k < k') d b,
      cur_Delete = \<lambda>d (b, k). (d(b := AList.delete k (d b)), (b, k), None),
      tx_Commit = \<lambda>d. (d, None)\<rparr>"

text \<open>With the limit of the library, and without one.\<close>

definition limited_bolt :: "(bytes \<Rightarrow> (bytes \<times> bytes) list, bytes \<times> bytes) Bolt" where
  "limited_bolt = map_bolt (\<lambda>n. n \<le> max_value_size)"

definition roomy_bolt :: "(bytes \<Rightarrow> (bytes \<times> bytes) list, bytes \<times> bytes) Bolt" where
  "roomy_bolt = map_bolt (\<lambda>n. True)"

definition plain_marshal :: marshaller where
  "plain_marshal e = Some (PutUint64 (Index e) @ PutUint64 (Term e) @ Data e)"

definition plain_unmarshal :: unmarshaller where
  "plain_unmarshal b =
     (case (Uint64 b, Uint64 (drop 8 b)) of
        (Ret i, Ret t) \<Rightarrow> Inr \<lparr>Index = i, Term = t, Data = drop 16 b\<rparr>
      | _ \<Rightarrow> Inl (ErrStore ''short entry'', \<lparr>Index = 0, Term = 0, Data = []\<rparr>))"

lemma Uint64_prefix: "Uint64 (PutUint64 v @ b) = Ret v"
  using Uint64_PutUint64 [of v] by (simp add: Uint64_def)

lemma map_bolt_put:
  "k \<noteq> [] \<Longrightarrow> room (length v) \<Longrightarrow> put_ok (map_bolt room) (\<lambda>d. True) (\<lambda>d. UNIV) (\<lambda>d b. map_of (d b)) b k v"
  by (auto simp: put_ok_def map_bolt_def update_conv')

lemma map_bolt_db:
  assumes "\<And>n. n \<le> max_value_size \<Longrightarrow> room n"
  shows "bolt_codec (map_bolt room) (\<lambda>d. True) (\<lambda>d. UNIV) (\<lambda>d b. map_of (d b)) (\<lambda>d c b k. c = (b, k)) plain_marshal plain_unmarshal"
proof unfold_locales
  fix e
  show "\<exists>b. plain_marshal e = Some b \<and> plain_unmarshal b = Inr e"
    by (simp add: plain_marshal_def plain_unmarshal_def Uint64_prefix)
next
  fix k v b :: bytes
  assume "k \<noteq> []" "length v \<le> max_value_size"
  then show "put_ok (map_bolt room) (\<lambda>d. True) (\<lambda>d. UNIV) (\<lambda>d b. map_of (d b)) b k v" using assms by (intro map_bolt_put)
next
  fix d :: "bytes \<Rightarrow> (bytes \<times> bytes) list" and c :: "bytes \<times> bytes" and b k
  assume "c = (b, k)"
  then show "\<exists>d' c'. cur_Delete (map_bolt room) d c = (d', c', None) \<and> True \<and> UNIV = UNIV \<and>
      (\<lambda>b. map_of (d' b)) = (\<lambda>b. map_of (d b))(b := (map_of (d b))(k := None))"
    by (intro exI [of _ "d(b := AList.delete k (d b))"] exI [of _ c]) (auto simp: map_bolt_def delete_conv')
qed (auto simp: map_bolt_def seek_from_def Let_def finite_dom_map_of dom_map_of_conv_image_fst
    intro!: arg_cong [of _ _ least])

lemma map_bolt_place: "keeps_place (map_bolt room) (\<lambda>d. True) (\<lambda>d b. map_of (d b)) (\<lambda>d c b k. c = (b, k))"
  by (auto simp: keeps_place_def map_bolt_def seek_from_def Let_def dom_map_of_conv_image_fst intro!: arg_cong [of _ _ least])

interpretation limited_db: bolt_limits limited_bolt "\<lambda>d. True" "\<lambda>d. UNIV" "\<lambda>d b. map_of (d b)" "\<lambda>d c b k. c = (b, k)"
  plain_marshal plain_unmarshal
  unfolding limited_bolt_def
  by (rule bolt_limits.intro [OF map_bolt_db]) (simp, unfold_locales, simp add: map_bolt_def)

interpretation roomy_db: bolt_roomy roomy_bolt "\<lambda>d. True" "\<lambda>d. UNIV" "\<lambda>d b. map_of (d b)" "\<lambda>d c b k. c = (b, k)"
  plain_marshal plain_unmarshal
  unfolding roomy_bolt_def
  by (rule bolt_roomy.intro [OF map_bolt_db]) (simp, unfold_locales, rule map_bolt_place, simp add: map_bolt_put)

section \<open>The store behind the node\<close>

text \<open>
  C34. The disk store does what a log store and a stable store should, over every database that behaves as the library documents
  (\<open>bolt_limits\<close>: both buckets exist, the disk does not fail). What was stored is read back, the last index is
  the largest; a batch is written as a whole, or, when an entry encodes to more than the largest value, refused as a
  whole; term and vote are read back as written, for keys and values within the limits. As both live in one file,
  writing the log leaves term and vote alone, and the other way round. A range is deleted exactly, and the loop ends,
  if moreover a cursor keeps its place when it deletes, which the library does not promise.
\<close>

theorem bolt_store_contracts:
  assumes "bolt_limits B dinv buckets bmap at marshal unmarshal" and "bolt_linv dinv buckets bmap unmarshal d"
  shows "(\<forall>i. case bolt_lmap bmap unmarshal d i of
        None \<Rightarrow> \<exists>err. GetLog (BoltLog B marshal unmarshal) d i = Inl err
      | Some e \<Rightarrow> GetLog (BoltLog B marshal unmarshal) d i = Inr e) \<and>
    LastIndex (BoltLog B marshal unmarshal) d = (max_key (bolt_lmap bmap unmarshal d), None) \<and>
    (\<forall>es. (\<forall>e \<in> set es. storable marshal e) \<longrightarrow>
       (\<exists>d'. StoreLogs (BoltLog B marshal unmarshal) d es = (d', None) \<and>
          log_written dinv buckets bmap unmarshal d (store_all (bolt_lmap bmap unmarshal d) es) d')) \<and>
    (\<forall>es. (\<exists>e \<in> set es. \<not> storable marshal e) \<longrightarrow> (\<exists>err. StoreLogs (BoltLog B marshal unmarshal) d es = (d, Some err))) \<and>
    (\<forall>k v. k \<noteq> [] \<and> length k \<le> max_key_size \<and> length v \<le> max_value_size \<longrightarrow>
       (\<exists>d'. Set (BoltStable B) d k v = (d', None) \<and> bolt_linv dinv buckets bmap unmarshal d' \<and> bmap d' bucketLog = bmap d bucketLog \<and>
          Get (BoltStable B) d' k = (v, None) \<and> (\<forall>k'. k' \<noteq> k \<longrightarrow> Get (BoltStable B) d' k' = Get (BoltStable B) d k'))) \<and>
    (\<forall>k n. k \<noteq> [] \<and> length k \<le> max_key_size \<longrightarrow>
       (\<exists>d'. SetUint64 (BoltStable B) d k n = (d', None) \<and> bolt_linv dinv buckets bmap unmarshal d' \<and> bmap d' bucketLog = bmap d bucketLog \<and>
          GetUint64 (BoltStable B) d' k = Ret (n, None) \<and>
          (\<forall>k'. k' \<noteq> k \<longrightarrow> GetUint64 (BoltStable B) d' k' = GetUint64 (BoltStable B) d k'))) \<and>
    (keeps_place B dinv bmap at \<longrightarrow>
       (\<forall>lo hi. \<exists>d'. DeleteRange (BoltLog B marshal unmarshal) d lo hi = Some (d', None) \<and>
          log_written dinv buckets bmap unmarshal d (bolt_lmap bmap unmarshal d |` (- {lo..hi})) d'))"
proof (intro conjI allI impI)
  have codec: "bolt_codec B dinv buckets bmap at marshal unmarshal" using assms(1) by (rule bolt_limits.axioms)
  then have db: "bolt_db B dinv buckets bmap at" by (rule bolt_codec.axioms)
  note s = assms(2) [unfolded bolt_linv_def]
  have inv: "bolt_sinv dinv buckets d' \<Longrightarrow> bmap d' bucketLog = bmap d bucketLog \<Longrightarrow> bolt_linv dinv buckets bmap unmarshal d'" for d'
    using s by (simp add: bolt_linv_def)
  show "case bolt_lmap bmap unmarshal d i of
        None \<Rightarrow> \<exists>err. GetLog (BoltLog B marshal unmarshal) d i = Inl err
      | Some e \<Rightarrow> GetLog (BoltLog B marshal unmarshal) d i = Inr e" for i
    using bolt_db.bolt_GetLog_ok [OF db assms(2), of i] by (simp add: BoltLog_def split: option.splits)
  show "LastIndex (BoltLog B marshal unmarshal) d = (max_key (bolt_lmap bmap unmarshal d), None)"
    using bolt_db.bolt_LastIndex_ok [OF db assms(2)] by (simp add: BoltLog_def)
  show "\<exists>d'. StoreLogs (BoltLog B marshal unmarshal) d es = (d', None) \<and>
      log_written dinv buckets bmap unmarshal d (store_all (bolt_lmap bmap unmarshal d) es) d'" if "\<forall>e \<in> set es. storable marshal e" for es
  proof -
    have "\<exists>b. marshal e = Some b \<and> unmarshal b = Inr e \<and> put_ok B dinv buckets bmap bucketLog (uint64ToBytes (Index e)) b" if "storable marshal e" for e
    proof -
      obtain b where b: "marshal e = Some b" "unmarshal b = Inr e" using bolt_codec.codec_law [OF codec] by blast
      then have "put_ok B dinv buckets bmap bucketLog (uint64ToBytes (Index e)) b"
        using that by (intro bolt_db.put_law [OF db]) (simp_all add: storable_def)
      then show ?thesis using b by blast
    qed
    then show ?thesis using bolt_db.bolt_StoreLogs_ok [OF db assms(2), of es marshal] that by (simp add: BoltLog_def)
  qed
  show "\<exists>err. StoreLogs (BoltLog B marshal unmarshal) d es = (d, Some err)" if "\<exists>e \<in> set es. \<not> storable marshal e" for es
    using bolt_limits.bolt_StoreLogs_refused [OF assms(1,2) that] by (simp add: BoltLog_def)
  show "\<exists>d'. Set (BoltStable B) d k v = (d', None) \<and> bolt_linv dinv buckets bmap unmarshal d' \<and> bmap d' bucketLog = bmap d bucketLog \<and>
      Get (BoltStable B) d' k = (v, None) \<and> (\<forall>k'. k' \<noteq> k \<longrightarrow> Get (BoltStable B) d' k' = Get (BoltStable B) d k')"
    if "k \<noteq> [] \<and> length k \<le> max_key_size \<and> length v \<le> max_value_size" for k v
  proof -
    have "put_ok B dinv buckets bmap bucketStable k v" using that by (intro bolt_db.put_law [OF db]) simp_all
    from bolt_db.bolt_Set_stable [OF db conjunct1 [OF s] this] show ?thesis using inv unfolding BoltStable_def by simp blast
  qed
  show "\<exists>d'. SetUint64 (BoltStable B) d k n = (d', None) \<and> bolt_linv dinv buckets bmap unmarshal d' \<and> bmap d' bucketLog = bmap d bucketLog \<and>
      GetUint64 (BoltStable B) d' k = Ret (n, None) \<and> (\<forall>k'. k' \<noteq> k \<longrightarrow> GetUint64 (BoltStable B) d' k' = GetUint64 (BoltStable B) d k')"
    if "k \<noteq> [] \<and> length k \<le> max_key_size" for k n
  proof -
    have "put_ok B dinv buckets bmap bucketStable k (uint64ToBytes n)" using that by (intro bolt_db.put_law [OF db]) simp_all
    from bolt_db.bolt_SetUint64_stable [OF db conjunct1 [OF s] this] show ?thesis using inv unfolding BoltStable_def by simp blast
  qed
  show "\<exists>d'. DeleteRange (BoltLog B marshal unmarshal) d lo hi = Some (d', None) \<and>
      log_written dinv buckets bmap unmarshal d (bolt_lmap bmap unmarshal d |` (- {lo..hi})) d'" if "keeps_place B dinv bmap at" for lo hi
    using bolt_db.bolt_DeleteRange_ok [OF db that assms(2)] by (simp add: BoltLog_def)
qed

lemma bolt_store_contracts_witness:
  "bolt_limits limited_bolt (\<lambda>d. True) (\<lambda>d. UNIV) (\<lambda>d b. map_of (d b)) (\<lambda>d c b k. c = (b, k)) plain_marshal plain_unmarshal \<and>
   keeps_place limited_bolt (\<lambda>d. True) (\<lambda>d b. map_of (d b)) (\<lambda>d c b k. c = (b, k)) \<and>
   (\<exists>d'. StoreLogs (BoltLog limited_bolt plain_marshal plain_unmarshal) (\<lambda>b. []) [\<lparr>Index = 1, Term = 2, Data = ''x''\<rparr>] = (d', None) \<and>
      bolt_lmap (\<lambda>d b. map_of (d b)) plain_unmarshal d' 1 = Some \<lparr>Index = 1, Term = 2, Data = ''x''\<rparr>)"
proof -
  let ?e = "\<lparr>Index = 1, Term = 2, Data = ''x''\<rparr>"
  have "bolt_linv (\<lambda>d. True) (\<lambda>d. UNIV) (\<lambda>d b. map_of (d b)) plain_unmarshal (\<lambda>b. [])"
    by (simp add: bolt_linv_def bolt_sinv_def keys_ok_def)
  note writes = bolt_store_contracts [OF limited_db.bolt_limits_axioms this, THEN conjunct2, THEN conjunct2, THEN conjunct1, rule_format, of "[?e]"]
  have "storable plain_marshal ?e" by (simp add: storable_def plain_marshal_def)
  then obtain d' where "StoreLogs (BoltLog limited_bolt plain_marshal plain_unmarshal) (\<lambda>b. []) [?e] = (d', None)"
    "log_written (\<lambda>d. True) (\<lambda>d. UNIV) (\<lambda>d b. map_of (d b)) plain_unmarshal (\<lambda>b. [])
       (store_all (bolt_lmap (\<lambda>d b. map_of (d b)) plain_unmarshal (\<lambda>b. [])) [?e]) d'"
    using writes by auto
  then show ?thesis
    using limited_db.bolt_limits_axioms map_bolt_place [of "\<lambda>n. n \<le> max_value_size"]
    by (auto simp: log_written_def store_all_def limited_bolt_def)
qed

end
