(* ===== verification/Raft_Transport.thy ===== *)
theory Raft_Transport
  imports Raft_Laws
begin

text \<open>
  \<^verbatim>\<open>src/internal/raft/transport.go\<close> and the transport of \<^verbatim>\<open>src/internal/raft/inmem.go\<close>. Over TCP
  a message is a frame: a byte for its type, the length of the body as a big-endian \<^verbatim>\<open>uint32\<close>, the body.
  A connection is the stream of bytes in each direction; deadlines and broken connections are streams
  that end early. \<^verbatim>\<open>json.Marshal\<close> and \<^verbatim>\<open>json.Unmarshal\<close> of the four messages are a parameter, a
  record of type \<open>Wire\<close>.
\<close>

section \<open>Frames\<close>

definition msgAppendEntriesReq :: nat where "msgAppendEntriesReq = 0"
definition msgAppendEntriesResp :: nat where "msgAppendEntriesResp = 1"
definition msgRequestVoteReq :: nat where "msgRequestVoteReq = 2"
definition msgRequestVoteResp :: nat where "msgRequestVoteResp = 3"

lemmas msg_type_defs =
  msgAppendEntriesReq_def msgAppendEntriesResp_def msgRequestVoteReq_def msgRequestVoteResp_def

datatype transport_error =
    ErrDial | ErrMarshal | ErrHeader | ErrMsgType nat nat | ErrTooLarge nat | ErrPayload | ErrUnmarshal
  | ErrNotConnected string | ErrSendTimeout string | ErrResponseTimeout string | ErrResponse

text \<open>\<open>m_\<close> encodes and \<open>u_\<close> decodes; \<open>m_nil\<close> is the text of a \<^verbatim>\<open>nil\<close> response.\<close>

record Wire =
  m_AEReq :: "AppendEntriesRequest \<Rightarrow> bytes option"
  u_AEReq :: "bytes \<Rightarrow> AppendEntriesRequest option"
  m_AEResp :: "AppendEntriesResponse \<Rightarrow> bytes option"
  u_AEResp :: "bytes \<Rightarrow> AppendEntriesResponse option"
  m_RVReq :: "RequestVoteRequest \<Rightarrow> bytes option"
  u_RVReq :: "bytes \<Rightarrow> RequestVoteRequest option"
  m_RVResp :: "RequestVoteResponse \<Rightarrow> bytes option"
  u_RVResp :: "bytes \<Rightarrow> RequestVoteResponse option"
  m_nil :: "bytes"

text \<open>\<open>uint32(len(body))\<close> keeps the length modulo \<open>2 ^ 32\<close>, as the four digits of \<open>be_encode\<close> do.\<close>

definition sendMessage :: "nat \<Rightarrow> bytes option \<Rightarrow> transport_error + bytes" where
  "sendMessage msgType marshalled =
     (case marshalled of
        None \<Rightarrow> Inl ErrMarshal
      | Some body \<Rightarrow> Inr (char_of msgType # be_encode 4 (length body) @ body))"

text \<open>\<^verbatim>\<open>io.ReadFull\<close> into a buffer of \<open>n\<close> bytes: what it read and what is left of the stream.\<close>

definition ReadFull :: "nat \<Rightarrow> bytes \<Rightarrow> (bytes \<times> bytes) option" where
  "ReadFull n stream = (if n \<le> length stream then Some (take n stream, drop n stream) else None)"

definition maxPayload :: nat where
  "maxPayload = 10 * 1024 * 1024"

definition readMessage :: "nat \<Rightarrow> (bytes \<Rightarrow> 'a option) \<Rightarrow> bytes \<Rightarrow> transport_error + 'a" where
  "readMessage expectedType unmarshal stream =
     (case ReadFull 5 stream of
        None \<Rightarrow> Inl ErrHeader
      | Some (header, stream1) \<Rightarrow>
          let msgType = of_char (header ! 0); payloadLen = be_decode (drop 1 header) in
          if msgType \<noteq> expectedType then Inl (ErrMsgType expectedType msgType)
          else if maxPayload < payloadLen then Inl (ErrTooLarge payloadLen)
          else case ReadFull payloadLen stream1 of
              None \<Rightarrow> Inl ErrPayload
            | Some (payload, stream2) \<Rightarrow> (case unmarshal payload of None \<Rightarrow> Inl ErrUnmarshal | Some x \<Rightarrow> Inr x))"

section \<open>The serving side\<close>

text \<open>A round of \<open>handleConn\<close> up to the request it places on the channel; \<open>None\<close>: it returns.\<close>

definition readRequest :: "Wire \<Rightarrow> bytes \<Rightarrow> (Command \<times> bytes) option" where
  "readRequest W stream =
     (case ReadFull 5 stream of
        None \<Rightarrow> None
      | Some (header, stream1) \<Rightarrow>
          let msgType = of_char (header ! 0); payloadLen = be_decode (drop 1 header) in
          if maxPayload < payloadLen then None
          else case ReadFull payloadLen stream1 of
              None \<Rightarrow> None
            | Some (payload, stream2) \<Rightarrow>
                if msgType = msgAppendEntriesReq
                then map_option (\<lambda>req. (CmdAppendEntries req, stream2)) (u_AEReq W payload)
                else if msgType = msgRequestVoteReq
                then map_option (\<lambda>req. (CmdRequestVote req, stream2)) (u_RVReq W payload)
                else None)"

text \<open>The answer: the type follows the request, the body whatever \<open>rpcResp.Response\<close> is.\<close>

definition sendResponse :: "Wire \<Rightarrow> Command \<Rightarrow> RPCResponse \<Rightarrow> transport_error + bytes" where
  "sendResponse W cmd resp =
     sendMessage
       (case cmd of CmdAppendEntries req \<Rightarrow> msgAppendEntriesResp | _ \<Rightarrow> msgRequestVoteResp)
       (case resp of
          RespAppendEntries r \<Rightarrow> m_AEResp W r
        | RespRequestVote r \<Rightarrow> m_RVResp W r
        | RespError \<Rightarrow> Some (m_nil W))"

lemma ReadFull_length: "ReadFull n s = Some (x, s') \<Longrightarrow> length s' = length s - n \<and> n \<le> length s"
  by (auto simp: ReadFull_def split: if_splits)

lemma readRequest_shorter: "readRequest W stream = Some (cmd, stream') \<Longrightarrow> length stream' < length stream"
  by (auto simp: readRequest_def Let_def split: option.splits prod.splits if_splits dest!: ReadFull_length)

text \<open>
  \<open>handleConn\<close> serves the requests of a connection one after another. \<open>serve\<close> is the node behind the
  channel: its state after the request and its answer, \<open>None\<close> when none comes before the timeout or the
  shutdown. The value is the state and the bytes written.
\<close>

function handleConn :: "Wire \<Rightarrow> ('n \<Rightarrow> Command \<Rightarrow> 'n \<times> RPCResponse option) \<Rightarrow> 'n \<Rightarrow> bytes \<Rightarrow> 'n \<times> bytes" where
  "handleConn W serve n stream =
     (case readRequest W stream of
        None \<Rightarrow> (n, [])
      | Some (cmd, stream1) \<Rightarrow>
          (case serve n cmd of
             (n1, None) \<Rightarrow> (n1, [])
           | (n1, Some resp) \<Rightarrow>
               (case sendResponse W cmd resp of
                  Inl e \<Rightarrow> (n1, [])
                | Inr out \<Rightarrow> (case handleConn W serve n1 stream1 of (n2, outs) \<Rightarrow> (n2, out @ outs)))))"
  by pat_completeness auto
termination
  by (relation "measure (\<lambda>(W, serve, n, stream). length stream)") (auto dest: readRequest_shorter)

declare handleConn.simps [simp del]

section \<open>The calling side\<close>

text \<open>
  \<open>peer\<close> is the connection to the target: the bytes written to it are served and the bytes that come
  back are read; \<open>dialled\<close> tells whether it could be opened.
\<close>

definition SendAppendEntries :: "Wire \<Rightarrow> bool \<Rightarrow> ('n \<Rightarrow> bytes \<Rightarrow> 'n \<times> bytes) \<Rightarrow> 'n \<Rightarrow> AppendEntriesRequest \<Rightarrow>
    'n \<times> (transport_error + AppendEntriesResponse)" where
  "SendAppendEntries W dialled peer n req =
     (if \<not> dialled then (n, Inl ErrDial)
      else case sendMessage msgAppendEntriesReq (m_AEReq W req) of
          Inl e \<Rightarrow> (n, Inl e)
        | Inr msg \<Rightarrow> (case peer n msg of (n1, stream) \<Rightarrow> (n1, readMessage msgAppendEntriesResp (u_AEResp W) stream)))"

definition SendRequestVote :: "Wire \<Rightarrow> bool \<Rightarrow> ('n \<Rightarrow> bytes \<Rightarrow> 'n \<times> bytes) \<Rightarrow> 'n \<Rightarrow> RequestVoteRequest \<Rightarrow>
    'n \<times> (transport_error + RequestVoteResponse)" where
  "SendRequestVote W dialled peer n req =
     (if \<not> dialled then (n, Inl ErrDial)
      else case sendMessage msgRequestVoteReq (m_RVReq W req) of
          Inl e \<Rightarrow> (n, Inl e)
        | Inr msg \<Rightarrow> (case peer n msg of (n1, stream) \<Rightarrow> (n1, readMessage msgRequestVoteResp (u_RVResp W) stream)))"

text \<open>The node behind the channel.\<close>

definition serveNode :: "'l LogStore \<Rightarrow> 's StableStore \<Rightarrow> ('l, 's, 'f, 'r) RaftNode \<Rightarrow> Command \<Rightarrow>
    ('l, 's, 'f, 'r) RaftNode \<times> RPCResponse option" where
  "serveNode LS SS r cmd =
     (case handleRPC LS SS r cmd of None \<Rightarrow> (r, None) | Some (r', resp, reset) \<Rightarrow> (r', Some resp))"

section \<open>The transport's own state\<close>

record TCPTransport =
  tcp_localAddr :: string
  tcp_listening :: bool
  tcp_shutdownCh :: bool
  tcp_shutdown :: bool

definition NewTCPTransport :: "string \<Rightarrow> bool \<Rightarrow> TCPTransport option" where
  "NewTCPTransport bindAddr listens =
     (if listens then Some \<lparr>tcp_localAddr = bindAddr, tcp_listening = True, tcp_shutdownCh = False, tcp_shutdown = False\<rparr>
      else None)"

text \<open>Closing \<open>shutdownCh\<close> a second time would panic; \<open>shutdown\<close> guards it.\<close>

definition tcp_Shutdown :: "TCPTransport \<Rightarrow> TCPTransport outcome" where
  "tcp_Shutdown t =
     (if tcp_shutdown t then Ret t
      else if tcp_shutdownCh t then Panic
      else Ret (t\<lparr>tcp_shutdown := True, tcp_shutdownCh := True, tcp_listening := False\<rparr>))"

section \<open>The in-memory transport\<close>

record InmemTransport =
  inmem_localAddr :: string
  inmem_rpcCh :: "Command list"
  inmem_peers :: "(string \<times> nat) list"
  inmem_shutdown :: bool

text \<open>Transports are addresses into a list of all of them.\<close>

definition NewInmemTransport :: "string \<Rightarrow> InmemTransport" where
  "NewInmemTransport addr = \<lparr>inmem_localAddr = addr, inmem_rpcCh = [], inmem_peers = [], inmem_shutdown = False\<rparr>"

definition inmem_Connect :: "string \<Rightarrow> nat \<Rightarrow> InmemTransport \<Rightarrow> InmemTransport" where
  "inmem_Connect addr p t = t\<lparr>inmem_peers := AList.update addr p (inmem_peers t)\<rparr>"

definition inmem_Disconnect :: "string \<Rightarrow> InmemTransport \<Rightarrow> InmemTransport" where
  "inmem_Disconnect addr t = t\<lparr>inmem_peers := AList.delete addr (inmem_peers t)\<rparr>"

definition inmem_DisconnectAll :: "InmemTransport \<Rightarrow> InmemTransport" where
  "inmem_DisconnectAll t = t\<lparr>inmem_peers := []\<rparr>"

definition inmem_Shutdown :: "InmemTransport \<Rightarrow> InmemTransport" where
  "inmem_Shutdown t = t\<lparr>inmem_shutdown := True, inmem_peers := []\<rparr>"

text \<open>
  Sending: the request goes into the peer's channel, which holds 256, or the timer fires first (\<open>taken\<close>
  tells which, where both can happen). Receiving: the response, an error, or the timer (\<open>None\<close>); a
  response of another type fails the type assertion.
\<close>

definition inmem_send :: "InmemTransport list \<Rightarrow> nat \<Rightarrow> string \<Rightarrow> Command \<Rightarrow> bool \<Rightarrow>
    transport_error + InmemTransport list" where
  "inmem_send ts t target cmd taken =
     (case map_of (inmem_peers (ts ! t)) target of
        None \<Rightarrow> Inl (ErrNotConnected target)
      | Some p \<Rightarrow>
          if taken \<and> length (inmem_rpcCh (ts ! p)) < 256
          then Inr (ts[p := (ts ! p)\<lparr>inmem_rpcCh := inmem_rpcCh (ts ! p) @ [cmd]\<rparr>])
          else Inl (ErrSendTimeout target))"

definition inmem_AppendEntries_response :: "string \<Rightarrow> RPCResponse option \<Rightarrow>
    (transport_error + AppendEntriesResponse) outcome" where
  "inmem_AppendEntries_response target resp =
     (case resp of
        None \<Rightarrow> Ret (Inl (ErrResponseTimeout target))
      | Some RespError \<Rightarrow> Ret (Inl ErrResponse)
      | Some (RespAppendEntries r) \<Rightarrow> Ret (Inr r)
      | Some (RespRequestVote r) \<Rightarrow> Panic)"

definition inmem_RequestVote_response :: "string \<Rightarrow> RPCResponse option \<Rightarrow>
    (transport_error + RequestVoteResponse) outcome" where
  "inmem_RequestVote_response target resp =
     (case resp of
        None \<Rightarrow> Ret (Inl (ErrResponseTimeout target))
      | Some RespError \<Rightarrow> Ret (Inl ErrResponse)
      | Some (RespRequestVote r) \<Rightarrow> Ret (Inr r)
      | Some (RespAppendEntries r) \<Rightarrow> Panic)"

section \<open>Calls over TCP\<close>

definition frame :: "nat \<Rightarrow> bytes \<Rightarrow> bytes" where
  "frame mt body = char_of mt # be_encode 4 (length body) @ body"

lemma sendMessage_frame: "sendMessage mt (Some body) = Inr (frame mt body)"
  by (simp add: sendMessage_def frame_def)

text \<open>Reading a frame back.\<close>

lemma ReadFull_frame:
  "ReadFull 5 (frame mt body @ more_bytes) = Some (char_of mt # be_encode 4 (length body), body @ more_bytes)"
  by (simp add: ReadFull_def frame_def)

lemma ReadFull_body: "ReadFull (length body) (body @ more_bytes) = Some (body, more_bytes)"
  by (simp add: ReadFull_def)

lemma header_length: "length body < 2 ^ 32 \<Longrightarrow> be_decode (be_encode 4 (length body)) = length body"
  by (simp add: be_decode_encode)

lemma payload_bound: "n \<le> maxPayload \<Longrightarrow> n < 2 ^ 32"
  by (simp add: maxPayload_def)

lemma readMessage_frame:
  assumes "mt < 256" and "length body \<le> maxPayload" and "u body = Some x"
  shows "readMessage mt u (frame mt body @ more_bytes) = Inr x"
  using assms header_length [OF payload_bound [OF assms(2)]]
  by (simp add: readMessage_def ReadFull_frame ReadFull_body Let_def)

lemma readRequest_frame:
  assumes "length body < 2 ^ 32" and "mt < 256"
  shows "readRequest W (frame mt body @ more_bytes) =
    (if maxPayload < length body then None
     else if mt = msgAppendEntriesReq then map_option (\<lambda>req. (CmdAppendEntries req, more_bytes)) (u_AEReq W body)
     else if mt = msgRequestVoteReq then map_option (\<lambda>req. (CmdRequestVote req, more_bytes)) (u_RVReq W body)
     else None)"
  using assms header_length [OF assms(1)]
  by (simp add: readRequest_def ReadFull_frame ReadFull_body Let_def)

lemma handleConn_empty: "handleConn W serve n [] = (n, [])"
  by (subst handleConn.simps) (simp add: readRequest_def ReadFull_def)

text \<open>One request on a fresh connection.\<close>

lemma handleConn_one:
  assumes "readRequest W msg = Some (cmd, [])" and "serve n cmd = (n1, Some resp)" and "sendResponse W cmd resp = Inr out"
  shows "handleConn W serve n msg = (n1, out)"
  using assms by (subst handleConn.simps) (simp add: handleConn_empty)

lemma sendResponse_simps:
  "sendResponse W (CmdAppendEntries req) (RespAppendEntries ar) = sendMessage msgAppendEntriesResp (m_AEResp W ar)"
  "sendResponse W (CmdRequestVote rq) (RespRequestVote vr) = sendMessage msgRequestVoteResp (m_RVResp W vr)"
  by (simp_all add: sendResponse_def)

lemma SendRequestVote_delivers:
  assumes "m_RVReq W req = Some body" "u_RVReq W body = Some req" "length body \<le> maxPayload"
    and "handleRequestVote LS SS r req = (r', resp, b)"
    and "m_RVResp W resp = Some out" "u_RVResp W out = Some resp" "length out \<le> maxPayload"
  shows "SendRequestVote W True (handleConn W (serveNode LS SS)) r req = (r', Inr resp)"
proof -
  have "readRequest W (frame msgRequestVoteReq body) = Some (CmdRequestVote req, [])"
    using assms(2,3) readRequest_frame [OF payload_bound [OF assms(3)], of msgRequestVoteReq W "[]"]
    by (simp add: msg_type_defs)
  moreover have "serveNode LS SS r (CmdRequestVote req) = (r', Some (RespRequestVote resp))"
    using assms(4) by (simp add: serveNode_def handleRPC_def)
  ultimately have "handleConn W (serveNode LS SS) r (frame msgRequestVoteReq body) = (r', frame msgRequestVoteResp out)"
    using assms(5) handleConn_one [of W _ "CmdRequestVote req" "serveNode LS SS" r r' "RespRequestVote resp"]
    by (simp add: sendResponse_simps sendMessage_frame)
  then show ?thesis
    using assms(1,6,7) readMessage_frame [of msgRequestVoteResp out "u_RVResp W" resp "[]"]
    by (simp add: SendRequestVote_def sendMessage_frame msg_type_defs)
qed

text \<open>
  C35. A call over TCP. When the encodings are undone by the decoders, \<open>SendAppendEntries\<close> runs the handler of
  the target exactly once and returns its answer, whatever the framing does in between; unless the
  encoded request is longer than ten megabytes: \<open>sendMessage\<close> sends it all the same, the target drops
  the connection without serving it, and the call fails.
\<close>

theorem SendAppendEntries_outcome:
  assumes "m_AEReq W req = Some body" "u_AEReq W body = Some req" "length body < 2 ^ 32"
    and "handleAppendEntries LS SS r req = Some (r', resp, b)"
    and "m_AEResp W resp = Some out" "u_AEResp W out = Some resp" "length out \<le> maxPayload"
  shows "SendAppendEntries W True (handleConn W (serveNode LS SS)) r req =
    (if length body \<le> 10 * 1024 * 1024 then (r', Inr resp) else (r, Inl ErrHeader))"
proof (cases "length body \<le> maxPayload")
  case True
  have "readRequest W (frame msgAppendEntriesReq body) = Some (CmdAppendEntries req, [])"
    using assms(2) True readRequest_frame [OF assms(3), of msgAppendEntriesReq W "[]"] by (simp add: msg_type_defs)
  moreover have "serveNode LS SS r (CmdAppendEntries req) = (r', Some (RespAppendEntries resp))"
    using assms(4) by (simp add: serveNode_def handleRPC_def)
  ultimately have "handleConn W (serveNode LS SS) r (frame msgAppendEntriesReq body) = (r', frame msgAppendEntriesResp out)"
    using assms(5) handleConn_one [of W _ "CmdAppendEntries req" "serveNode LS SS" r r' "RespAppendEntries resp"]
    by (simp add: sendResponse_simps sendMessage_frame)
  then show ?thesis
    using assms(1,6,7) True readMessage_frame [of msgAppendEntriesResp out "u_AEResp W" resp "[]"]
    by (simp add: SendAppendEntries_def sendMessage_frame msg_type_defs maxPayload_def)
next
  case False
  have "readRequest W (frame msgAppendEntriesReq body) = None"
    using False readRequest_frame [OF assms(3), of msgAppendEntriesReq W "[]"] by (simp add: msg_type_defs)
  then have "handleConn W (serveNode LS SS) r (frame msgAppendEntriesReq body) = (r, [])"
    by (subst handleConn.simps) simp
  then show ?thesis
    using assms(1) False by (simp add: SendAppendEntries_def sendMessage_frame readMessage_def ReadFull_def maxPayload_def)
qed

text \<open>An encoding that only knows one request and one answer.\<close>

definition sample_wire :: "AppendEntriesRequest \<Rightarrow> AppendEntriesResponse \<Rightarrow> Wire" where
  "sample_wire req resp =
     \<lparr>m_AEReq = \<lambda>_. Some ''q'', u_AEReq = \<lambda>_. Some req, m_AEResp = \<lambda>_. Some ''a'', u_AEResp = \<lambda>_. Some resp,
      m_RVReq = \<lambda>_. None, u_RVReq = \<lambda>_. None, m_RVResp = \<lambda>_. None, u_RVResp = \<lambda>_. None, m_nil = ''null''\<rparr>"

lemma SendAppendEntries_outcome_witness:
  "let resp = \<lparr>aer_Term = 1, Success = True, ConflictTerm = 0, ConflictIndex = 0\<rparr>;
       W = sample_wire sample_heartbeat resp
   in SendAppendEntries W True (handleConn W (serveNode InmemLog InmemStable)) sample_candidate sample_heartbeat =
        (sample_convert, Inr resp)"
proof -
  let ?resp = "\<lparr>aer_Term = 1, Success = True, ConflictTerm = 0, ConflictIndex = 0\<rparr>"
  have 1: "handleAppendEntries InmemLog InmemStable sample_candidate sample_heartbeat = Some (sample_convert, ?resp, True)"
    by (simp add: sample_convert_def handleAppendEntries_def consistencyCheck_def Let_def acceptLeader_term
        sample_candidate_fields sample_heartbeat_def)
  show ?thesis
    using SendAppendEntries_outcome [of "sample_wire sample_heartbeat ?resp" sample_heartbeat "''q''" InmemLog InmemStable
        sample_candidate sample_convert ?resp True "''a''"] 1
    by (simp add: sample_wire_def maxPayload_def Let_def)
qed

end
