(* ===== verification/OT_Diff.thy ===== *)
theory OT_Diff
  imports OT_Cursor "HOL-Library.Sublist"
begin

text \<open>
  \<^verbatim>\<open>src/internal/ot/diff.go\<close>: the changeset between two texts, by the table of the longest common
  subsequences of their runes. The conversions between strings and runes are those of Go: UTF-8,
  with an invalid byte read as the replacement rune.
\<close>

section \<open>Runes\<close>

text \<open>\<^verbatim>\<open>utf8.DecodeRuneInString\<close> on a string that is not empty: the rune and its width.\<close>

definition cont :: "nat \<Rightarrow> bool" where
  "cont b \<longleftrightarrow> 0x80 \<le> b \<and> b \<le> 0xBF"

definition decodeRune :: "string \<Rightarrow> nat \<times> nat" where
  "decodeRune s =
     (let b0 = of_char (s ! 0); b1 = of_char (s ! 1); b2 = of_char (s ! 2); b3 = of_char (s ! 3) in
      if b0 < 0x80 then (b0, 1)
      else if 0xC2 \<le> b0 \<and> b0 \<le> 0xDF \<and> 2 \<le> length s \<and> cont b1
      then ((b0 - 0xC0) * 64 + (b1 - 0x80), 2)
      else if 0xE0 \<le> b0 \<and> b0 \<le> 0xEF \<and> 3 \<le> length s \<and>
        (if b0 = 0xE0 then 0xA0 else 0x80) \<le> b1 \<and> b1 \<le> (if b0 = 0xED then 0x9F else 0xBF) \<and> cont b2
      then ((b0 - 0xE0) * 4096 + (b1 - 0x80) * 64 + (b2 - 0x80), 3)
      else if 0xF0 \<le> b0 \<and> b0 \<le> 0xF4 \<and> 4 \<le> length s \<and>
        (if b0 = 0xF0 then 0x90 else 0x80) \<le> b1 \<and> b1 \<le> (if b0 = 0xF4 then 0x8F else 0xBF) \<and> cont b2 \<and> cont b3
      then ((b0 - 0xF0) * 262144 + (b1 - 0x80) * 4096 + (b2 - 0x80) * 64 + (b3 - 0x80), 4)
      else (0xFFFD, 1))"

lemma decodeRune_width: "0 < snd (decodeRune s)"
  by (simp add: decodeRune_def Let_def)

text \<open>\<^verbatim>\<open>[]rune(s)\<close>\<close>

function runes :: "string \<Rightarrow> nat list" where
  "runes s = (if s = [] then [] else fst (decodeRune s) # runes (drop (snd (decodeRune s)) s))"
  by pat_completeness auto
termination
  by (relation "measure length") (auto simp: decodeRune_width)

declare runes.simps [simp del]

text \<open>\<^verbatim>\<open>string(r)\<close>\<close>

definition valid_rune :: "nat \<Rightarrow> bool" where
  "valid_rune r \<longleftrightarrow> r < 0xD800 \<or> 0xDFFF < r \<and> r \<le> 0x10FFFF"

definition encodeRune :: "nat \<Rightarrow> string" where
  "encodeRune r =
     map char_of
       (if r < 0x80 then [r]
        else if r < 0x800 then [0xC0 + r div 64, 0x80 + r mod 64]
        else if \<not> valid_rune r then [0xEF, 0xBF, 0xBD]
        else if r < 0x10000 then [0xE0 + r div 4096, 0x80 + r div 64 mod 64, 0x80 + r mod 64]
        else [0xF0 + r div 262144, 0x80 + r div 4096 mod 64, 0x80 + r div 64 mod 64, 0x80 + r mod 64])"

abbreviation encode :: "nat list \<Rightarrow> string" where
  "encode rs \<equiv> concat (map encodeRune rs)"

text \<open>A string that survives the conversion to runes and back.\<close>

definition valid_utf8 :: "string \<Rightarrow> bool" where
  "valid_utf8 s \<longleftrightarrow> encode (runes s) = s"

lemma decodeRune_2:
  assumes "2 \<le> a" "a < 32" "b < 64"
  shows "decodeRune (encodeRune (a * 64 + b) @ s) = (a * 64 + b, length (encodeRune (a * 64 + b)))"
  using assms by (simp add: decodeRune_def encodeRune_def cont_def Let_def)

lemma sextets:
  assumes "c < (64 :: nat)"
  shows "(q * 64 + c) mod 64 = c" and "(q * 64 + c) div 64 = q" and "(q * 64 + c) div 4096 = q div 64"
    and "(q * 64 + c) div 262144 = q div 4096"
  using assms div_mult2_eq [of "q * 64 + c" 64 64] div_mult2_eq [of "q * 64 + c" 64 4096] by simp_all

lemma decodeRune_3:
  assumes r: "r = (a * 64 + b) * 64 + c" and "a < 16" "b < 64" "c < 64" and "a = 0 \<Longrightarrow> 32 \<le> b" and "a = 13 \<Longrightarrow> b < 32"
  shows "decodeRune (encodeRune r @ s) = (r, length (encodeRune r))"
proof -
  have "0x800 \<le> r" unfolding r using assms(5) by (cases "a = 0") auto
  moreover have "r < 0x10000" unfolding r using assms(2-4) by simp
  moreover have "valid_rune r"
    unfolding r using assms(2-6) by (cases "a < 13"; cases "a = 13") (auto simp: valid_rune_def)
  moreover have "r mod 64 = c" "r div 64 mod 64 = b" "r div 4096 = a"
    by (simp_all only: r sextets [OF \<open>b < 64\<close>] sextets [OF \<open>c < 64\<close>])
  ultimately have "encodeRune r = map char_of [0xE0 + a, 0x80 + b, 0x80 + c]" by (simp add: encodeRune_def)
  then show ?thesis using assms by (auto simp: decodeRune_def cont_def Let_def)
qed

lemma decodeRune_4:
  assumes r: "r = ((a * 64 + b) * 64 + c) * 64 + d" and "a < 5" "b < 64" "c < 64" "d < 64"
    and "a = 0 \<Longrightarrow> 16 \<le> b" and "a = 4 \<Longrightarrow> b < 16"
  shows "decodeRune (encodeRune r @ s) = (r, length (encodeRune r))"
proof -
  have "0x10000 \<le> r" unfolding r using assms(6) by (cases "a = 0") auto
  moreover have "valid_rune r"
    using calculation assms(2-7) unfolding r by (cases "a = 4") (auto simp: valid_rune_def)
  moreover have "r mod 64 = d" "r div 64 mod 64 = c" "r div 4096 mod 64 = b" "r div 262144 = a"
    by (simp_all only: r sextets [OF \<open>b < 64\<close>] sextets [OF \<open>c < 64\<close>] sextets [OF \<open>d < 64\<close>])
  ultimately have "encodeRune r = map char_of [0xF0 + a, 0x80 + b, 0x80 + c, 0x80 + d]" by (simp add: encodeRune_def)
  then show ?thesis using assms by (auto simp: decodeRune_def cont_def Let_def)
qed

lemma decodeRune_encodeRune:
  assumes "valid_rune r"
  shows "decodeRune (encodeRune r @ s) = (r, length (encodeRune r))"
proof -
  consider "r < 0x80" | "0x80 \<le> r" "r < 0x800" | "0x800 \<le> r" "r < 0x10000" | "0x10000 \<le> r" by linarith
  then show ?thesis
  proof cases
    case 1
    then show ?thesis by (simp add: decodeRune_def encodeRune_def)
  next
    case 2
    then have "2 \<le> r div 64" "r div 64 < 32" "r mod 64 < 64" by simp_all
    from decodeRune_2 [OF this, of s] show ?thesis by simp
  next
    case 3
    define a b c where "a = r div 64 div 64" and "b = r div 64 mod 64" and "c = r mod 64"
    then have r: "r = (a * 64 + b) * 64 + c" and "b < 64" "c < 64" by simp_all
    moreover from this 3 have "a < 16" "a = 0 \<Longrightarrow> 32 \<le> b" by auto
    moreover have "a = 13 \<Longrightarrow> b < 32" using assms r \<open>b < 64\<close> \<open>c < 64\<close> by (auto simp: valid_rune_def)
    ultimately show ?thesis by (intro decodeRune_3)
  next
    case 4
    define a b c d where "a = r div 64 div 64 div 64" and "b = r div 64 div 64 mod 64" and "c = r div 64 mod 64"
      and "d = r mod 64"
    then have r: "r = ((a * 64 + b) * 64 + c) * 64 + d" and "b < 64" "c < 64" "d < 64" by simp_all
    moreover from this 4 assms have "a < 5" "a = 0 \<Longrightarrow> 16 \<le> b" "a = 4 \<Longrightarrow> b < 16" by (auto simp: valid_rune_def)
    ultimately show ?thesis by (intro decodeRune_4)
  qed
qed

lemma encodeRune_nonempty [simp]: "encodeRune r \<noteq> []"
  by (simp add: encodeRune_def)

lemma runes_encode: "list_all valid_rune rs \<Longrightarrow> runes (encode rs) = rs"
  by (induction rs) (simp_all add: runes.simps [of "_ @ _"] runes.simps [of "[]"] decodeRune_encodeRune)

text \<open>The strings that survive are the encodings of valid runes; those of plain ASCII are among them.\<close>

lemma encode_valid: "list_all valid_rune rs \<Longrightarrow> valid_utf8 (encode rs)"
  by (simp add: valid_utf8_def runes_encode)

lemma ascii_valid: "list_all (\<lambda>c. (of_char c :: nat) < 0x80) s \<Longrightarrow> valid_utf8 s"
  by (induction s) (simp_all add: valid_utf8_def runes.simps [of "_ # _"] runes.simps [of "[]"] decodeRune_def encodeRune_def)

section \<open>The table\<close>

definition lcs_cell :: "nat list \<Rightarrow> nat list \<Rightarrow> nat list list \<Rightarrow> nat \<Rightarrow> nat \<Rightarrow> nat" where
  "lcs_cell old nw dp i j =
     (if old ! (i - 1) = nw ! (j - 1) then dp ! (i - 1) ! (j - 1) + 1
      else if dp ! (i - 1) ! j > dp ! i ! (j - 1) then dp ! (i - 1) ! j
      else dp ! i ! (j - 1))"

definition set_cell :: "nat list \<Rightarrow> nat list \<Rightarrow> nat \<Rightarrow> nat list list \<Rightarrow> nat \<Rightarrow> nat list list" where
  "set_cell old nw i dp j = dp[i := (dp ! i)[j := lcs_cell old nw dp i j]]"

definition lcs_row :: "nat list \<Rightarrow> nat list \<Rightarrow> nat list list \<Rightarrow> nat \<Rightarrow> nat list list" where
  "lcs_row old nw dp i = foldl (set_cell old nw i) dp [1..<length nw + 1]"

definition lcs_table :: "nat list \<Rightarrow> nat list \<Rightarrow> nat list list" where
  "lcs_table old nw =
     foldl (lcs_row old nw) (replicate (length old + 1) (replicate (length nw + 1) 0)) [1..<length old + 1]"

section \<open>The segments\<close>

text \<open>The kinds \<open>=\<close>, \<open>+\<close> and \<open>-\<close>.\<close>

datatype seg = Same nat | Added nat | Removed nat

function backtrack :: "nat list \<Rightarrow> nat list \<Rightarrow> nat list list \<Rightarrow> nat \<Rightarrow> nat \<Rightarrow> seg list \<Rightarrow> seg list" where
  "backtrack old nw dp i j segs =
     (if i > 0 \<or> j > 0
      then if i > 0 \<and> j > 0 \<and> old ! (i - 1) = nw ! (j - 1)
           then backtrack old nw dp (i - 1) (j - 1) (segs @ [Same (old ! (i - 1))])
           else if j > 0 \<and> (i = 0 \<or> dp ! i ! (j - 1) \<ge> dp ! (i - 1) ! j)
           then backtrack old nw dp i (j - 1) (segs @ [Added (nw ! (j - 1))])
           else backtrack old nw dp (i - 1) j (segs @ [Removed (old ! (i - 1))])
      else segs)"
  by pat_completeness auto
termination
  by (relation "measure (\<lambda>(old, nw, dp, i, j, segs). i + j)") auto

declare backtrack.simps [simp del]

definition diff_segs :: "nat list \<Rightarrow> nat list \<Rightarrow> seg list" where
  "diff_segs old nw = rev (backtrack old nw (lcs_table old nw) (length old) (length nw) [])"

definition seg_op :: "seg \<Rightarrow> Op" where
  "seg_op s =
     (case s of
        Same r \<Rightarrow> Retain (len (encodeRune r))
      | Added r \<Rightarrow> Insert (encodeRune r)
      | Removed r \<Rightarrow> Delete (len (encodeRune r)))"

definition DiffToChangeset :: "string \<Rightarrow> string \<Rightarrow> Changeset" where
  "DiffToChangeset oldText newText =
     \<lparr>OldLen = len oldText, NewLen = len newText,
      Ops = foldl (\<lambda>ops s. addOp ops (seg_op s)) [] (diff_segs (runes oldText) (runes newText))\<rparr>"

section \<open>The segments spell out both texts\<close>

fun old_runes :: "seg list \<Rightarrow> nat list" where
  "old_runes [] = []"
| "old_runes (Same r # ss) = r # old_runes ss"
| "old_runes (Added r # ss) = old_runes ss"
| "old_runes (Removed r # ss) = r # old_runes ss"

fun new_runes :: "seg list \<Rightarrow> nat list" where
  "new_runes [] = []"
| "new_runes (Same r # ss) = r # new_runes ss"
| "new_runes (Added r # ss) = r # new_runes ss"
| "new_runes (Removed r # ss) = new_runes ss"

lemma old_runes_append [simp]: "old_runes (ss @ ts) = old_runes ss @ old_runes ts"
  by (induction ss rule: old_runes.induct) auto

lemma new_runes_append [simp]: "new_runes (ss @ ts) = new_runes ss @ new_runes ts"
  by (induction ss rule: new_runes.induct) auto

lemma take_snoc: "0 < i \<Longrightarrow> i \<le> length xs \<Longrightarrow> take i xs = take (i - 1) xs @ [xs ! (i - 1)]"
  by (cases i) (auto simp: take_Suc_conv_app_nth)

lemma backtrack_spells:
  "i \<le> length old \<Longrightarrow> j \<le> length nw \<Longrightarrow> \<exists>ss. backtrack old nw dp i j segs = segs @ ss \<and>
     old_runes (rev ss) = take i old \<and> new_runes (rev ss) = take j nw"
proof (induction old nw dp i j segs rule: backtrack.induct)
  case (1 old nw dp i j segs)
  consider (same) "i > 0" "j > 0" "old ! (i - 1) = nw ! (j - 1)"
    | (added) "j > 0" "\<not> (i > 0 \<and> j > 0 \<and> old ! (i - 1) = nw ! (j - 1))" "i = 0 \<or> dp ! i ! (j - 1) \<ge> dp ! (i - 1) ! j"
    | (removed) "i > 0" "\<not> (i > 0 \<and> j > 0 \<and> old ! (i - 1) = nw ! (j - 1))"
        "\<not> (j > 0 \<and> (i = 0 \<or> dp ! i ! (j - 1) \<ge> dp ! (i - 1) ! j))"
    | (ended) "i = 0" "j = 0"
    by blast
  then show ?case
  proof cases
    case same
    then obtain ss where "backtrack old nw dp (i - 1) (j - 1) (segs @ [Same (old ! (i - 1))]) =
        segs @ [Same (old ! (i - 1))] @ ss" "old_runes (rev ss) = take (i - 1) old" "new_runes (rev ss) = take (j - 1) nw"
      using "1.IH"(1) "1.prems" by fastforce
    then show ?thesis
      using same "1.prems" take_snoc [of i old] take_snoc [of j nw]
      by (subst backtrack.simps) (auto intro!: exI [of _ "Same (old ! (i - 1)) # ss"])
  next
    case added
    then obtain ss where "backtrack old nw dp i (j - 1) (segs @ [Added (nw ! (j - 1))]) =
        segs @ [Added (nw ! (j - 1))] @ ss" "old_runes (rev ss) = take i old" "new_runes (rev ss) = take (j - 1) nw"
      using "1.IH"(2) "1.prems" by fastforce
    then show ?thesis
      using added "1.prems" take_snoc [of j nw]
      by (subst backtrack.simps) (auto intro!: exI [of _ "Added (nw ! (j - 1)) # ss"])
  next
    case removed
    then obtain ss where "backtrack old nw dp (i - 1) j (segs @ [Removed (old ! (i - 1))]) =
        segs @ [Removed (old ! (i - 1))] @ ss" "old_runes (rev ss) = take (i - 1) old" "new_runes (rev ss) = take j nw"
      using "1.IH"(3) "1.prems" by fastforce
    then show ?thesis
      using removed "1.prems" take_snoc [of i old]
      by (subst backtrack.simps) (auto intro!: exI [of _ "Removed (old ! (i - 1)) # ss"])
  next
    case ended
    then show ?thesis by (subst backtrack.simps) simp
  qed
qed

lemma diff_segs_spell: "old_runes (diff_segs old nw) = old" "new_runes (diff_segs old nw) = nw"
  using backtrack_spells [of "length old" old "length nw" nw "lcs_table old nw" "[]"] by (auto simp: diff_segs_def)

section \<open>The operations carry out the segments\<close>

lemma segs_lengths:
  "src_len (map (edit_of \<circ> seg_op) ss) = length (encode (old_runes ss))"
  "dst_len (map (edit_of \<circ> seg_op) ss) = length (encode (new_runes ss))"
  by (induction ss rule: old_runes.induct) (auto simp: seg_op_def)

lemma segs_exec: "exec (map (edit_of \<circ> seg_op) ss) (encode (old_runes ss)) = encode (new_runes ss)"
  by (induction ss rule: old_runes.induct) (auto simp: seg_op_def)

lemma seg_op_proper: "proper_op (seg_op s)"
  by (cases s) (simp_all add: seg_op_def)

lemma foldl_addOp:
  "list_all proper_op rs \<Longrightarrow> int (src_len (edits rs) + src_len (map (edit_of \<circ> seg_op) ss)) < 2 ^ 63 \<Longrightarrow>
   edits (foldl (\<lambda>ops s. addOp ops (seg_op s)) rs ss) = add_edits (edits rs) (map (edit_of \<circ> seg_op) ss) \<and>
   list_all proper_op (foldl (\<lambda>ops s. addOp ops (seg_op s)) rs ss)"
proof (induction ss arbitrary: rs)
  case (Cons s ss)
  have len: "src_len (map (edit_of \<circ> seg_op) (s # ss)) =
      src_len [edit_of (seg_op s)] + src_len (map (edit_of \<circ> seg_op) ss)"
    using src_len_append [of "[edit_of (seg_op s)]" "map (edit_of \<circ> seg_op) ss"] by simp
  note a = addOp_edits [OF Cons.prems(1) seg_op_proper [of s]]
  have bound: "int (src_len (edits rs)) + (int (src_len [edit_of (seg_op s)]) + int (src_len (map (edit_of \<circ> seg_op) ss))) < 2 ^ 63"
    using Cons.prems(2) unfolding len by simp
  then have "int (src_len (edits (rs @ [seg_op s]))) < 2 ^ 63" by simp
  note b = a(1) [OF this] a(2) [OF this]
  have "int (src_len (edits (addOp rs (seg_op s))) + src_len (map (edit_of \<circ> seg_op) ss)) < 2 ^ 63"
    using bound by (simp add: b(1))
  from Cons.IH [OF b(2) this] show ?case by (simp add: b(1))
qed simp

lemma DiffToChangeset_wf:
  assumes "valid_utf8 old" and "valid_utf8 nw" and "len old < 2 ^ 63" and "len nw < 2 ^ 63"
  shows "wf_changeset (DiffToChangeset old nw)" and "exec (script (DiffToChangeset old nw)) old = nw"
    and "merged (script (DiffToChangeset old nw))"
proof -
  let ?ss = "diff_segs (runes old) (runes nw)"
  have bytes: "encode (old_runes ?ss) = old" "encode (new_runes ?ss) = nw"
    using assms(1,2) by (simp_all add: diff_segs_spell valid_utf8_def)
  have "int (src_len (edits []) + src_len (map (edit_of \<circ> seg_op) ?ss)) < 2 ^ 63"
    using assms(3) by (simp add: segs_lengths bytes)
  from foldl_addOp [OF _ this]
  have f: "script (DiffToChangeset old nw) = add_edits [] (map (edit_of \<circ> seg_op) ?ss)"
    "list_all proper_op (Ops (DiffToChangeset old nw))"
    by (simp_all add: script_def DiffToChangeset_def)
  then show "wf_changeset (DiffToChangeset old nw)"
    using assms(3,4) by (simp add: wf_changeset_def segs_lengths bytes) (simp add: DiffToChangeset_def)
  show "exec (script (DiffToChangeset old nw)) old = nw"
    using segs_exec [of ?ss] by (simp add: f(1) exec_add_edits bytes)
  show "merged (script (DiffToChangeset old nw))" unfolding f(1) by (rule merged_add_edits) simp
qed

lemma diff_segs_single: "diff_segs [r] [r] = [Same r]"
  by (simp add: diff_segs_def backtrack.simps)

lemma runes_invalid: "runes [char_of (0xFF :: nat)] = [0xFFFD]"
  by (simp add: runes.simps decodeRune_def Let_def)

lemma DiffToChangeset_invalid:
  "DiffToChangeset [char_of (0xFF :: nat)] [char_of (0xFF :: nat)] = \<lparr>OldLen = 1, NewLen = 1, Ops = [Retain 3]\<rparr>"
  by (simp add: DiffToChangeset_def runes_invalid diff_segs_single addOp_def seg_op_def encodeRune_def valid_rune_def)

text \<open>
  C36. The diff of two texts is right: for texts that are valid UTF-8, \<open>DiffToChangeset\<close> returns a
  changeset that \<open>Validate\<close> accepts, in which no two neighbouring operations are of one kind, and which
  \<open>ApplyChangeset\<close> turns the old text into the new one with. For a text that is not valid UTF-8 the
  lengths of the operations are those of the replacement rune, and even the diff of a single such byte
  with itself is rejected.
\<close>

theorem DiffToChangeset_correct:
  assumes "valid_utf8 old" and "valid_utf8 nw" and "len old < 2 ^ 63" and "len nw < 2 ^ 63"
  shows "Validate (DiffToChangeset old nw) = None \<and> merged (script (DiffToChangeset old nw)) \<and>
    ApplyChangeset old (DiffToChangeset old nw) = Ret (Inr nw) \<and>
    Validate (DiffToChangeset [char_of (0xFF :: nat)] [char_of (0xFF :: nat)]) = Some (ConsumesWrong 3 1)"
proof -
  note wf = DiffToChangeset_wf [OF assms]
  have "OldLen (DiffToChangeset old nw) = len old" by (simp add: DiffToChangeset_def)
  then have "ApplyChangeset old (DiffToChangeset old nw) = Ret (Inr nw)"
    using ApplyChangeset_exec [OF wf(1)] wf(2) by simp
  moreover have "Validate (DiffToChangeset [char_of (0xFF :: nat)] [char_of (0xFF :: nat)]) = Some (ConsumesWrong 3 1)"
    unfolding DiffToChangeset_invalid by code_simp
  ultimately show ?thesis using wf_Validate [OF wf(1)] wf(3) by blast
qed

theorem DiffToChangeset_correct_witness:
  "Validate (DiffToChangeset ''abc'' ''axc'') = None \<and> ApplyChangeset ''abc'' (DiffToChangeset ''abc'' ''axc'') = Ret (Inr ''axc'')"
proof -
  have "valid_utf8 ''abc''" "valid_utf8 ''axc''" by (simp_all add: ascii_valid)
  then show ?thesis using DiffToChangeset_correct [of "''abc''" "''axc''"] by simp
qed

section \<open>The diff keeps a longest common subsequence\<close>

text \<open>The recurrence of the table.\<close>

fun lcs_len :: "nat list \<Rightarrow> nat list \<Rightarrow> nat \<Rightarrow> nat \<Rightarrow> nat" where
  "lcs_len xs ys 0 j = 0"
| "lcs_len xs ys (Suc i) 0 = 0"
| "lcs_len xs ys (Suc i) (Suc j) =
     (if xs ! i = ys ! j then lcs_len xs ys i j + 1 else max (lcs_len xs ys i (Suc j)) (lcs_len xs ys (Suc i) j))"

lemma lcs_len_0 [simp]: "lcs_len xs ys i 0 = 0"
  by (cases i) simp_all

text \<open>A table of the right shape, whose cells in \<open>P\<close> are computed and whose others are still 0.\<close>

definition table_upto :: "nat list \<Rightarrow> nat list \<Rightarrow> (nat \<Rightarrow> nat \<Rightarrow> bool) \<Rightarrow> nat list list \<Rightarrow> bool" where
  "table_upto xs ys P dp \<longleftrightarrow>
     length dp = length xs + 1 \<and> (\<forall>a \<le> length xs. length (dp ! a) = length ys + 1) \<and>
     (\<forall>a \<le> length xs. \<forall>b \<le> length ys. dp ! a ! b = (if P a b then lcs_len xs ys a b else 0))"

lemma table_upto_set_cell:
  assumes t: "table_upto xs ys (\<lambda>a b. a < Suc i \<or> a = Suc i \<and> b \<le> j) dp" and i: "i < length xs" and j: "j < length ys"
  shows "table_upto xs ys (\<lambda>a b. a < Suc i \<or> a = Suc i \<and> b \<le> Suc j) (set_cell xs ys (Suc i) dp (Suc j))"
proof -
  have cell: "\<And>a b. a \<le> length xs \<Longrightarrow> b \<le> length ys \<Longrightarrow>
      dp ! a ! b = (if a < Suc i \<or> a = Suc i \<and> b \<le> j then lcs_len xs ys a b else 0)"
    and shape: "length dp = length xs + 1" "\<And>a. a \<le> length xs \<Longrightarrow> length (dp ! a) = length ys + 1"
    using t by (auto simp: table_upto_def)
  have "lcs_cell xs ys dp (Suc i) (Suc j) = lcs_len xs ys (Suc i) (Suc j)"
    using i j by (simp add: lcs_cell_def cell max_def)
  then show ?thesis
    using i j by (auto simp: table_upto_def set_cell_def shape cell nth_list_update le_Suc_eq simp del: lcs_len.simps)
qed

lemma table_upto_row:
  assumes "table_upto xs ys (\<lambda>a b. a < Suc i) dp" and "i < length xs" and "k \<le> length ys"
  shows "table_upto xs ys (\<lambda>a b. a < Suc i \<or> a = Suc i \<and> b \<le> k) (foldl (set_cell xs ys (Suc i)) dp [1..<k + 1])"
  using assms(3)
proof (induction k)
  case 0
  have "(if a < Suc i then lcs_len xs ys a b else 0) = (if a < Suc i \<or> a = Suc i \<and> b \<le> 0 then lcs_len xs ys a b else 0)" for a b
    by auto
  with assms(1) show ?case by (simp add: table_upto_def)
next
  case (Suc k)
  then show ?case using table_upto_set_cell [OF Suc.IH assms(2)] by simp
qed

lemma table_upto_rows:
  "k \<le> length xs \<Longrightarrow> table_upto xs ys (\<lambda>a b. a < Suc k)
     (foldl (lcs_row xs ys) (replicate (length xs + 1) (replicate (length ys + 1) 0)) [1..<k + 1])"
proof (induction k)
  case 0
  show ?case by (simp add: table_upto_def nth_Cons' less_Suc_eq_le)
next
  case (Suc k)
  then have "k < length xs" by simp
  have up: "table_upto xs ys (\<lambda>a b. a < Suc k \<or> a = Suc k \<and> b \<le> length ys) dp \<Longrightarrow> table_upto xs ys (\<lambda>a b. a < Suc (Suc k)) dp" for dp
    by (auto simp: table_upto_def less_Suc_eq)
  show ?case
    using up [OF table_upto_row [OF Suc.IH \<open>k < length xs\<close> order.refl]] Suc.prems by (simp add: lcs_row_def)
qed

lemma lcs_table_cells:
  "a \<le> length xs \<Longrightarrow> b \<le> length ys \<Longrightarrow> lcs_table xs ys ! a ! b = lcs_len xs ys a b"
  using table_upto_rows [of "length xs" xs ys] by (auto simp: table_upto_def lcs_table_def)

text \<open>The number of runes that a list of segments keeps.\<close>

fun kept :: "seg list \<Rightarrow> nat" where
  "kept [] = 0"
| "kept (Same r # ss) = kept ss + 1"
| "kept (Added r # ss) = kept ss"
| "kept (Removed r # ss) = kept ss"

lemma kept_append [simp]: "kept (ss @ ts) = kept ss + kept ts"
  by (induction ss rule: kept.induct) auto

lemma kept_rev [simp]: "kept (rev ss) = kept ss"
  by (induction ss rule: kept.induct) auto

lemma backtrack_kept:
  "i \<le> length old \<Longrightarrow> j \<le> length nw \<Longrightarrow>
   kept (backtrack old nw (lcs_table old nw) i j segs) = kept segs + lcs_len old nw i j"
proof (induction "i + j" arbitrary: i j segs rule: less_induct)
  case less
  show ?case
  proof (cases i; cases j)
    fix i' j' assume "i = Suc i'" "j = Suc j'"
    with less show ?thesis by (subst backtrack.simps) (simp add: lcs_table_cells max_def)
  next
    fix i' assume "i = Suc i'" "j = 0"
    with less show ?thesis by (subst backtrack.simps) simp
  next
    fix j' assume "i = 0" "j = Suc j'"
    with less show ?thesis by (subst backtrack.simps) simp
  qed (subst backtrack.simps, simp)
qed

lemma subseq_snoc: "subseq zs (xs @ [x]) \<longleftrightarrow> subseq zs xs \<or> (\<exists>ws. zs = ws @ [x] \<and> subseq ws xs)"
proof
  assume "subseq zs (xs @ [x])"
  then obtain us vs where "zs = us @ vs" "subseq us xs" "subseq vs [x]" by (auto simp: subseq_append_iff)
  then show "subseq zs xs \<or> (\<exists>ws. zs = ws @ [x] \<and> subseq ws xs)"
    by (cases vs) (auto simp: subseq_Cons' split: if_splits)
qed (auto intro: subseq_rev_drop_many)

lemma common_subseq_le:
  "i \<le> length xs \<Longrightarrow> j \<le> length ys \<Longrightarrow> subseq zs (take i xs) \<Longrightarrow> subseq zs (take j ys) \<Longrightarrow> length zs \<le> lcs_len xs ys i j"
proof (induction xs ys i j arbitrary: zs rule: lcs_len.induct)
  case (3 xs ys i j)
  have snoc: "take (Suc i) xs = take i xs @ [xs ! i]" "take (Suc j) ys = take j ys @ [ys ! j]"
    using "3.prems" by (simp_all add: take_Suc_conv_app_nth)
  have pre: "subseq ws vs" if "subseq (ws @ [x]) vs" for ws vs :: "nat list" and x
    using that subseq_order.trans [OF subseq_rev_drop_many [of ws ws "[x]"]] by auto
  show ?case
  proof (cases "xs ! i = ys ! j")
    case True
    have "length zs \<le> lcs_len xs ys i j + 1"
    proof (cases "subseq zs (take i xs) \<and> subseq zs (take j ys)")
      case True
      then show ?thesis using "3.IH"(1) [OF \<open>xs ! i = ys ! j\<close>] "3.prems" by fastforce
    next
      case False
      then obtain ws where "zs = ws @ [xs ! i]" "subseq ws (take i xs)" "subseq ws (take j ys)"
        using "3.prems"(3,4) \<open>xs ! i = ys ! j\<close> pre unfolding snoc subseq_snoc by (metis append1_eq_conv)
      then show ?thesis using "3.IH"(1) [OF \<open>xs ! i = ys ! j\<close>, of ws] "3.prems" by simp
    qed
    then show ?thesis using True by simp
  next
    case False
    then have "subseq zs (take i xs) \<or> subseq zs (take j ys)"
      using "3.prems"(3,4) unfolding snoc subseq_snoc by auto
    then show ?thesis
      using "3.IH"(2) [OF False, of zs] "3.IH"(3) [OF False, of zs] "3.prems" False by fastforce
  qed
qed auto

lemma diff_segs_kept: "kept (diff_segs xs ys) = lcs_len xs ys (length xs) (length ys)"
  by (simp add: diff_segs_def backtrack_kept)

text \<open>The runes that are kept are a common subsequence of both texts.\<close>

fun kept_runes :: "seg list \<Rightarrow> nat list" where
  "kept_runes [] = []"
| "kept_runes (Same r # ss) = r # kept_runes ss"
| "kept_runes (Added r # ss) = kept_runes ss"
| "kept_runes (Removed r # ss) = kept_runes ss"

lemma kept_runes_subseq:
  "subseq (kept_runes ss) (old_runes ss)" "subseq (kept_runes ss) (new_runes ss)" "length (kept_runes ss) = kept ss"
  by (induction ss rule: kept_runes.induct) auto

text \<open>
  C37. The diff is minimal: the table and the way back through it are equivalent to the textbook
  specification. The segments spell out both texts, the runes they keep are a common subsequence of
  the two, and no common subsequence is longer, so that no edit between the two texts deletes or
  inserts fewer runes.
\<close>

theorem diff_segs_longest:
  "old_runes (diff_segs old nw) = old \<and> new_runes (diff_segs old nw) = nw \<and>
   subseq (kept_runes (diff_segs old nw)) old \<and> subseq (kept_runes (diff_segs old nw)) nw \<and>
   length (kept_runes (diff_segs old nw)) = Max (length ` {zs. subseq zs old \<and> subseq zs nw})"
proof -
  let ?ks = "kept_runes (diff_segs old nw)"
  have common: "?ks \<in> {zs. subseq zs old \<and> subseq zs nw}"
    using kept_runes_subseq [of "diff_segs old nw"] by (simp add: diff_segs_spell)
  have fin: "finite {zs. subseq zs old \<and> subseq zs nw}"
    by (rule finite_subset [of _ "set (subseqs old)"]) auto
  have "length zs \<le> length ?ks" if "subseq zs old" "subseq zs nw" for zs
    using common_subseq_le [of "length old" old "length nw" nw zs] that by (simp add: kept_runes_subseq diff_segs_kept)
  then have "Max (length ` {zs. subseq zs old \<and> subseq zs nw}) = length ?ks"
    using common fin by (intro Max_eqI) auto
  then show ?thesis using common by (simp add: diff_segs_spell)
qed

end
