(* ===== verification/Server_Main.thy ===== *)
theory Server_Main
  imports Raft_Runs Server_Runs Bolt_Store Raft_Transport OT_Diff
begin

text \<open>
  \<^verbatim>\<open>src/internal/server/cluster.go\<close> and \<^verbatim>\<open>src/cmd/server/main.go\<close>: the configuration of a node
  from its flags and its configuration file, the start of store, transport and Raft node with what is
  closed again when one of them fails, the shutdown, the proposal of the initial text, and the exit of the program. The
  operating system (creating a directory, joining a path, listening on an address) and
  \<^verbatim>\<open>time.ParseDuration\<close> are parameters.
\<close>

section \<open>Setting up Raft\<close>

record RaftConfig =
  rc_NodeID :: string
  rc_BindAddr :: string
  rc_DataDir :: string
  rc_Peers :: "string list"
  rc_Bootstrap :: bool
  rc_InitialText :: string
  rc_ElectionTimeoutMin :: int
  rc_ElectionTimeoutMax :: int
  rc_HeartbeatInterval :: int

text \<open>What the code asks of the operating system: whether the directory could be made, whether the address could be bound.\<close>

record OS =
  os_MkdirAll :: "string \<Rightarrow> bool"
  filepath_Join :: "string \<Rightarrow> string \<Rightarrow> string"
  net_Listen :: "string \<Rightarrow> bool"

text \<open>
  \<^verbatim>\<open>RaftNode\<close> of the package \<^verbatim>\<open>server\<close>. The database is one file with two buckets; the node
  holds it once as its log store and once as its stable store, which is the same thing because neither
  store touches the bucket of the other (theory \<open>Bolt_Store\<close>). \<open>cn_open\<close> says that it is not closed.
\<close>

record 'd ClusterNode =
  cn_Raft :: "('d, 'd, DocumentStateMachine, ApplyResult option) Process"
  cn_Transport :: TCPTransport
  cn_open :: bool

datatype setup_error = ErrMkdir | ErrBolt store_error | ErrTransport | ErrNewRaft new_error

text \<open>The files and sockets that are open while \<open>SetupRaft\<close> runs.\<close>

record Held =
  held_store :: bool
  held_transport :: "TCPTransport option"

definition closeStore :: "Held \<Rightarrow> Held" where
  "closeStore h = h\<lparr>held_store := db_Close (held_store h)\<rparr>"

definition orDefault :: "int \<Rightarrow> int \<Rightarrow> int" where
  "orDefault v d = (if v = 0 then d else v)"

definition raftConfig :: "RaftConfig \<Rightarrow> Config" where
  "raftConfig cfg =
     \<lparr>ServerID = rc_BindAddr cfg,
      Peers = map (\<lambda>p. \<lparr>ID = p, Address = p\<rparr>) (rc_Peers cfg),
      HeartbeatInterval = orDefault (rc_HeartbeatInterval cfg) (HeartbeatInterval DefaultConfig),
      ElectionTimeoutMin = orDefault (rc_ElectionTimeoutMin cfg) (ElectionTimeoutMin DefaultConfig),
      ElectionTimeoutMax = orDefault (rc_ElectionTimeoutMax cfg) (ElectionTimeoutMax DefaultConfig),
      has_LogStore = True, has_StableStore = True, has_FSM = True\<rparr>"

definition SetupRaft :: "('d, 'c) Bolt \<Rightarrow> OS \<Rightarrow> RaftConfig \<Rightarrow> DocumentStateMachine \<Rightarrow>
    ((setup_error + 'd ClusterNode) \<times> Held) outcome" where
  "SetupRaft B os cfg stateMachine =
     (let h = \<lparr>held_store = False, held_transport = None\<rparr> in
      if \<not> os_MkdirAll os (rc_DataDir cfg) then Ret (Inl ErrMkdir, h)
      else case NewBoltStore B (filepath_Join os (rc_DataDir cfg) ''raft.db'') of
          (Inl err, opened) \<Rightarrow> Ret (Inl (ErrBolt err), h\<lparr>held_store := opened\<rparr>)
        | (Inr boltStore, opened) \<Rightarrow>
            let h = h\<lparr>held_store := opened\<rparr> in
            (case NewTCPTransport (rc_BindAddr cfg) (net_Listen os (rc_BindAddr cfg)) of
               None \<Rightarrow> Ret (Inl ErrTransport, closeStore h)
             | Some transport \<Rightarrow>
                 let h = h\<lparr>held_transport := Some transport\<rparr> in
                 bind_outcome (NewRaftNode (BoltStable B) (raftConfig cfg) boltStore boltStore stateMachine) (\<lambda>x.
                   case x of
                     Inl err \<Rightarrow>
                       bind_outcome (tcp_Shutdown transport) (\<lambda>t.
                         Ret (Inl (ErrNewRaft err), (closeStore h)\<lparr>held_transport := Some t\<rparr>))
                   | Inr r \<Rightarrow> Ret (Inr \<lparr>cn_Raft = start r, cn_Transport = transport, cn_open = True\<rparr>, h))))"

definition cluster_Shutdown :: "'d ClusterNode \<Rightarrow> 'd ClusterNode outcome" where
  "cluster_Shutdown n =
     (let n1 = n\<lparr>cn_Raft := (cn_Raft n)\<lparr>node := node_Shutdown (node (cn_Raft n))\<rparr>\<rparr> in
      bind_outcome (tcp_Shutdown (cn_Transport n1)) (\<lambda>t. Ret (n1\<lparr>cn_Transport := t, cn_open := False\<rparr>)))"

definition cluster_IsLeader :: "'d ClusterNode \<Rightarrow> bool" where
  "cluster_IsLeader n = node_IsLeader (node (cn_Raft n))"

definition cluster_LeaderAddr :: "'d ClusterNode \<Rightarrow> string" where
  "cluster_LeaderAddr n = node_LeaderAddr (node (cn_Raft n))"

section \<open>The peer list\<close>

text \<open>\<^verbatim>\<open>strings.Split(s, ",")\<close>\<close>

fun splitComma :: "string \<Rightarrow> string list" where
  "splitComma [] = [[]]"
| "splitComma (c # s) =
     (if c = CHR '','' then [] # splitComma s
      else case splitComma s of w # ws \<Rightarrow> (c # w) # ws | [] \<Rightarrow> [[c]])"

text \<open>\<^verbatim>\<open>unicode.IsSpace\<close>\<close>

definition isSpace :: "nat \<Rightarrow> bool" where
  "isSpace r \<longleftrightarrow>
     0x09 \<le> r \<and> r \<le> 0x0D \<or> r = 0x20 \<or> r = 0x85 \<or> r = 0xA0 \<or> r = 0x1680 \<or> 0x2000 \<le> r \<and> r \<le> 0x200A \<or>
     r = 0x2028 \<or> r = 0x2029 \<or> r = 0x202F \<or> r = 0x205F \<or> r = 0x3000"

text \<open>
  \<^verbatim>\<open>utf8.DecodeLastRuneInString\<close> on a string that is not empty: the nearest byte that can start
  a rune, at most four bytes from the end.
\<close>

definition decodeLastRune :: "string \<Rightarrow> nat \<times> nat" where
  "decodeLastRune s =
     (let n = length s; b = of_char (s ! (n - 1)) in
      if b < 0x80 then (b, 1)
      else let st = (case find (\<lambda>k. k \<le> n \<and> \<not> cont (of_char (s ! (n - k)))) [2, 3, 4] of Some k \<Rightarrow> n - k | None \<Rightarrow> n - 5);
               d = decodeRune (drop st s)
           in if st + snd d \<noteq> n then (0xFFFD, 1) else d)"

lemma decodeLastRune_width: "0 < snd (decodeLastRune s)"
  by (simp add: decodeLastRune_def Let_def decodeRune_width)

text \<open>\<^verbatim>\<open>strings.TrimSpace\<close>\<close>

function trimLeft :: "string \<Rightarrow> string" where
  "trimLeft s =
     (if s \<noteq> [] \<and> isSpace (fst (decodeRune s)) then trimLeft (drop (snd (decodeRune s)) s) else s)"
  by pat_completeness auto
termination
  by (relation "measure length") (auto simp: decodeRune_width)

function trimRight :: "string \<Rightarrow> string" where
  "trimRight s =
     (if s \<noteq> [] \<and> isSpace (fst (decodeLastRune s))
      then trimRight (take (length s - snd (decodeLastRune s)) s) else s)"
  by pat_completeness auto
termination
  by (relation "measure length") (auto simp: decodeLastRune_width)

declare trimLeft.simps [simp del] trimRight.simps [simp del]

definition TrimSpace :: "string \<Rightarrow> string" where
  "TrimSpace s = trimRight (trimLeft s)"

definition parsePeers :: "string \<Rightarrow> string list" where
  "parsePeers peersFlag = map TrimSpace (splitComma peersFlag)"

section \<open>Flags and configuration file\<close>

record Flags =
  f_nodeID :: string
  f_grpcAddr :: string
  f_wsAddr :: string
  f_dataDir :: string
  f_peers :: string
  f_bootstrap :: bool
  f_initText :: string
  f_electionMin :: int
  f_electionMax :: int
  f_heartbeat :: int

definition defaultFlags :: Flags where
  "defaultFlags =
     \<lparr>f_nodeID = ''node-1'', f_grpcAddr = ''localhost:12000'', f_wsAddr = ''localhost:8080'',
      f_dataDir = ''./data/node-1'', f_peers = ''localhost:12000'', f_bootstrap = False, f_initText = [],
      f_electionMin = 0, f_electionMax = 0, f_heartbeat = 0\<rparr>"

text \<open>\<^verbatim>\<open>Config\<close> of \<^verbatim>\<open>main\<close>.\<close>

record FileConfig =
  fc_NodeID :: string
  fc_GRPCAddr :: string
  fc_WSAddr :: string
  fc_DataDir :: string
  fc_Peers :: "string list"
  fc_Bootstrap :: bool
  fc_ElectionMin :: string
  fc_ElectionMax :: string
  fc_Heartbeat :: string

definition ifSet :: "string \<Rightarrow> string \<Rightarrow> string" where
  "ifSet v flag = (if v \<noteq> [] then v else flag)"

definition ifParsed :: "(string \<Rightarrow> int option) \<Rightarrow> string \<Rightarrow> int \<Rightarrow> int" where
  "ifParsed parse v flag = (if v \<noteq> [] then (case parse v of None \<Rightarrow> flag | Some d \<Rightarrow> d) else flag)"

definition fromFile :: "(string \<Rightarrow> int option) \<Rightarrow> FileConfig \<Rightarrow> Flags \<Rightarrow> Flags" where
  "fromFile parse cfg fl =
     fl\<lparr>f_nodeID := ifSet (fc_NodeID cfg) (f_nodeID fl),
        f_grpcAddr := ifSet (fc_GRPCAddr cfg) (f_grpcAddr fl),
        f_wsAddr := ifSet (fc_WSAddr cfg) (f_wsAddr fl),
        f_dataDir := ifSet (fc_DataDir cfg) (f_dataDir fl),
        f_bootstrap := (if fc_Bootstrap cfg then True else f_bootstrap fl),
        f_electionMin := ifParsed parse (fc_ElectionMin cfg) (f_electionMin fl),
        f_electionMax := ifParsed parse (fc_ElectionMax cfg) (f_electionMax fl),
        f_heartbeat := ifParsed parse (fc_Heartbeat cfg) (f_heartbeat fl)\<rparr>"

text \<open>
  The configuration file: none is read without a path; one that cannot be opened or decoded ends the
  program. Opening and decoding are parameters.
\<close>

datatype config_error = ErrOpenConfig | ErrDecodeConfig

definition readConfig :: "(string \<Rightarrow> bytes option) \<Rightarrow> (bytes \<Rightarrow> FileConfig option) \<Rightarrow> string \<Rightarrow> config_error + FileConfig option" where
  "readConfig openFile decode configPath =
     (if configPath \<noteq> []
      then case openFile configPath of
          None \<Rightarrow> Inl ErrOpenConfig
        | Some file \<Rightarrow> (case decode file of None \<Rightarrow> Inl ErrDecodeConfig | Some cfg \<Rightarrow> Inr (Some cfg))
      else Inr None)"


definition withFile :: "(string \<Rightarrow> int option) \<Rightarrow> FileConfig option \<Rightarrow> Flags \<Rightarrow> Flags" where
  "withFile parse file fl = (case file of None \<Rightarrow> fl | Some cfg \<Rightarrow> fromFile parse cfg fl)"

definition peerList :: "FileConfig option \<Rightarrow> Flags \<Rightarrow> string list" where
  "peerList file fl =
     (let ps = (case file of None \<Rightarrow> [] | Some cfg \<Rightarrow> if length (fc_Peers cfg) > 0 then fc_Peers cfg else [])
      in if length ps = 0 then parsePeers (f_peers fl) else ps)"

definition mainConfig :: "FileConfig option \<Rightarrow> Flags \<Rightarrow> RaftConfig" where
  "mainConfig file fl =
     \<lparr>rc_NodeID = f_nodeID fl, rc_BindAddr = f_grpcAddr fl, rc_DataDir = f_dataDir fl,
      rc_Peers = peerList file fl, rc_Bootstrap = f_bootstrap fl, rc_InitialText = [],
      rc_ElectionTimeoutMin = f_electionMin fl, rc_ElectionTimeoutMax = f_electionMax fl,
      rc_HeartbeatInterval = f_heartbeat fl\<rparr>"

section \<open>The server\<close>

text \<open>
  The start of \<^verbatim>\<open>main\<close>: \<open>Inl\<close> is the exit with an error. \<open>NewNode\<close> takes over the Raft node.
\<close>

definition startServer :: "('d, 'c) Bolt \<Rightarrow> OS \<Rightarrow> (string \<Rightarrow> int option) \<Rightarrow> FileConfig option \<Rightarrow> Flags \<Rightarrow>
    (setup_error + 'd ClusterNode \<times> ('d, 'd) Node) outcome" where
  "startServer B os parse file flags =
     (let fl = withFile parse file flags in
      bind_outcome (SetupRaft B os (mainConfig file fl) (NewDocumentStateMachine [])) (\<lambda>(x, h).
        Ret (case x of
            Inl err \<Rightarrow> Inl err
          | Inr rn \<Rightarrow> Inr (rn, NewNode (cn_Raft rn) (f_wsAddr fl)))))"

definition bootstrapEntry :: "string \<Rightarrow> RaftLogEntry" where
  "bootstrapEntry initText =
     \<lparr>entry_ClientID = ''system-bootstrap'', entry_SubmissionID = 1, entry_BaseRev = 0,
      entry_Changeset = MakeInsert 0 0 initText\<rparr>"

text \<open>
  One poll of the goroutine that proposes the initial text: \<open>None\<close> while it waits, otherwise the node
  after its last action.
\<close>

definition proposeInitialText :: "(RaftLogEntry \<Rightarrow> bytes option) \<Rightarrow> Flags \<Rightarrow> applyWay \<Rightarrow>
    ('l, 's, 'f, 'r) RaftNode \<Rightarrow> ('l, 's, 'f, 'r) RaftNode option" where
  "proposeInitialText marshal fl way r =
     (if f_bootstrap fl \<and> f_initText fl \<noteq> []
      then if \<not> node_IsLeader r then None
           else case marshal (bootstrapEntry (f_initText fl)) of
               None \<Rightarrow> Some r
             | Some data \<Rightarrow> Some (fst (node_Apply r data way))
      else Some r)"

text \<open>The fields that \<^verbatim>\<open>/health\<close> prints.\<close>

definition health :: "string \<Rightarrow> ('l, 's) Node \<Rightarrow> string \<times> string \<times> int" where
  "health nodeID S =
     (nodeID, if node_IsLeader (raftNode S) then ''leader'' else ''follower'', HeadRev (sm S))"

text \<open>
  The end of \<^verbatim>\<open>main\<close>, with its exit code. On a signal the HTTP server is shut down, whatever comes of it, and
  the deferred \<open>Shutdown\<close> runs; when the HTTP server cannot listen, its goroutine calls \<^verbatim>\<open>os.Exit\<close>, which runs
  no deferred call. \<^verbatim>\<open>log.Fatalf\<close> and a failed start exit with 1 too.
\<close>

datatype ending = Signalled | ListenFailed

definition endServer :: "ending \<Rightarrow> 'd ClusterNode \<Rightarrow> (int \<times> 'd ClusterNode) outcome" where
  "endServer e rn =
     (case e of
        Signalled \<Rightarrow> bind_outcome (cluster_Shutdown rn) (\<lambda>n. Ret (0, n))
      | ListenFailed \<Rightarrow> Ret (1, rn))"

text \<open>
  The program from its arguments to its exit; \<open>life\<close> stands for what the Raft process does between start and
  end.
\<close>

definition main :: "('d, 'c) Bolt \<Rightarrow> OS \<Rightarrow> (string \<Rightarrow> int option) \<Rightarrow> (string \<Rightarrow> bytes option) \<Rightarrow> (bytes \<Rightarrow> FileConfig option) \<Rightarrow>
    string \<Rightarrow> Flags \<Rightarrow> (('d, 'd, DocumentStateMachine, ApplyResult option) Process \<Rightarrow> ('d, 'd, DocumentStateMachine, ApplyResult option) Process) \<Rightarrow>
    ending \<Rightarrow> (int \<times> 'd ClusterNode option) outcome" where
  "main B os parse openFile decode configPath flags life e =
     (case readConfig openFile decode configPath of
        Inl err \<Rightarrow> Ret (1, None)
      | Inr file \<Rightarrow>
          bind_outcome (startServer B os parse file flags) (\<lambda>x.
            case x of
              Inl err \<Rightarrow> Ret (1, None)
            | Inr (rn, S) \<Rightarrow>
                bind_outcome (endServer e (rn\<lparr>cn_Raft := life (cn_Raft rn)\<rparr>)) (\<lambda>(code, n). Ret (code, Some n))))"

section \<open>Start and shutdown\<close>

lemma bind_outcome_returns: "\<exists>x. m = Ret x \<Longrightarrow> (\<And>x. \<exists>y. k x = Ret y) \<Longrightarrow> \<exists>y. bind_outcome m k = Ret y"
  by auto

lemma bolt_restore_returns: "\<exists>x. restoreState (BoltStable B) r = Ret x"
proof -
  have "\<exists>p. bolt_GetUint64 B d k = Ret p" for d k
    by (auto simp: bolt_GetUint64_def bytesToUint64_def Uint64_def split: prod.splits option.splits)
  then obtain p where "bolt_GetUint64 B (stableStore r) KeyCurrentTerm = Ret p" by blast
  then show ?thesis
    by (auto simp: restoreState_def BoltStable_def split: prod.splits option.splits)
qed

lemma NewRaftNode_bolt_returns: "\<exists>x. NewRaftNode (BoltStable B) c l d f = Ret x"
  by (auto simp: NewRaftNode_def split: option.split sum.split
      intro!: bind_outcome_returns [OF bolt_restore_returns])

lemma NewRaftNode_started:
  "NewRaftNode SS c l s f = Ret (Inr r) \<Longrightarrow> state r = Follower \<and> node_fsm r = f \<and> config r = c \<and> validate c = None"
  by (auto simp: NewRaftNode_def restoreState_def bind_outcome_eq_Ret split: option.splits sum.splits prod.splits)

lemma SetupRaft_started:
  assumes "SetupRaft B os cfg fsm = Ret (Inr n, h)"
  shows "\<exists>r d. NewRaftNode (BoltStable B) (raftConfig cfg) d d fsm = Ret (Inr r) \<and> cn_Raft n = start r"
    and "\<not> tcp_shutdownCh (cn_Transport n) \<and> \<not> tcp_shutdown (cn_Transport n)"
proof -
  have mk: "os_MkdirAll os (rc_DataDir cfg)"
    using assms by (cases "os_MkdirAll os (rc_DataDir cfg)") (simp_all add: SetupRaft_def)
  obtain y o1 where y: "NewBoltStore B (filepath_Join os (rc_DataDir cfg) ''raft.db'') = (y, o1)" by fastforce
  then obtain d where d: "NewBoltStore B (filepath_Join os (rc_DataDir cfg) ''raft.db'') = (Inr d, o1)"
    using assms mk by (cases y) (simp_all add: SetupRaft_def)
  have l: "net_Listen os (rc_BindAddr cfg)"
    using assms mk d by (cases "net_Listen os (rc_BindAddr cfg)") (simp_all add: SetupRaft_def NewTCPTransport_def)
  obtain x :: "new_error + ('a, 'a, DocumentStateMachine, ApplyResult option) RaftNode"
    where x: "NewRaftNode (BoltStable B) (raftConfig cfg) d d fsm = Ret x"
    by (rule exE [OF NewRaftNode_bolt_returns])
  show "\<exists>r d. NewRaftNode (BoltStable B) (raftConfig cfg) d d fsm = Ret (Inr r) \<and> cn_Raft n = start r"
    using assms mk d l x by (cases x) (auto simp: SetupRaft_def NewTCPTransport_def bind_outcome_eq_Ret)
  show "\<not> tcp_shutdownCh (cn_Transport n) \<and> \<not> tcp_shutdown (cn_Transport n)"
    using assms mk d l x by (cases x) (auto simp: SetupRaft_def NewTCPTransport_def bind_outcome_eq_Ret)
qed

lemma SetupRaft_returns: "\<exists>x h. SetupRaft B os cfg fsm = Ret (x, h)"
proof -
  obtain y o1 where y: "NewBoltStore B (filepath_Join os (rc_DataDir cfg) ''raft.db'') = (y, o1)" by fastforce
  show ?thesis
  proof (cases y)
    case (Inl err)
    then show ?thesis using y by (simp add: SetupRaft_def Let_def)
  next
    case (Inr d)
    obtain x :: "new_error + ('a, 'a, DocumentStateMachine, ApplyResult option) RaftNode"
      where "NewRaftNode (BoltStable B) (raftConfig cfg) d d fsm = Ret x"
      by (rule exE [OF NewRaftNode_bolt_returns])
    then show ?thesis using Inr y by (cases x) (auto simp: SetupRaft_def NewTCPTransport_def tcp_Shutdown_def Let_def)
  qed
qed



lemma node_Shutdown_shut:
  fixes r :: "('a, 'b, 'c, 'd) RaftNode"
  shows "shutdownCh (node_Shutdown r)" "node_Shutdown (node_Shutdown r) = node_Shutdown r"
proof -
  have fold: "shutdownCh (foldl (\<lambda>q p. respondFuture p (Some e) None q) r ps) = shutdownCh r" for e ps and r :: "('a, 'b, 'c, 'd) RaftNode"
    by (induction ps arbitrary: r) simp_all
  show s: "shutdownCh (node_Shutdown r)"
    using fold [of ErrShutdown "r\<lparr>shutdownCh := True, state := Follower\<rparr>"] by (simp add: node_Shutdown_def failAll_def)
  show "node_Shutdown (node_Shutdown r) = node_Shutdown r" by (subst node_Shutdown_def) (simp add: s)
qed


text \<open>
  The program ends without a panic, and with exit code 0 exactly when it was started and then signalled. Then
  the Raft node is shut down, the listener and the store are closed, and nothing was written to the
  store on the way out: log, term and vote are those of the Raft process at its end.
\<close>

lemma node_Shutdown_stores:
  fixes r :: "('a, 'b, 'c, 'd) RaftNode"
  shows "logStore (node_Shutdown r) = logStore r \<and> stableStore (node_Shutdown r) = stableStore r"
proof -
  have "logStore (foldl (\<lambda>q p. respondFuture p (Some e) None q) r ps) = logStore r \<and>
      stableStore (foldl (\<lambda>q p. respondFuture p (Some e) None q) r ps) = stableStore r" for e ps and r :: "('a, 'b, 'c, 'd) RaftNode"
    by (induction ps arbitrary: r) simp_all
  then show ?thesis by (simp add: node_Shutdown_def failAll_def)
qed

lemma endServer_signalled:
  assumes "SetupRaft B os cfg fsm = Ret (Inr n, h)"
  shows "\<exists>n'. endServer Signalled (n\<lparr>cn_Raft := P\<rparr>) = Ret (0, n') \<and> \<not> cn_open n' \<and> \<not> tcp_listening (cn_Transport n') \<and>
    shutdownCh (node (cn_Raft n')) \<and> logStore (node (cn_Raft n')) = logStore (node P) \<and> stableStore (node (cn_Raft n')) = stableStore (node P)"
  using SetupRaft_started(2) [OF assms]
  by (simp add: endServer_def cluster_Shutdown_def tcp_Shutdown_def node_Shutdown_shut node_Shutdown_stores)

lemma main_outcome:
  "\<exists>code res. main B os parse openFile decode path flags life e = Ret (code, res) \<and> code \<in> {0, 1} \<and>
    (code = 0 \<longleftrightarrow> e = Signalled \<and> res \<noteq> None) \<and>
    (code = 0 \<longrightarrow> (\<exists>n f rn S. readConfig openFile decode path = Inr f \<and> startServer B os parse f flags = Ret (Inr (rn, S)) \<and>
       res = Some n \<and> \<not> cn_open n \<and> \<not> tcp_listening (cn_Transport n) \<and> shutdownCh (node (cn_Raft n)) \<and>
       logStore (node (cn_Raft n)) = logStore (node (life (cn_Raft rn))) \<and>
       stableStore (node (cn_Raft n)) = stableStore (node (life (cn_Raft rn)))))"
proof (cases "readConfig openFile decode path")
  case (Inl err)
  then show ?thesis by (simp add: main_def)
next
  case read: (Inr f)
  obtain x h where up: "SetupRaft B os (mainConfig f (withFile parse f flags)) (NewDocumentStateMachine []) = Ret (x, h)"
    using SetupRaft_returns by blast
  show ?thesis
  proof (cases x)
    case (Inl err)
    then show ?thesis using read up by (simp add: main_def startServer_def Let_def)
  next
    case (Inr rn)
    then show ?thesis
      using read up endServer_signalled [OF up [unfolded Inr], of "life (cn_Raft rn)"]
      by (cases e) (auto simp: main_def startServer_def Let_def endServer_def)
  qed
qed

section \<open>Peer lists are read back\<close>

text \<open>The characters of a host, a port and the colon between them, and a peer with blanks around it.\<close>

definition addr_char :: "char \<Rightarrow> bool" where
  "addr_char c \<longleftrightarrow> 0x20 < (of_char c :: nat) \<and> (of_char c :: nat) < 0x7F \<and> c \<noteq> CHR '',''"

definition padded :: "nat \<times> string \<times> nat \<Rightarrow> string" where
  "padded x = (case x of (a, p, b) \<Rightarrow> replicate a CHR '' '' @ p @ replicate b CHR '' '')"

fun joinComma :: "string list \<Rightarrow> string" where
  "joinComma [] = []"
| "joinComma [w] = w"
| "joinComma (w # ws) = w @ CHR '','' # joinComma ws"

lemma splitComma_word: "CHR '','' \<notin> set w \<Longrightarrow> splitComma w = [w]"
  by (induction w) auto

lemma splitComma_append: "CHR '','' \<notin> set w \<Longrightarrow> splitComma (w @ CHR '','' # s) = w # splitComma s"
  by (induction w) auto

lemma splitComma_joinComma: "ws \<noteq> [] \<Longrightarrow> list_all (\<lambda>w. CHR '','' \<notin> set w) ws \<Longrightarrow> splitComma (joinComma ws) = ws"
  by (induction ws rule: joinComma.induct) (simp_all add: splitComma_word splitComma_append)

lemma trimLeft_blanks: "trimLeft (replicate a CHR '' '' @ s) = trimLeft s"
  by (induction a) (simp_all add: trimLeft.simps [of "CHR '' '' # _"] decodeRune_def isSpace_def)

lemma decodeLastRune_ascii: "(of_char c :: nat) < 0x80 \<Longrightarrow> decodeLastRune (s @ [c]) = (of_char c, 1)"
  by (simp add: decodeLastRune_def nth_append)

lemma trimRight_blank: "trimRight (s @ [CHR '' '']) = trimRight s"
  by (subst trimRight.simps) (simp add: decodeLastRune_ascii isSpace_def)

lemma trimRight_blanks: "trimRight (s @ replicate b CHR '' '') = trimRight s"
proof (induction b)
  case (Suc b)
  then show ?case using trimRight_blank [of "s @ replicate b CHR '' ''"] by (simp add: replicate_append_same)
qed simp

lemma TrimSpace_padded:
  assumes "list_all addr_char p"
  shows "TrimSpace (padded (a, p, b)) = p"
proof (cases p)
  case Nil
  then show ?thesis
    using trimLeft_blanks [of "a + b" "[]"] trimLeft.simps [of "[]"] trimRight.simps [of "[]"]
    by (simp add: padded_def TrimSpace_def replicate_add)
next
  case (Cons c s)
  have "trimLeft (p @ replicate b CHR '' '') = p @ replicate b CHR '' ''"
    using assms by (subst trimLeft.simps) (auto simp: Cons addr_char_def decodeRune_def isSpace_def)
  moreover have "trimRight p = p"
  proof -
    obtain u d where p: "p = u @ [d]" using Cons by (metis append_butlast_last_id list.distinct(1))
    with assms show ?thesis
      by (subst trimRight.simps) (auto simp: decodeLastRune_ascii addr_char_def isSpace_def)
  qed
  ultimately show ?thesis by (simp add: padded_def TrimSpace_def trimLeft_blanks trimRight_blanks)
qed

text \<open>
  The peer list of the command line is read back: a list of addresses joined by commas, with any
  number of blanks around each, gives exactly the addresses, and a node that finds its bind address
  among them and has positive timeouts in order passes the validation of its configuration.
\<close>

lemma parsePeers_roundtrip:
  assumes "xs \<noteq> []" and "list_all (\<lambda>(a, p, b). list_all addr_char p) xs"
    and "f_peers fl = joinComma (map padded xs)"
  shows "peerList None fl = map (\<lambda>(a, p, b). p) xs \<and>
    (f_grpcAddr fl \<noteq> [] \<and> f_grpcAddr fl \<in> (\<lambda>(a, p, b). p) ` set xs \<and> 0 \<le> f_heartbeat fl \<and>
     f_electionMin fl = 0 \<and> f_electionMax fl = 0 \<longrightarrow>
     validate (raftConfig (mainConfig None fl)) = None)"
proof -
  have words: "list_all (\<lambda>w. CHR '','' \<notin> set w) (map padded xs)"
    using assms(2) by (fastforce simp: list_all_iff padded_def addr_char_def)
  have "map TrimSpace (map padded xs) = map (\<lambda>(a, p, b). p) xs"
    using assms(2) by (auto simp: list_all_iff TrimSpace_padded)
  then have peers: "peerList None fl = map (\<lambda>(a, p, b). p) xs"
    using assms(1,3) splitComma_joinComma [OF _ words] by (simp add: peerList_def parsePeers_def)
  then show ?thesis
    using assms(1)
    by (force simp: validate_def raftConfig_def mainConfig_def orDefault_def DefaultConfig_def Millisecond_def list_ex_iff)
qed

lemma parsePeers_roundtrip_witness:
  "peerList None (defaultFlags\<lparr>f_peers := '' a:1, b:2''\<rparr>) = [''a:1'', ''b:2''] \<and>
   validate (raftConfig (mainConfig None (defaultFlags\<lparr>f_grpcAddr := ''b:2'', f_peers := '' a:1, b:2''\<rparr>))) = None"
  using parsePeers_roundtrip [of "[(1, ''a:1'', 0), (1, ''b:2'', 0)]" "defaultFlags\<lparr>f_peers := '' a:1, b:2''\<rparr>"]
    parsePeers_roundtrip [of "[(1, ''a:1'', 0), (1, ''b:2'', 0)]" "defaultFlags\<lparr>f_grpcAddr := ''b:2'', f_peers := '' a:1, b:2''\<rparr>"]
  by (simp add: addr_char_def padded_def defaultFlags_def)

section \<open>The initial text\<close>

text \<open>Applying entries one after the other.\<close>

fun fsm_runs :: "(string \<Rightarrow> RaftLogEntry option) \<Rightarrow> DocumentStateMachine \<Rightarrow> string list \<Rightarrow> DocumentStateMachine outcome option" where
  "fsm_runs decode fsm [] = Some (Ret fsm)"
| "fsm_runs decode fsm (d # ds) =
     (case fsm_Apply decode fsm d of
        None \<Rightarrow> None
      | Some Panic \<Rightarrow> Some Panic
      | Some (Ret (fsm', res)) \<Rightarrow> fsm_runs decode fsm' ds)"

lemma fsm_Apply_submissions:
  assumes "fsm_Apply decode fsm d = Some (Ret (fsm', res))" and "clientLastSubmission fsm c = Some l"
  shows "\<exists>l'. clientLastSubmission fsm' c = Some l' \<and> l \<le> l'"
  using assms
  by (auto simp: fsm_Apply_def fsm_Apply_entry_def Let_def split: option.splits outcome.splits sum.splits if_splits)

lemma fsm_runs_submissions:
  "fsm_runs decode fsm ds = Some (Ret fsm') \<Longrightarrow> clientLastSubmission fsm c = Some l \<Longrightarrow>
   \<exists>l'. clientLastSubmission fsm' c = Some l' \<and> l \<le> l'"
proof (induction ds arbitrary: fsm l)
  case (Cons d ds)
  from Cons.prems(1) obtain f1 res where f1: "fsm_Apply decode fsm d = Some (Ret (f1, res))" "fsm_runs decode f1 ds = Some (Ret fsm')"
    by (auto split: option.splits outcome.splits)
  from fsm_Apply_submissions [OF f1(1) Cons.prems(2)] Cons.IH [OF f1(2)] show ?case by (meson order.trans)
qed simp

text \<open>
  C40. The initial text is put in once. The entry that a node started with \<open>-bootstrap\<close> proposes turns
  the empty document into the initial text at revision one; and however often it is proposed again, by
  other nodes or after a restart, and whatever has been applied in between, it is then a duplicate that
  changes neither the text nor the revisions.
\<close>

theorem bootstrap_once:
  assumes "initText \<noteq> []" and "len initText < 2 ^ 63"
    and "decode data = Some (bootstrapEntry initText)" and "decode data2 = Some (bootstrapEntry initText2)"
  shows "\<exists>fsm res. fsm_Apply decode (NewDocumentStateMachine []) data = Some (Ret (fsm, Some res)) \<and>
    HeadText fsm = initText \<and> HeadRev fsm = 1 \<and>
    (\<forall>ds fsm2. fsm_runs decode fsm ds = Some (Ret fsm2) \<longrightarrow>
      (\<exists>dup. fsm_Apply decode fsm2 data2 = Some (Ret (fsm2\<lparr>spawned := spawned fsm2 @ [dup]\<rparr>, Some dup)) \<and> IsDuplicate dup))"
proof -
  let ?new = "NewDocumentStateMachine []" and ?c = "MakeInsert 0 0 initText"
  have c: "wf_changeset ?c" "OldLen ?c = 0" "exec (script ?c) [] = initText"
    using MakeInsert_wf [of 0 "[]" initText] assms(1,2) by simp_all
  have "ApplyChangeset [] ?c = Ret (Inr initText)" using ApplyChangeset_exec [OF c(1), of "[]"] c by simp
  then obtain fsm res where fsm: "fsm_Apply decode ?new data = Some (Ret (fsm, Some res))"
    "headText fsm = initText" "headRev fsm = 1" "clientLastSubmission fsm ''system-bootstrap'' = Some 1"
    using assms(3) fsm_Apply_new [where decode = decode and data = data, OF assms(3), of ?new ?c initText]
    by (force simp: is_duplicate_def NewDocumentStateMachine_def bootstrapEntry_def rebase.simps)
  have "\<exists>dup. fsm_Apply decode fsm2 data2 = Some (Ret (fsm2\<lparr>spawned := spawned fsm2 @ [dup]\<rparr>, Some dup)) \<and> IsDuplicate dup"
    if "fsm_runs decode fsm ds = Some (Ret fsm2)" for ds fsm2
  proof -
    have "is_duplicate fsm2 (bootstrapEntry initText2)"
      using fsm_runs_submissions [OF that fsm(4)] by (simp add: is_duplicate_def bootstrapEntry_def)
    then show ?thesis using fsm_Apply_duplicate [where decode = decode and data = data2, OF assms(4)] by blast
  qed
  then show ?thesis using fsm by (auto simp: HeadText_def HeadRev_def)
qed

theorem bootstrap_once_witness:
  "\<exists>fsm res. fsm_Apply (\<lambda>d. Some (bootstrapEntry ''hello'')) (NewDocumentStateMachine []) ''data'' = Some (Ret (fsm, Some res)) \<and>
    HeadText fsm = ''hello'' \<and> HeadRev fsm = 1"
  using bootstrap_once [of "''hello''" "\<lambda>d. Some (bootstrapEntry ''hello'')" "''data''" "''data''" "''hello''"] by auto

section \<open>A server on its own\<close>

text \<open>
  C39. A server with one peer serves an empty document for ever. The flags default to a peer list of
  only the node itself. A server started with any configuration whose peer list has one address can elect itself, without a
  message from anyone; but in every run in which no other node sends it a request nothing is committed: the text stays
  empty and the revision zero, whatever clients submit and whatever initial text is proposed.
\<close>

theorem lone_server_never_commits:
  assumes "startServer B os parse file flags = Ret (Inr (rn, S))"
    and "length (peerList file (withFile parse file flags)) = 1"
  shows "(\<exists>ls P. reaches LS (BoltStable B) A (raftProc S) ls P \<and> (\<forall>lb \<in> set ls. \<forall>cmd resp. lb \<noteq> ServeRPC cmd resp) \<and>
      state (node P) = Leader) \<and>
    (\<forall>ls P. reaches LS (BoltStable B) A (raftProc S) ls P \<and> (\<forall>lb \<in> set ls. \<forall>cmd resp. lb \<noteq> ServeRPC cmd resp) \<longrightarrow>
      commitIndex (node P) = 0 \<and> HeadText (node_fsm (node P)) = [] \<and> HeadRev (node_fsm (node P)) = 0) \<and>
    length (peerList None defaultFlags) = 1"
proof -
  let ?cfg = "mainConfig file (withFile parse file flags)"
  obtain x h where x: "SetupRaft B os ?cfg (NewDocumentStateMachine []) = Ret (x, h)"
    "(case x of Inl err \<Rightarrow> Inl err | Inr rn \<Rightarrow> Inr (rn, NewNode (cn_Raft rn) (f_wsAddr (withFile parse file flags)))) = Inr (rn, S)"
    using assms(1) by (auto simp: startServer_def Let_def bind_outcome_eq_Ret)
  then have h: "SetupRaft B os ?cfg (NewDocumentStateMachine []) = Ret (Inr rn, h)" and S: "raftProc S = cn_Raft rn"
    by (cases x; auto simp: NewNode_def)+
  obtain r d where r: "NewRaftNode (BoltStable B) (raftConfig ?cfg) d d (NewDocumentStateMachine []) = Ret (Inr r)"
    and rn: "cn_Raft rn = start r"
    using SetupRaft_started(1) [OF h] by blast
  have "length (Peers (raftConfig ?cfg)) = 1" using assms(2) by (simp add: raftConfig_def mainConfig_def)
  then obtain p where p: "Peers (raftConfig ?cfg) = [p]" by (auto simp: length_Suc_conv)
  have "state r = Follower" "quorum r = 1" using NewRaftNode_started [OF r] p by (simp_all add: quorum_def)
  then have "\<exists>ls P. reaches LS (BoltStable B) A (raftProc S) ls P \<and> (\<forall>lb \<in> set ls. \<forall>cmd resp. lb \<noteq> ServeRPC cmd resp) \<and> state (node P) = Leader"
    using single_node_elects_itself [of r LS "BoltStable B" A] S rn by metis
  moreover have "commitIndex (node P) = 0 \<and> HeadText (node_fsm (node P)) = [] \<and> HeadRev (node_fsm (node P)) = 0"
    if "reaches LS (BoltStable B) A (raftProc S) ls P" "\<forall>lb \<in> set ls. \<forall>cmd resp. lb \<noteq> ServeRPC cmd resp" for ls P
  proof -
    have "alone (NewDocumentStateMachine []) P" using alone_run [OF r p] that S rn by simp
    then show ?thesis by (simp add: alone_def HeadText_def HeadRev_def NewDocumentStateMachine_def)
  qed
  moreover have "length (peerList None defaultFlags) = 1" by (simp add: peerList_def parsePeers_def defaultFlags_def)
  ultimately show ?thesis by blast
qed

definition sample_os :: OS where
  "sample_os = \<lparr>os_MkdirAll = \<lambda>dir. True, filepath_Join = \<lambda>dir name. dir @ CHR ''/'' # name, net_Listen = \<lambda>addr. True\<rparr>"

definition sample_lone :: "(bytes \<Rightarrow> (bytes \<times> bytes) list, bytes \<Rightarrow> (bytes \<times> bytes) list, DocumentStateMachine, ApplyResult option) RaftNode" where
  "sample_lone =
     \<lparr>config = raftConfig (mainConfig None defaultFlags), currentTerm = 0, votedFor = [], logStore = \<lambda>b. [], stableStore = \<lambda>b. [],
      state = Follower, commitIndex = 0, lastApplied = 0, peers = [], peer_heap = [],
      leaderID = [], leaderAddr = [], node_fsm = NewDocumentStateMachine [], pendingFutures = [], futures = [],
      applyCh = [], commitNotifyCh = False, shutdownCh = False\<rparr>"

lemma default_peers: "peerList None defaultFlags = [''localhost:12000'']"
  using TrimSpace_padded [of "''localhost:12000''" 0 0]
  by (simp add: peerList_def parsePeers_def defaultFlags_def padded_def addr_char_def)

lemma sample_lone_starts:
  "startServer limited_bolt sample_os parse None defaultFlags = Ret (Inr (
     \<lparr>cn_Raft = start sample_lone, cn_Transport = \<lparr>tcp_localAddr = ''localhost:12000'', tcp_listening = True,
        tcp_shutdownCh = False, tcp_shutdown = False\<rparr>, cn_open = True\<rparr>,
     NewNode (start sample_lone) ''localhost:8080''))"
proof -
  have "validate (raftConfig (mainConfig None defaultFlags)) = None"
    by (simp add: validate_def raftConfig_def mainConfig_def default_peers orDefault_def DefaultConfig_def Millisecond_def)
      (simp add: defaultFlags_def)
  moreover have "rc_BindAddr (mainConfig None defaultFlags) = ''localhost:12000''" "f_wsAddr defaultFlags = ''localhost:8080''"
    by (simp_all add: mainConfig_def defaultFlags_def)
  ultimately show ?thesis
    by (simp add: startServer_def SetupRaft_def NewBoltStore_def Update_def limited_bolt_def map_bolt_def sample_os_def NewTCPTransport_def withFile_def
        NewRaftNode_def restoreState_def BoltStable_def bolt_GetUint64_def bolt_GetValue_def sample_lone_def)
qed

theorem lone_server_never_commits_witness:
  "\<exists>rn S ls P. startServer limited_bolt sample_os (\<lambda>d. None) None defaultFlags = Ret (Inr (rn, S)) \<and>
     reaches (BoltLog limited_bolt plain_marshal plain_unmarshal) (BoltStable limited_bolt) (fsm_Apply (\<lambda>d. None)) (raftProc S) ls P \<and>
     state (node P) = Leader \<and> commitIndex (node P) = 0 \<and> HeadText (node_fsm (node P)) = []"
proof -
  have "length (peerList None (withFile (\<lambda>d. None) None defaultFlags)) = 1" by (simp add: withFile_def default_peers)
  from lone_server_never_commits [OF sample_lone_starts this, of "BoltLog limited_bolt plain_marshal plain_unmarshal" "fsm_Apply (\<lambda>d. None)"]
  show ?thesis using sample_lone_starts [of "\<lambda>d. None"] by blast
qed

end
