(* ===== verification/Spec2Isabelle.thy ===== *)
theory Spec2Isabelle
  imports Service_Schedule Server_Main
begin

text \<open>
  A verification development of the distributed collaborative editor: a replicated plain-text
  document, edited by many clients at once, kept the same on all servers by a Raft log of changesets
  and on all clients by operational transformation.

  \<^bold>\<open>The program.\<close> A client connects to a server over a WebSocket (\<^verbatim>\<open>internal/server/websocket.go\<close>),
  receives the document and submits changesets, each based on a revision it has seen. The leader puts
  a submission into the Raft log (\<^verbatim>\<open>internal/raft\<close>); once a majority holds it, every node gives it to
  its document state machine (\<^verbatim>\<open>internal/fsm\<close>), which rebases it over the revisions it has not seen
  with \<open>Follow\<close> (\<^verbatim>\<open>internal/ot\<close>), applies it and calls back into the server, which acknowledges it to
  its author and broadcasts it to the others. Log, term and vote are kept in a bbolt file
  (\<^verbatim>\<open>internal/store\<close>); \<^verbatim>\<open>internal/server/cluster.go\<close> and \<^verbatim>\<open>cmd/server/main.go\<close> put the parts
  together.

  \<^bold>\<open>The theories.\<close>
  \<^item> \<open>Go_Prelude\<close>: what the sources use of Go. A panic is the value \<open>Panic\<close> of \<open>'a outcome\<close>; \<open>int\<close> is
    an integer kept in range by \<open>int64\<close>, \<open>uint64\<close> a \<open>64 word\<close>; \<open>go_loop\<close> is a loop that may not end
    (\<open>None\<close>), a \<open>partial_function\<close>; no model uses fuel. \<open>Edit_Script\<close>: edit scripts, the specification
    language of changesets.
  \<^item> \<open>OT_Changeset\<close> (changeset.go, apply.go), \<open>OT_Cursor\<close> and \<open>OT_Compose\<close> (compose.go), \<open>OT_Follow\<close>
    (follow.go), \<open>OT_Diff\<close> (diff.go), and their theorems in \<open>OT_Laws\<close>: \<open>Validate\<close> accepts exactly the
    well-formed changesets, \<open>Compose\<close> and \<open>Follow\<close> return, refine their specifications on scripts, and
    two concurrent changesets converge; the diff of two texts is right and minimal. Where the code
    falls short of that (sums that wrap, neighbouring insertions, empty insertions, invalid UTF-8) the
    theorems say so.
  \<^item> \<open>Document_FSM\<close> (fsm.go, types.go): \<open>Apply\<close> keeps the invariant that replaying the revision log gives
    the head text, never panics on entries with a revision that is not negative, and applies a
    submission once. The JSON codec of an entry is a parameter, the goroutines it starts are collected
    in the field \<open>spawned\<close>.
  \<^item> \<open>Raft_Types\<close> (types.go, config.go, future.go), \<open>Raft_Stores\<close> (inmem.go) and \<open>Raft_Log\<close>: data, futures,
    and the stores as records of their methods. The locales \<open>log_store\<close> and \<open>stable_store\<close> are the
    contracts; they are interpreted by the in-memory stores there and by the disk stores in
    \<open>Bolt_Store\<close> (boltstore.go). That theory assumes of the database library the locale \<open>bolt_db\<close>, which has what the library
    documents: limits on the sizes of keys and values, an error for a bucket that does not exist, and nothing about a cursor after
    \<open>Delete\<close>. That \<open>DeleteRange\<close> deletes exactly its range needs the further assumption \<open>keeps_place\<close>, since the code goes on with
    the cursor after it has deleted; the contracts of the node need that and that no limit is met (\<open>bolt_roomy\<close>).
  \<^item> \<open>Raft_Node\<close> (raft.go, election.go), \<open>Raft_Replication\<close> (replication.go), \<open>Raft_Apply\<close> (raft.go): every
    critical section of a node as a function on the record \<open>RaftNode\<close>. \<open>Raft_Laws\<close> proves over every log
    and stable store: \<open>handleAppendEntries\<close> refines its specification on lists, a follower catches up,
    commit needs a majority and an entry of the current term, committed entries are applied once and
    in order.
  \<^item> \<open>Raft_Process\<close>: the goroutines of a node as the step relation \<open>pstep\<close> over these functions.
    \<open>Raft_Runs\<close>: runs of one node, crashes included. \<open>Election_Spec\<close> is an abstract voting protocol, and
    \<open>Raft_Cluster\<close> a cluster of processes with a network that delays, reorders, duplicates and loses
    messages, which simulates it: a term has at most one leader.
  \<^item> \<open>Raft_Matching\<close>: the log of a leader is written by that leader alone, every other log is a sequence of
    copies of such logs, so two logs that agree at one entry agree up to it. \<open>Commit_Spec\<close> is an abstract
    history of logs, votes and leaders with the argument that a leader has what was committed before;
    \<open>Raft_Effects\<close> sorts the steps of \<open>pstep\<close> by what they do to the log, the commit index and the peer states;
    \<open>Raft_History\<close> relates a cluster to a history and \<open>Raft_Safety\<close> shows that every step keeps the relation.
    \<open>Raft_Agreement\<close> states the results: log matching, leader completeness, state machine safety and the
    agreement of the replicas.
  \<^item> \<open>Raft_Transport\<close> (transport.go and the transport of inmem.go): frames, both sides of a call.
  \<^item> \<open>Server_Node\<close> (websocket.go): connections, client channels and callbacks as the step relation
    \<open>sstep\<close> on top of \<open>pstep\<close> and the document. \<open>Server_Laws\<close>: its invariant, that no interleaving sends
    on a closed channel, the two ways in which it can panic, and what a commit delivers. \<open>Server_Runs\<close>: a submission on its way from the
    client to the log and back, an observer that applies the broadcasts, and the runs in which
    messages are reordered, lost or torn.
  \<^item> \<open>Raft_Opaque\<close>: Raft does not look into the state machine, so what only the server reads of it (the
    callbacks that wait to be run) can be left out. \<open>Service_Runs\<close>: all servers with their connections, their Raft
    nodes and their documents, joined by the network; a simulation shows that it is a cluster in the sense
    of \<open>Raft_Cluster\<close>, and an invariant that whatever a client is told is a revision of the document.
    \<open>Service_Schedule\<close>: a function that plays a schedule of steps, shown to give runs of the service; a session of
    76 steps (an election, two concurrent edits, a restart, a server that catches up) is evaluated
    with it and serves as the instance of the theorems on all runs.
  \<^item> \<open>Server_Main\<close> (cluster.go, main.go): configuration, start, failure and shutdown, the initial text, the
    exit of the program.

  \<^bold>\<open>How state and steps correspond to the code.\<close> A struct is a record with its fields; a map whose
  order matters is an association list; pointers to peer states, futures and clients are addresses
  into a list kept in the record (\<open>peer_heap\<close>, \<open>futures\<close>, \<open>wsHeap\<close>). What runs under one hold of a mutex is
  one function and one step; where the code gives up the lock, or calls several getters in a row, the
  model has separate steps. A few neighbouring sections are one step all the same: \<open>run\<close> reads the state and enters \<open>startElection\<close> or \<open>initLeader\<close>,
  \<open>runCandidate\<close> checks the term of a vote and counts it, \<open>applyEntry\<close> reads the entry, applies it and moves \<open>lastApplied\<close>,
  \<open>Apply\<close> of the node checks for the leader and enqueues, and \<open>persistState\<close> writes term and vote. A panic of the code of the
  connections or of the apply loop is the outcome \<open>Panic\<close> of a step of \<open>sstep\<close>; the server is then gone until it starts again. A channel is a list with its capacity, closing it a flag, sending on a
  closed one a panic. A timer may fire at any time, so no theorem depends on durations. Statements
  about lengths carry the hypothesis that they stay below \<open>2 ^ 63\<close>, and statements about log positions
  that they stay below \<open>2 ^ 64\<close>, the largest values of the types of the program.

  The last section of this theory puts connections, Raft and the document together: servers at the same revision
  show the same text, and clients are told the same changes under one revision number, on whichever
  server, before and after restarts. The runs are those of \<open>service_run\<close>: interleavings of the goroutines
  of all servers (\<open>sstep\<close>, which includes \<open>pstep\<close>) and of restarts, with the exceptions that follow. The program can take the
  steps left out, so these theorems and those of the cluster are about a part of its runs.

  \<^bold>\<open>The runs of a cluster.\<close> Messages may be delayed, reordered, repeated and lost, nodes may crash at any
  step and start again on their stores. Four things are left out, because the code then breaks the
  properties, or because the types of the program end:
  \<^item> \<open>fresh\<close> (\<open>Raft_Cluster\<close>): no reply of an earlier leadership with a later term reaches a node that is no
    longer the leader. Otherwise a late vote elects it (\<open>late_vote_elects_in_later_term\<close>, \<open>Raft_Laws\<close>), and a
    term can have two leaders.
  \<^item> \<open>steady\<close> (\<open>Raft_Matching\<close>): a leader that is deposed between its election and its first entry takes no step
    that writes it. Otherwise it adds an entry in the term of another leader (\<open>deposed_leader_appends_no_op\<close>, \<open>Raft_Runs\<close>), and the logs
    differ at the same index and term. It also keeps log positions below \<open>2 ^ 64 - 2\<close>.
  \<^item> \<open>honest\<close> (\<open>Raft_History\<close>): a reply to a replicator is the answer of the peer to a request of that replicator
    in this life of the node; a successful one is handled while the node leads. Otherwise a
    follower commits what no majority has (\<open>late_success_commits\<close>, \<open>Raft_Agreement\<close>).
  \<^item> The cluster starts with empty logs and the same initial state machine, which a node that starts again
    has too.
  Election safety needs the first, log matching the first two, the other properties all of them.
  That a candidate forgets its vote when it accepts a leader of its own term
  (\<open>same_term_append_forgets_vote\<close>) is covered: such a leader has its majority already.

  \<^bold>\<open>Not modelled.\<close> The text of JSON messages (codecs are parameters), the HTTP upgrade, pings and
  deadlines of WebSocket connections, logging, the parsing of flags and durations, the HTTP server that \<^verbatim>\<open>main\<close>
  starts (its end and that of the program are modelled), writes to a TCP connection that fail part of the way, and failures of the
  disk in the middle of an operation beyond the error values of the store interfaces, so that no crash falls between the two
  writes of \<open>persistState\<close>. The browser client is written in JavaScript and is represented only
  by the observer of \<open>Server_Runs\<close>.

  \<^bold>\<open>Open.\<close> That a leader is elected eventually depends on the lengths of timeouts and needs a model of time.
\<close>

section \<open>The documents of the servers\<close>

text \<open>
  The servers keep log, term and vote in one database. As long as no limit of the database is met and its cursors keep their place
  when they delete (\<open>bolt_roomy\<close>), the disk stores are stores of the kind the cluster theorems speak of.
\<close>

sublocale bolt_roomy \<subseteq> disk: raft_stores "BoltLog B marshal unmarshal" "bolt_linv dinv buckets bmap unmarshal"
  "bolt_lmap bmap unmarshal" "BoltStable B" "bolt_sinv dinv buckets"
  by unfold_locales

text \<open>
  C1. The servers show the same document, in the runs of \<open>service_run\<close>. These are the runs of the service whose steps satisfy \<open>fresh\<close>, \<open>steady\<close> and
  \<open>honest\<close>: a server that no longer leads handles no reply with a later term and no successful reply, a deposed leader
  does not write its first entry, and replies answer requests of this life of the server. The program has other runs, in which Raft
  itself goes wrong (\<open>late_vote_elects_in_later_term\<close>, \<open>deposed_leader_appends_no_op\<close>, \<open>late_success_commits\<close>); they are excluded here.
  In a run of this kind: if a server is, at some time, at a
  revision that is not later than that of another server, at the same time or later, then its
  revisions are the first of the other one's; and two servers that are at the same revision show the
  same text. A text a client has seen under a revision number is never another one elsewhere.
\<close>

theorem documents_agree:
  assumes "log_store LS linv lmap" and "stable_store SS sinv" and "service_start SS sinv (repr linv lmap) ids t X"
    and "service_run LS SS decode marshal ids t X silent Y u" and "service_run LS SS decode marshal ids t Y u Z v" and "i \<in> ids" and "j \<in> ids"
    and "len (revisionLog (sm (servers Y i))) < 2 ^ 63" and "len (revisionLog (sm (servers Z j))) < 2 ^ 63"
    and "HeadRev (sm (servers Y i)) \<le> HeadRev (sm (servers Z j))"
  shows "prefix (revisionLog (sm (servers Y i))) (revisionLog (sm (servers Z j))) \<and>
    (HeadRev (sm (servers Y i)) = HeadRev (sm (servers Z j)) \<longrightarrow> HeadText (sm (servers Y i)) = HeadText (sm (servers Z j)))"
proof -
  let ?x = "sm (servers Y i)" and ?y = "sm (servers Z j)"
  note docs = service_documents [OF assms(1-7)]
  have le: "length (revisionLog ?x) \<le> length (revisionLog ?y)" "headRev ?x = len (revisionLog ?x)" "headRev ?y = len (revisionLog ?y)"
    using docs(2) [OF assms(8)] docs(3) [OF assms(9)] assms(10) by (simp_all add: numbered_def HeadRev_def)
  from docs(1) have "prefix (revisionLog ?x) (revisionLog ?y)"
    using le(1) by (auto simp: older_def prefix_def)
  moreover from docs(1) have "headText ?x = headText ?y" if "length (revisionLog ?x) = length (revisionLog ?y)"
    using that by (auto simp: older_def)
  ultimately show ?thesis using le(2,3) by (simp add: HeadRev_def HeadText_def)
qed

text \<open>
  C2. The clients are told the same changes, in the runs of \<open>service_run\<close>, those whose steps satisfy \<open>fresh\<close>, \<open>steady\<close> and
  \<open>honest\<close> as in the theorem before; runs in which a reply reaches a server after its leadership, or a deposed leader writes its
  first entry, are excluded, and the program does not keep the property in them. In a run of this kind: the changesets that two servers
  have sent to their clients under one revision number, in broadcasts or in the lists of missed revisions, at
  the same or at different times and with any number of restarts in between, are the same.
\<close>

theorem clients_agree:
  assumes "log_store LS linv lmap" and "stable_store SS sinv" and "service_start SS sinv (repr linv lmap) ids t X"
    and "service_run LS SS decode marshal ids t X silent Y u" and "service_run LS SS decode marshal ids t Y u Z v" and "i \<in> ids" and "j \<in> ids"
    and "len (revisionLog (sm (servers Y i))) < 2 ^ 63" and "len (revisionLog (sm (servers Z j))) < 2 ^ 63"
  shows "single_valued (told (servers Y i) \<union> told (servers Z j))"
proof -
  let ?x = "sm (servers Y i)" and ?y = "sm (servers Z j)"
  note docs = service_documents [OF assms(1-7)] and ok = truthful_run [OF assms(4) truthful_start [OF assms(3)]]
  have told: "told (servers Y i) \<subseteq> revisions (revisionLog ?x)" "told (servers Z j) \<subseteq> revisions (revisionLog ?y)"
    using ok truthful_run [OF assms(5) ok] assms(6-9) by (simp_all add: truthful_def)
  from docs(1) have "revisions (revisionLog ?x) \<subseteq> revisions (revisionLog ?y) \<or> revisions (revisionLog ?y) \<subseteq> revisions (revisionLog ?x)"
    by (auto simp: older_def revisions_def prefix_def)
  then have "told (servers Y i) \<union> told (servers Z j) \<subseteq> revisions (revisionLog ?y) \<or> told (servers Y i) \<union> told (servers Z j) \<subseteq> revisions (revisionLog ?x)"
    using told by blast
  then show ?thesis
    using numbered_single [OF docs(2) [OF assms(8)]] numbered_single [OF docs(3) [OF assms(9)]] by (blast intro: single_valued_subset)
qed

lemma sample_service_start:
  "service_start InmemStable (\<lambda>s. True) (repr inmem_linv inmem_lmap) {''a'', ''b'', ''c''} ''hello'' sample_service"
proof -
  have "durable InmemStable (\<lambda>s. True) (sample_server i)" for i
    by (simp add: durable_def persisted_def sample_server_def InmemStable_def inmem_GetUint64_def inmem_Get_def NewInmemStableStore_def)
  then show ?thesis
    by (auto simp: service_start_def cluster_start_def cluster_init_def sample_service_def raft_view_def NewNode_def start_def member_config_def)
      (auto simp: sample_server_def sample_config_def validate_def DefaultConfig_def Millisecond_def inmem_repr_New)
qed

text \<open>The session of \<open>Service_Schedule\<close>: the document of \<open>b\<close> after the edits and that of \<open>c\<close> after the recovery.\<close>

lemma documents_agree_witness:
  "\<exists>Y u Z v. service_run InmemLog InmemStable sample_decode sample_marshal {''a'', ''b'', ''c''} ''hello'' sample_service silent Y u \<and>
     service_run InmemLog InmemStable sample_decode sample_marshal {''a'', ''b'', ''c''} ''hello'' Y u Z v \<and> HeadText (sm (servers Y ''b'')) = ''>hello!'' \<and>
     prefix (revisionLog (sm (servers Y ''b''))) (revisionLog (sm (servers Z ''c''))) \<and>
     HeadText (sm (servers Y ''b'')) = HeadText (sm (servers Z ''c''))"
proof (rule sample_day)
  fix Y u Z v
  assume run: "service_run InmemLog InmemStable sample_decode sample_marshal {''a'', ''b'', ''c''} ''hello'' sample_service silent Y u"
    "service_run InmemLog InmemStable sample_decode sample_marshal {''a'', ''b'', ''c''} ''hello'' Y u Z v"
    and docs: "HeadText (sm (servers Y ''b'')) = ''>hello!'' \<and> HeadRev (sm (servers Y ''b'')) = 2 \<and> len (revisionLog (sm (servers Y ''b''))) < 2 ^ 63"
    "\<forall>i \<in> {''a'', ''b'', ''c''}. HeadText (sm (servers Z i)) = ''>hello!'' \<and> HeadRev (sm (servers Z i)) = 2 \<and> len (revisionLog (sm (servers Z i))) < 2 ^ 63"
  have "prefix (revisionLog (sm (servers Y ''b''))) (revisionLog (sm (servers Z ''c''))) \<and>
      HeadText (sm (servers Y ''b'')) = HeadText (sm (servers Z ''c''))"
    using documents_agree [OF inmem_log.log_store_axioms inmem_stable.stable_store_axioms sample_service_start run,
        where i = "''b''" and j = "''c''"] docs by simp
  then show ?thesis using run docs(1) by blast
qed

text \<open>What \<open>b\<close> told its clients after the edits, and what \<open>a\<close> has told its own after the recovery.\<close>

lemma clients_agree_witness:
  "\<exists>Y u Z v. service_run InmemLog InmemStable sample_decode sample_marshal {''a'', ''b'', ''c''} ''hello'' sample_service silent Y u \<and>
     service_run InmemLog InmemStable sample_decode sample_marshal {''a'', ''b'', ''c''} ''hello'' Y u Z v \<and> told (servers Y ''b'') = sample_changes \<and>
     told (servers Z ''a'') = sample_changes \<and> single_valued (told (servers Y ''b'') \<union> told (servers Z ''a''))"
proof (rule sample_day)
  fix Y u Z v
  assume run: "service_run InmemLog InmemStable sample_decode sample_marshal {''a'', ''b'', ''c''} ''hello'' sample_service silent Y u"
    "service_run InmemLog InmemStable sample_decode sample_marshal {''a'', ''b'', ''c''} ''hello'' Y u Z v"
    and docs: "HeadText (sm (servers Y ''b'')) = ''>hello!'' \<and> HeadRev (sm (servers Y ''b'')) = 2 \<and> len (revisionLog (sm (servers Y ''b''))) < 2 ^ 63"
    "\<forall>i \<in> {''a'', ''b'', ''c''}. HeadText (sm (servers Z i)) = ''>hello!'' \<and> HeadRev (sm (servers Z i)) = 2 \<and> len (revisionLog (sm (servers Z i))) < 2 ^ 63"
    and tells: "told (servers Y ''b'') = sample_changes" "told (servers Z ''a'') = sample_changes"
  have "single_valued (told (servers Y ''b'') \<union> told (servers Z ''a''))"
    using clients_agree [OF inmem_log.log_store_axioms inmem_stable.stable_store_axioms sample_service_start run,
        where i = "''b''" and j = "''a''"] docs by simp
  then show ?thesis using run tells by blast
qed

end
